(* ===== verification/Skynet_Prelude.thy ===== *)
theory Skynet_Prelude
  imports Main "HOL-Library.Word" "HOL-Library.Monad_Syntax"
begin

text \<open>
  Prelude of the development: the machine types of the C sources, the two
  array accesses every component uses, the collections of rewrite rules the
  component proofs share, and the generic lemmas on lists, options and words.

  Conventions. A C function that can fail (a failed \<^verbatim>\<open>assert\<close>, a read of an
  uninitialised or out-of-range cell, a signed overflow) returns a value of
  type \<^typ>\<open>'a option\<close>: \<^term>\<open>None\<close> is the failure. Signed C integers are
  \<^typ>\<open>int\<close>, with the overflow check written out where a value can grow;
  unsigned ones are words of their width. A pointer to an object of a
  component is an address (\<^typ>\<open>nat\<close>) into that component's store.
\<close>

unbundle bit_operations_syntax

type_synonym u8 = "8 word"
type_synonym u16 = "16 word"
type_synonym u32 = "32 word"
type_synonym u64 = "64 word"
type_synonym addr = nat

named_theorems tw_simps \<open>what the operations of the timer wheel do to its slots\<close>

section \<open>Signed 32-bit integers\<close>

definition INT_MAX :: int where
  "INT_MAX = 2147483647"

text \<open>A multiplication of a C \<^verbatim>\<open>int\<close> by two: \<^term>\<open>None\<close> when it overflows.\<close>

definition checked_double :: "int \<Rightarrow> int option" where
  "checked_double n = (if - INT_MAX - 1 \<le> n * 2 \<and> n * 2 \<le> INT_MAX then Some (n * 2) else None)"

lemma checked_double_Some [simp]:
  "0 \<le> n \<Longrightarrow> n * 2 \<le> INT_MAX \<Longrightarrow> checked_double n = Some (n * 2)"
  by (simp add: checked_double_def INT_MAX_def)

lemma checked_double_SomeD: "checked_double n = Some m \<Longrightarrow> m = n * 2 \<and> m \<le> INT_MAX"
  by (auto simp: checked_double_def split: if_splits)

section \<open>Arrays\<close>

text \<open>
  A C array is the list of its cells; a cell is \<^term>\<open>None\<close> until it is written.
  Reading an unwritten cell or one out of range has no value.
\<close>

definition array_get :: "'a option list \<Rightarrow> int \<Rightarrow> 'a option" where
  "array_get xs i = (if 0 \<le> i \<and> nat i < length xs then xs ! nat i else None)"

definition array_set :: "'a option list \<Rightarrow> int \<Rightarrow> 'a \<Rightarrow> 'a option list option" where
  "array_set xs i v = (if 0 \<le> i \<and> nat i < length xs then Some (xs[nat i := Some v]) else None)"

lemma array_set_Some [simp]:
  "0 \<le> i \<Longrightarrow> nat i < length xs \<Longrightarrow> array_set xs i v = Some (xs[nat i := Some v])"
  by (simp add: array_set_def)

lemma array_get_update:
  "array_get (xs[nat i := Some v]) j =
     (if 0 \<le> j \<and> nat j < length xs \<and> nat i = nat j then Some v else array_get xs j)"
  by (simp add: array_get_def nth_list_update)

section \<open>Masking\<close>

text \<open>The sources take remainders modulo a power of two with \<^verbatim>\<open>h & (size-1)\<close>.\<close>

lemma unat_and_mask:
  fixes w :: "'a::len word"
  assumes "n = 2 ^ k"
  shows "unat (w AND (of_nat n - 1)) = unat w mod n"
proof -
  have "w AND (of_nat n - 1) = take_bit k w"
    by (simp add: assms take_bit_eq_mask mask_eq_exp_minus_1)
  then have "unat (w AND (of_nat n - 1)) = take_bit k (unat w)"
    by (simp only: unsigned_take_bit_eq)
  then show ?thesis by (simp add: take_bit_eq_mod assms)
qed

lemma unat_drop_bit: "unat (drop_bit k (w :: 'a::len word)) = unat w div 2 ^ k"
proof -
  have "take_bit LENGTH('a) (unat w) = unat w" by (simp add: take_bit_nat_eq_self)
  then show ?thesis unfolding unsigned_drop_bit_eq by (simp only: drop_bit_eq_div)
qed

lemma unat_take_bit: "unat (take_bit k (w :: 'a::len word)) = unat w mod 2 ^ k"
  unfolding unsigned_take_bit_eq by (simp only: take_bit_eq_mod)

text \<open>Two words agree above bit \<open>k\<close> when they are equal once the lower bits are set.\<close>

lemma or_mask_eq_iff:
  fixes a b :: "'a::len word"
  assumes "n = 2 ^ k"
  shows "a OR (of_nat n - 1) = b OR (of_nat n - 1) \<longleftrightarrow> unat a div n = unat b div n"
proof -
  have m: "(of_nat n - 1 :: 'a word) = mask k" by (simp add: assms mask_eq_exp_minus_1)
  have "a OR mask k = b OR mask k \<longleftrightarrow> drop_bit k a = drop_bit k b"
  proof
    assume e: "a OR mask k = b OR mask k"
    show "drop_bit k a = drop_bit k b"
    proof (rule bit_eqI)
      fix n
      from e have "bit (a OR mask k) (k + n) = bit (b OR mask k) (k + n)" by simp
      then show "bit (drop_bit k a) n \<longleftrightarrow> bit (drop_bit k b) n"
        by (auto simp: bit_simps)
    qed
  next
    assume e: "drop_bit k a = drop_bit k b"
    show "a OR mask k = b OR mask k"
    proof (rule bit_eqI)
      fix n
      assume "possible_bit TYPE('a word) n"
      from e have "bit (drop_bit k a) (n - k) = bit (drop_bit k b) (n - k)" by simp
      then show "bit (a OR mask k) n \<longleftrightarrow> bit (b OR mask k) n"
        using bit_imp_le_length by (cases "n < k") (auto simp: bit_simps)
    qed
  qed
  also have "\<dots> \<longleftrightarrow> unat (drop_bit k a) = unat (drop_bit k b)" by (auto intro: unsigned_word_eqI)
  also have "\<dots> \<longleftrightarrow> unat a div n = unat b div n"
    by (simp only: unat_drop_bit assms)
  finally show ?thesis by (simp add: m)
qed

section \<open>Modular arithmetic of ring buffers\<close>

text \<open>
  The offsets \<open>(h + i) mod c\<close> of a ring buffer of capacity \<open>c\<close> hit each cell once.
\<close>

lemma mod_add_inj:
  fixes h i j c :: int
  assumes "0 < c" "0 \<le> i" "i < c" "0 \<le> j" "j < c" "(h + i) mod c = (h + j) mod c"
  shows "i = j"
proof -
  have "i mod c = j mod c"
    using assms(6) by (metis add.commute mod_diff_left_eq add_diff_cancel_right')
  then show ?thesis using assms by simp
qed

lemma mod_add_wrap:
  fixes h n c :: int
  assumes "0 \<le> h" "h < c" "0 \<le> n" "n < c"
  shows "(h + n) mod c = (if h + n < c then h + n else h + n - c)"
proof (cases "h + n < c")
  case False
  have "(h + n) mod c = (h + n - c) mod c" by simp
  also have "\<dots> = h + n - c" using assms False by (intro mod_pos_pos_trivial) auto
  finally show ?thesis using False by simp
qed (use assms in simp)

section \<open>Lists and options\<close>

lemma bind_eq_SomeE:
  assumes "Option.bind x f = Some y"
  obtains z where "x = Some z" and "f z = Some y"
  using assms by (cases x) auto

lemma map_upt_shift: "map f [0..<Suc n] = f 0 # map (\<lambda>i. f (Suc i)) [0..<n]"
proof -
  have "[0..<Suc n] = 0 # map Suc [0..<n]"
    by (simp add: map_Suc_upt upt_conv_Cons del: upt_Suc)
  then show ?thesis by (simp del: upt_Suc)
qed

end
