(* ===== verification/Fifo_Spec.thy ===== *)
theory Fifo_Spec
  imports Skynet_Prelude
begin

text \<open>
  The contract of a first-in first-out queue, as the ring buffers of
  \<^verbatim>\<open>skynet_mq.c\<close> and \<^verbatim>\<open>lua-netpack.c\<close> promise it: a push appends, a pop takes
  the oldest element or reports that there is none, and neither fails while
  fewer than \<open>limit\<close> elements are stored. The client lemma is that any
  sequence of pushes and pops answers as the same sequence on a plain list.
\<close>

datatype 'a qop = Push 'a | Pop

fun fifo_run ::
  "('q \<Rightarrow> 'a \<Rightarrow> 'q option) \<Rightarrow> ('q \<Rightarrow> ('a option \<times> 'q) option) \<Rightarrow> 'a qop list \<Rightarrow> 'q
     \<Rightarrow> ('a option list \<times> 'q) option" where
  "fifo_run push pop [] q = Some ([], q)"
| "fifo_run push pop (Push x # ops) q =
     (case push q x of None \<Rightarrow> None | Some q' \<Rightarrow> fifo_run push pop ops q')"
| "fifo_run push pop (Pop # ops) q =
     (case pop q of
        None \<Rightarrow> None
      | Some (r, q') \<Rightarrow> map_option (\<lambda>(rs, q''). (r # rs, q'')) (fifo_run push pop ops q'))"

fun list_run :: "'a qop list \<Rightarrow> 'a list \<Rightarrow> 'a option list \<times> 'a list" where
  "list_run [] xs = ([], xs)"
| "list_run (Push x # ops) xs = list_run ops (xs @ [x])"
| "list_run (Pop # ops) [] = (let (rs, ys) = list_run ops [] in (None # rs, ys))"
| "list_run (Pop # ops) (x # xs) = (let (rs, ys) = list_run ops xs in (Some x # rs, ys))"

primrec pushes :: "'a qop list \<Rightarrow> nat" where
  "pushes [] = 0"
| "pushes (x # xs) = (case x of Push _ \<Rightarrow> Suc (pushes xs) | Pop \<Rightarrow> pushes xs)"

locale fifo =
  fixes push :: "'q \<Rightarrow> 'a \<Rightarrow> 'q option"
    and pop :: "'q \<Rightarrow> ('a option \<times> 'q) option"
    and contents :: "'q \<Rightarrow> 'a list"
    and invar :: "'q \<Rightarrow> bool"
    and limit :: nat
  assumes push_law: "invar q \<Longrightarrow> length (contents q) + 1 < limit \<Longrightarrow>
      \<exists>q'. push q x = Some q' \<and> invar q' \<and> contents q' = contents q @ [x]"
    and pop_empty_law: "invar q \<Longrightarrow> contents q = [] \<Longrightarrow>
      \<exists>q'. pop q = Some (None, q') \<and> invar q' \<and> contents q' = []"
    and pop_cons_law: "invar q \<Longrightarrow> contents q = x # xs \<Longrightarrow>
      \<exists>q'. pop q = Some (Some x, q') \<and> invar q' \<and> contents q' = xs"
begin

lemma run_refines:
  assumes "invar q" and "length (contents q) + pushes ops < limit"
  shows "\<exists>q'. fifo_run push pop ops q = Some (fst (list_run ops (contents q)), q')
           \<and> invar q' \<and> contents q' = snd (list_run ops (contents q))"
  using assms
proof (induction ops arbitrary: q)
  case Nil
  then show ?case by simp
next
  case (Cons op ops)
  show ?case
  proof (cases op)
    case (Push x)
    with Cons.prems push_law [of q x] obtain q' where
      "push q x = Some q'" "invar q'" "contents q' = contents q @ [x]" by auto
    with Push Cons.prems Cons.IH [of q'] show ?thesis by simp
  next
    case Pop
    show ?thesis
    proof (cases "contents q")
      case Nil
      with Cons.prems pop_empty_law [of q] obtain q' where
        "pop q = Some (None, q')" "invar q'" "contents q' = []" by auto
      with Pop Nil Cons.prems Cons.IH [of q'] show ?thesis
        by (auto simp: case_prod_beta)
    next
      case C: (Cons x xs)
      with Cons.prems pop_cons_law [of q] obtain q' where
        "pop q = Some (Some x, q')" "invar q'" "contents q' = xs" by auto
      with Pop C Cons.prems Cons.IH [of q'] show ?thesis
        by (auto simp: case_prod_beta)
    qed
  qed
qed

text \<open>Pushing a batch and popping as many elements gives the batch back in order.\<close>

lemma list_run_pushes: "list_run (map Push xs @ ops) ys = list_run ops (ys @ xs)"
  by (induction xs arbitrary: ys) auto

lemma list_run_pops: "list_run (replicate (length ys) Pop) ys = (map Some ys, [])"
  by (induction ys) auto

lemma pushes_batch: "pushes (map Push xs @ replicate n Pop) = length xs"
proof -
  have "pushes (replicate n Pop) = 0" by (induction n) auto
  then show ?thesis by (induction xs) auto
qed

lemma batch_in_order:
  assumes "invar q" "contents q = []" "length xs < limit"
  shows "\<exists>q'. fifo_run push pop (map Push xs @ replicate (length xs) Pop) q
             = Some (map Some xs, q') \<and> contents q' = []"
  using run_refines [OF assms(1), of "map Push xs @ replicate (length xs) Pop"] assms
  by (auto simp: list_run_pushes list_run_pops pushes_batch)

end

end
