(* ===== verification/Reach_Spec.thy ===== *)
theory Reach_Spec
  imports Skynet_Prelude
begin

text \<open>
  Reachability in a step relation, and the contract of an invariant: it holds of
  the initial states and every step keeps it. The components that run
  concurrently instantiate it on their step relations.
\<close>

inductive reaches :: "('s \<Rightarrow> bool) \<Rightarrow> ('s \<Rightarrow> 's \<Rightarrow> bool) \<Rightarrow> 's \<Rightarrow> bool" for start step where
  reaches_start: "start s \<Longrightarrow> reaches start step s"
| reaches_step: "reaches start step s \<Longrightarrow> step s t \<Longrightarrow> reaches start step t"

locale invariant =
  fixes start :: "'s \<Rightarrow> bool" and step :: "'s \<Rightarrow> 's \<Rightarrow> bool" and inv :: "'s \<Rightarrow> bool"
  assumes inv_start: "start s \<Longrightarrow> inv s"
    and inv_step: "inv s \<Longrightarrow> step s t \<Longrightarrow> inv t"
begin

lemma inv_reaches: "reaches start step s \<Longrightarrow> inv s"
  by (induction rule: reaches.induct) (auto intro: inv_start inv_step)

end

end
