(* ===== verification/Message_Queue.thy ===== *)
theory Message_Queue
  imports Fifo_Spec Reach_Spec
begin

text \<open>
  The message queues of \<^verbatim>\<open>skynet-src/skynet_mq.c\<close>: one ring buffer of messages
  per service, and the global queue of the services that have work, a linked
  list threaded through the \<^verbatim>\<open>next\<close> fields of the queues themselves.

  A queue is a record \<open>message_queue\<close>; the queues live in a store from
  addresses, so that the aliasing between the global list and a queue a thread
  holds is in the model. Every C function runs under the queue's or the global
  queue's spin lock, so each is one atomic operation here.
\<close>

section \<open>Messages and queues\<close>

definition DEFAULT_QUEUE_SIZE :: int where
  "DEFAULT_QUEUE_SIZE = 64"

definition MQ_IN_GLOBAL :: int where
  "MQ_IN_GLOBAL = 1"

definition MQ_OVERLOAD :: int where
  "MQ_OVERLOAD = 1024"

record skynet_message =
  msg_source :: u32
  msg_session :: int
  msg_data :: addr
  msg_sz :: u64

record message_queue =
  mq_handle :: u32
  mq_cap :: int
  mq_head :: int
  mq_tail :: int
  mq_release :: int
  mq_in_global :: int
  mq_overload :: int
  mq_overload_threshold :: int
  mq_queue :: "skynet_message option list"
  mq_next :: "addr option"

record global_queue =
  gq_head :: "addr option"
  gq_tail :: "addr option"

section \<open>Operations on one queue\<close>

definition skynet_mq_create :: "u32 \<Rightarrow> message_queue" where
  "skynet_mq_create handle =
     \<lparr> mq_handle = handle, mq_cap = DEFAULT_QUEUE_SIZE, mq_head = 0, mq_tail = 0,
       mq_release = 0, mq_in_global = MQ_IN_GLOBAL, mq_overload = 0,
       mq_overload_threshold = MQ_OVERLOAD,
       mq_queue = replicate (nat DEFAULT_QUEUE_SIZE) None, mq_next = None \<rparr>"

definition skynet_mq_handle :: "message_queue \<Rightarrow> u32" where
  "skynet_mq_handle q = mq_handle q"

definition skynet_mq_length :: "message_queue \<Rightarrow> int" where
  "skynet_mq_length q =
     (if mq_head q \<le> mq_tail q then mq_tail q - mq_head q
      else mq_tail q + mq_cap q - mq_head q)"

definition skynet_mq_overload :: "message_queue \<Rightarrow> int \<times> message_queue" where
  "skynet_mq_overload q =
     (if mq_overload q \<noteq> 0 then (mq_overload q, q\<lparr>mq_overload := 0\<rparr>) else (0, q))"

text \<open>
  The \<^verbatim>\<open>while\<close> of \<^verbatim>\<open>skynet_mq_pop\<close>: the threshold doubles until it reaches the
  length. \<^term>\<open>None\<close> when it does not stop or the doubling overflows.
\<close>

partial_function (option) overload_loop :: "int \<Rightarrow> int \<Rightarrow> int \<Rightarrow> (int \<times> int) option" where
  "overload_loop len overload threshold =
     (if len > threshold
      then Option.bind (checked_double threshold) (overload_loop len len)
      else Some (overload, threshold))"

text \<open>The result is the C return value, the message written to \<^verbatim>\<open>*message\<close> if any, and the queue.\<close>

definition skynet_mq_pop ::
  "message_queue \<Rightarrow> (int \<times> skynet_message option \<times> message_queue) option" where
  "skynet_mq_pop q =
     (if mq_head q \<noteq> mq_tail q
      then do {
        message \<leftarrow> array_get (mq_queue q) (mq_head q);
        let head = (if mq_head q + 1 \<ge> mq_cap q then 0 else mq_head q + 1);
        let len = mq_tail q - head;
        let len = (if len < 0 then len + mq_cap q else len);
        (ov, th) \<leftarrow> overload_loop len (mq_overload q) (mq_overload_threshold q);
        Some (0, Some message,
              q\<lparr>mq_head := head, mq_overload := ov, mq_overload_threshold := th\<rparr>)
      }
      else Some (1, None, q\<lparr>mq_overload_threshold := MQ_OVERLOAD, mq_in_global := 0\<rparr>))"

definition expand_queue :: "message_queue \<Rightarrow> message_queue option" where
  "expand_queue q = do {
     cap2 \<leftarrow> checked_double (mq_cap q);
     Some (q\<lparr>mq_queue :=
               map (\<lambda>i. array_get (mq_queue q) ((mq_head q + int i) mod mq_cap q))
                 [0..<nat (mq_cap q)] @ replicate (nat (mq_cap q)) None,
             mq_head := 0, mq_tail := mq_cap q, mq_cap := cap2\<rparr>)
   }"

text \<open>The part of \<^verbatim>\<open>skynet_mq_push\<close> that stores the message.\<close>

definition mq_put :: "message_queue \<Rightarrow> skynet_message \<Rightarrow> message_queue option" where
  "mq_put q message = do {
     xs \<leftarrow> array_set (mq_queue q) (mq_tail q) message;
     let tail = (if mq_tail q + 1 \<ge> mq_cap q then 0 else mq_tail q + 1);
     let q = q\<lparr>mq_queue := xs, mq_tail := tail\<rparr>;
     if mq_head q = mq_tail q then expand_queue q else Some q
   }"

section \<open>The store and the global queue\<close>

record mq_store =
  mq_heap :: "addr \<rightharpoonup> message_queue"
  mq_Q :: global_queue

definition mq_update :: "addr \<Rightarrow> message_queue \<Rightarrow> mq_store \<Rightarrow> mq_store" where
  "mq_update p q st = st\<lparr>mq_heap := (mq_heap st)(p \<mapsto> q)\<rparr>"

definition skynet_mq_init :: mq_store where
  "skynet_mq_init = \<lparr>mq_heap = Map.empty, mq_Q = \<lparr>gq_head = None, gq_tail = None\<rparr>\<rparr>"

definition skynet_globalmq_push :: "addr \<Rightarrow> mq_store \<Rightarrow> mq_store option" where
  "skynet_globalmq_push p st = do {
     q \<leftarrow> mq_heap st p;
     if mq_next q \<noteq> None then None
     else case gq_tail (mq_Q st) of
       Some t \<Rightarrow> do {
         tq \<leftarrow> mq_heap st t;
         Some (mq_update t (tq\<lparr>mq_next := Some p\<rparr>) st\<lparr>mq_Q := (mq_Q st)\<lparr>gq_tail := Some p\<rparr>\<rparr>)
       }
     | None \<Rightarrow> Some (st\<lparr>mq_Q := \<lparr>gq_head = Some p, gq_tail = Some p\<rparr>\<rparr>)
   }"

definition skynet_globalmq_pop :: "mq_store \<Rightarrow> (addr option \<times> mq_store) option" where
  "skynet_globalmq_pop st =
     (case gq_head (mq_Q st) of
        None \<Rightarrow> Some (None, st)
      | Some p \<Rightarrow> do {
          q \<leftarrow> mq_heap st p;
          let gq = (mq_Q st)\<lparr>gq_head := mq_next q\<rparr>;
          gq \<leftarrow> (if mq_next q = None
                then (if gq_tail gq = Some p then Some (gq\<lparr>gq_tail := None\<rparr>) else None)
                else Some gq);
          Some (Some p, mq_update p (q\<lparr>mq_next := None\<rparr>) st\<lparr>mq_Q := gq\<rparr>)
        })"

definition skynet_mq_push :: "addr \<Rightarrow> skynet_message \<Rightarrow> mq_store \<Rightarrow> mq_store option" where
  "skynet_mq_push p message st = do {
     q \<leftarrow> mq_heap st p;
     q \<leftarrow> mq_put q message;
     if mq_in_global q = 0
     then skynet_globalmq_push p (mq_update p (q\<lparr>mq_in_global := MQ_IN_GLOBAL\<rparr>) st)
     else Some (mq_update p q st)
   }"

definition skynet_mq_mark_release :: "addr \<Rightarrow> mq_store \<Rightarrow> mq_store option" where
  "skynet_mq_mark_release p st = do {
     q \<leftarrow> mq_heap st p;
     if mq_release q \<noteq> 0 then None
     else let st = mq_update p (q\<lparr>mq_release := 1\<rparr>) st
          in if mq_in_global q \<noteq> MQ_IN_GLOBAL then skynet_globalmq_push p st else Some st
   }"

text \<open>
  \<^verbatim>\<open>_drop_queue\<close> pops every message, hands each to the drop function, and frees
  the queue. \<open>drain\<close> is its loop: it returns the messages in the order they are
  dropped; \<open>_release\<close> removes the queue from the store.
\<close>

partial_function (option) drain ::
  "message_queue \<Rightarrow> skynet_message list \<Rightarrow> (skynet_message list \<times> message_queue) option" where
  "drain q acc =
     Option.bind (skynet_mq_pop q)
       (\<lambda>(ret, m, q'). case m of
          None \<Rightarrow> Some (acc, q')
        | Some msg \<Rightarrow> drain q' (acc @ [msg]))"

definition mq_free :: "addr \<Rightarrow> mq_store \<Rightarrow> mq_store option" where
  "mq_free p st = do {
     q \<leftarrow> mq_heap st p;
     if mq_next q \<noteq> None then None else Some (st\<lparr>mq_heap := (mq_heap st)(p := None)\<rparr>)
   }"

definition drop_queue :: "addr \<Rightarrow> mq_store \<Rightarrow> (skynet_message list \<times> mq_store) option" where
  "drop_queue p st = do {
     q \<leftarrow> mq_heap st p;
     (msgs, q') \<leftarrow> drain q [];
     st' \<leftarrow> mq_free p (mq_update p q' st);
     Some (msgs, st')
   }"

definition skynet_mq_release :: "addr \<Rightarrow> mq_store \<Rightarrow> (skynet_message list \<times> mq_store) option" where
  "skynet_mq_release p st = do {
     q \<leftarrow> mq_heap st p;
     if mq_release q \<noteq> 0 then drop_queue p st
     else map_option (Pair []) (skynet_globalmq_push p st)
   }"

section \<open>The invariant and the contents of a queue\<close>

text \<open>
  The capacity starts at 64 and doubles, so it is one of the first twenty-five
  values \<open>64 * 2 ^ k\<close>: the next doubling overflows an \<^verbatim>\<open>int\<close>.
\<close>

definition mq_limit :: nat where
  "mq_limit = 2 ^ 30"

definition mq_shape :: "message_queue \<Rightarrow> bool" where
  "mq_shape q \<longleftrightarrow>
     (\<exists>k<25. mq_cap q = 64 * 2 ^ k) \<and>
     0 \<le> mq_head q \<and> mq_head q < mq_cap q \<and> 0 \<le> mq_tail q \<and> mq_tail q < mq_cap q \<and>
     int (length (mq_queue q)) = mq_cap q \<and> MQ_OVERLOAD \<le> mq_overload_threshold q"

definition mq_cell :: "message_queue \<Rightarrow> int \<Rightarrow> skynet_message option" where
  "mq_cell q i = array_get (mq_queue q) ((mq_head q + i) mod mq_cap q)"

definition mq_inv :: "message_queue \<Rightarrow> bool" where
  "mq_inv q \<longleftrightarrow> mq_shape q \<and> (\<forall>i \<in> set [0..<nat (skynet_mq_length q)]. mq_cell q (int i) \<noteq> None)"

definition mq_contents :: "message_queue \<Rightarrow> skynet_message list" where
  "mq_contents q = map (\<lambda>i. the (mq_cell q (int i))) [0..<nat (skynet_mq_length q)]"

text \<open>\<open>mq_rep q xs\<close>: the live cells of the ring hold exactly \<open>xs\<close>.\<close>

definition mq_rep :: "message_queue \<Rightarrow> skynet_message list \<Rightarrow> bool" where
  "mq_rep q xs \<longleftrightarrow> mq_shape q \<and> int (length xs) < mq_cap q \<and>
     mq_tail q = (mq_head q + int (length xs)) mod mq_cap q \<and>
     (\<forall>i < length xs. mq_cell q (int i) = Some (xs ! i))"

lemma mq_caps_cases:
  assumes "\<exists>k<25. c = 64 * 2 ^ k"
  shows "(64::int) \<le> c" and "c \<le> 2 ^ 30"
    and "c < 2 ^ 30 \<Longrightarrow> \<exists>k<25. c * 2 = 64 * 2 ^ k"
proof -
  from assms obtain k where k: "k < 25" "c = 64 * 2 ^ k" by auto
  show "64 \<le> c" using k by simp
  have "(2::int) ^ k \<le> 2 ^ 24" using k by (intro power_increasing) auto
  then show "c \<le> 2 ^ 30" using k by simp
  assume "c < 2 ^ 30"
  with k have "k \<noteq> 24" by auto
  with k show "\<exists>k<25. c * 2 = 64 * 2 ^ k"
    by (intro exI [of _ "Suc k"]) auto
qed

lemma mq_shapeD:
  assumes "mq_shape q"
  shows "64 \<le> mq_cap q" "mq_cap q \<le> 2 ^ 30" "0 \<le> mq_head q" "mq_head q < mq_cap q"
    "0 \<le> mq_tail q" "mq_tail q < mq_cap q" "length (mq_queue q) = nat (mq_cap q)"
    "1024 \<le> mq_overload_threshold q"
  using assms mq_caps_cases [of "mq_cap q"] by (auto simp: mq_shape_def MQ_OVERLOAD_def)

lemma mq_rep_length:
  assumes "mq_rep q xs"
  shows "skynet_mq_length q = int (length xs)"
proof -
  from assms have sh: "mq_shape q" and n: "int (length xs) < mq_cap q"
    and t: "mq_tail q = (mq_head q + int (length xs)) mod mq_cap q"
    by (auto simp: mq_rep_def)
  from mq_shapeD [OF sh] n have "mq_tail q = (if mq_head q + int (length xs) < mq_cap q
      then mq_head q + int (length xs) else mq_head q + int (length xs) - mq_cap q)"
    unfolding t by (intro mod_add_wrap) auto
  with n mq_shapeD [OF sh] show ?thesis
    by (auto simp: skynet_mq_length_def split: if_splits)
qed

lemma mq_rep_contents:
  assumes "mq_rep q xs"
  shows "mq_inv q \<and> mq_contents q = xs"
  using assms mq_rep_length [OF assms]
  by (auto simp: mq_inv_def mq_contents_def mq_rep_def intro!: nth_equalityI)

lemma mq_inv_rep:
  assumes "mq_inv q"
  shows "mq_rep q (mq_contents q)"
proof -
  from assms have sh: "mq_shape q" by (simp add: mq_inv_def)
  note b = mq_shapeD [OF sh]
  have len: "length (mq_contents q) = nat (skynet_mq_length q)"
    by (simp add: mq_contents_def)
  have pos: "0 \<le> skynet_mq_length q" "skynet_mq_length q < mq_cap q"
    using b by (auto simp: skynet_mq_length_def)
  have tail: "mq_tail q = (mq_head q + skynet_mq_length q) mod mq_cap q"
    using mod_add_wrap [of "mq_head q" "mq_cap q" "skynet_mq_length q"] b pos
    by (auto simp: skynet_mq_length_def split: if_splits)
  have cells: "mq_cell q (int i) = Some (mq_contents q ! i)" if "i < length (mq_contents q)" for i
    using assms that by (auto simp: mq_inv_def mq_contents_def)
  show ?thesis
    unfolding mq_rep_def using sh len pos tail cells by simp
qed

lemma mq_rep_empty: "mq_rep q xs \<Longrightarrow> mq_head q = mq_tail q \<longleftrightarrow> xs = []"
  using mq_rep_length [of q xs] mq_shapeD [of q]
  by (auto simp: mq_rep_def skynet_mq_length_def split: if_splits)

section \<open>Every operation keeps the invariant and does what a list would\<close>

text \<open>The fields that storing and taking messages leaves alone.\<close>

definition mq_same :: "message_queue \<Rightarrow> message_queue \<Rightarrow> bool" where
  "mq_same q q' \<longleftrightarrow> mq_handle q' = mq_handle q \<and> mq_release q' = mq_release q \<and>
     mq_in_global q' = mq_in_global q \<and> mq_next q' = mq_next q"

lemma mq_create_rep: "mq_rep (skynet_mq_create h) []"
  by (auto simp: mq_rep_def mq_shape_def skynet_mq_create_def DEFAULT_QUEUE_SIZE_def
      intro: exI [of _ 0])

text \<open>
  The loop ends, and it does what its condition says: the overload mark is set to
  the length exactly when the length exceeds the threshold, and the threshold
  becomes the first of its doublings that covers the length.
\<close>

lemma overload_loop_returns:
  assumes "0 < th" "n \<le> 2 ^ 30"
  shows "\<exists>k. overload_loop n ov th = Some (if th < n then n else ov, th * 2 ^ k)
           \<and> n \<le> th * 2 ^ k \<and> (k = 0 \<or> th * 2 ^ (k - 1) < n)"
  using assms
proof (induction "nat (n - th)" arbitrary: ov th rule: less_induct)
  case less
  show ?case
  proof (cases "n > th")
    case True
    with less.prems have dbl: "checked_double th = Some (th * 2)"
      by (intro checked_double_Some) (auto simp: INT_MAX_def)
    have "nat (n - th * 2) < nat (n - th)" using True less.prems by auto
    with less.prems less.hyps [of "th * 2" n] obtain k where
      k: "overload_loop n n (th * 2) = Some (n, th * 2 * 2 ^ k)" "n \<le> th * 2 * 2 ^ k"
        "k = 0 \<or> th * 2 * 2 ^ (k - 1) < n"
      by (auto split: if_splits)
    have "th * 2 ^ (Suc k - 1) < n" using k(3) True by (cases k) (auto simp: ac_simps)
    with k dbl True show ?thesis
      by (intro exI [of _ "Suc k"]) (subst overload_loop.simps, simp add: ac_simps)
  next
    case False
    then show ?thesis by (intro exI [of _ 0]) (subst overload_loop.simps, simp)
  qed
qed

lemma expand_queue_rep:
  assumes inv: "mq_shape q" and full: "mq_head q = mq_tail q" and n: "int (length xs) = mq_cap q"
    and cells: "\<forall>i < length xs. mq_cell q (int i) = Some (xs ! i)" and room: "mq_cap q < 2 ^ 30"
  shows "\<exists>q'. expand_queue q = Some q' \<and> mq_rep q' xs \<and> mq_head q' = 0
           \<and> mq_same q q'"
proof -
  note b = mq_shapeD [OF inv]
  have dbl: "checked_double (mq_cap q) = Some (mq_cap q * 2)"
    using b room by (intro checked_double_Some) (auto simp: INT_MAX_def)
  have caps: "\<exists>k<25. mq_cap q * 2 = 64 * 2 ^ k"
    using inv room by (intro mq_caps_cases(3)) (auto simp: mq_shape_def)
  let ?ys = "map (\<lambda>i. mq_cell q (int i)) [0..<nat (mq_cap q)] @ replicate (nat (mq_cap q)) None"
  let ?q = "q\<lparr>mq_queue := ?ys, mq_head := 0, mq_tail := mq_cap q, mq_cap := mq_cap q * 2\<rparr>"
  have "expand_queue q = Some ?q"
    by (simp add: expand_queue_def dbl mq_cell_def)
  moreover have "mq_cell ?q (int i) = Some (xs ! i)" if "i < length xs" for i
    using that n cells b by (auto simp: mq_cell_def array_get_def nth_append)
  moreover have "mq_shape ?q"
    using caps b by (auto simp: mq_shape_def MQ_OVERLOAD_def)
  ultimately show ?thesis
    using b n by (intro exI [of _ ?q]) (auto simp: mq_rep_def mq_same_def)
qed

lemma mq_put_rep:
  assumes r: "mq_rep q xs" and room: "length xs + 1 < mq_limit"
  shows "\<exists>q'. mq_put q m = Some q' \<and> mq_rep q' (xs @ [m])
           \<and> mq_same q q'"
proof -
  from r have sh: "mq_shape q" and n: "int (length xs) < mq_cap q"
    and t: "mq_tail q = (mq_head q + int (length xs)) mod mq_cap q"
    and cells: "\<forall>i < length xs. mq_cell q (int i) = Some (xs ! i)"
    by (auto simp: mq_rep_def)
  note b = mq_shapeD [OF sh]
  define tail' where "tail' = (if mq_tail q + 1 \<ge> mq_cap q then 0 else mq_tail q + 1)"
  define q1 where "q1 = q\<lparr>mq_queue := (mq_queue q)[nat (mq_tail q) := Some m], mq_tail := tail'\<rparr>"
  have tail': "tail' = (mq_head q + int (length (xs @ [m]))) mod mq_cap q"
  proof -
    have "(mq_head q + int (length (xs @ [m]))) mod mq_cap q = (mq_tail q + 1) mod mq_cap q"
      unfolding t by (simp add: mod_simps ac_simps)
    also have "\<dots> = tail'" using b by (auto simp: tail'_def mod_add_wrap)
    finally show ?thesis by simp
  qed
  have sh1: "mq_shape q1" using sh b by (auto simp: q1_def tail'_def mq_shape_def)
  have cells1: "mq_cell q1 (int i) = Some ((xs @ [m]) ! i)" if "i < length (xs @ [m])" for i
  proof (cases "i = length xs")
    case True
    with b t show ?thesis
      by (auto simp: q1_def mq_cell_def array_get_update)
  next
    case False
    with that have i: "i < length xs" by simp
    have "(mq_head q + int i) mod mq_cap q \<noteq> mq_tail q"
      unfolding t using mod_add_inj [of "mq_cap q" "int i" "int (length xs)" "mq_head q"] i n b by auto
    moreover have "0 \<le> (mq_head q + int i) mod mq_cap q" using b by simp
    ultimately have "nat (mq_tail q) \<noteq> nat ((mq_head q + int i) mod mq_cap q)"
      using b(5) by (metis eq_nat_nat_iff)
    with i cells show ?thesis
      by (auto simp: q1_def mq_cell_def array_get_update nth_append)
  qed
  have put: "mq_put q m = (if mq_head q1 = mq_tail q1 then expand_queue q1 else Some q1)"
    using b by (simp add: mq_put_def q1_def tail'_def Let_def)
  have sel: "mq_head q1 = mq_head q" "mq_cap q1 = mq_cap q" "mq_tail q1 = tail'"
    by (auto simp: q1_def)
  show ?thesis
  proof (cases "int (length (xs @ [m])) = mq_cap q")
    case True
    then have "mq_head q1 = mq_tail q1" using tail' b by (simp add: sel)
    moreover have "mq_cap q1 < 2 ^ 30" using True room by (simp add: sel mq_limit_def)
    ultimately obtain q' where "expand_queue q1 = Some q'" "mq_rep q' (xs @ [m])"
      "mq_same q1 q'"
      using expand_queue_rep [OF sh1, of "xs @ [m]"] True cells1 by (auto simp: sel)
    with put \<open>mq_head q1 = mq_tail q1\<close> show ?thesis by (auto simp: q1_def mq_same_def)
  next
    case False
    with n have lt: "int (length (xs @ [m])) < mq_cap q" by simp
    then have rep1: "mq_rep q1 (xs @ [m])"
      using sh1 tail' cells1 by (auto simp: mq_rep_def sel simp del: length_append)
    then have "mq_head q1 \<noteq> mq_tail q1" by (simp add: mq_rep_empty)
    with put rep1 show ?thesis by (auto simp: q1_def mq_same_def)
  qed
qed

lemma mq_pop_empty_rep:
  assumes "mq_rep q []"
  shows "skynet_mq_pop q = Some (1, None, q\<lparr>mq_overload_threshold := MQ_OVERLOAD, mq_in_global := 0\<rparr>)"
    and "mq_rep (q\<lparr>mq_overload_threshold := MQ_OVERLOAD, mq_in_global := 0\<rparr>) []"
  using assms mq_rep_empty [OF assms]
  by (auto simp: skynet_mq_pop_def mq_rep_def mq_shape_def)

lemma mq_pop_cons_rep:
  assumes r: "mq_rep q (x # xs)"
  shows "\<exists>q'. skynet_mq_pop q = Some (0, Some x, q') \<and> mq_rep q' xs
           \<and> mq_overload q' = (if mq_overload_threshold q < int (length xs) then int (length xs)
                              else mq_overload q)
           \<and> (\<exists>k. mq_overload_threshold q' = mq_overload_threshold q * 2 ^ k
                \<and> int (length xs) \<le> mq_overload_threshold q'
                \<and> (k = 0 \<or> mq_overload_threshold q * 2 ^ (k - 1) < int (length xs)))
           \<and> mq_same q q'"
proof -
  from r have sh: "mq_shape q" and n: "int (length xs) + 1 < mq_cap q"
    and t: "mq_tail q = (mq_head q + (int (length xs) + 1)) mod mq_cap q"
    and cells: "\<And>i. i < length (x # xs) \<Longrightarrow> mq_cell q (int i) = Some ((x # xs) ! i)"
    by (auto simp: mq_rep_def ac_simps)
  note b = mq_shapeD [OF sh]
  have ne: "mq_head q \<noteq> mq_tail q" using mq_rep_empty [OF r] by simp
  have get: "array_get (mq_queue q) (mq_head q) = Some x"
    using cells [of 0] b by (simp add: mq_cell_def)
  define head' where "head' = (if mq_head q + 1 \<ge> mq_cap q then 0 else mq_head q + 1)"
  have head': "head' = (mq_head q + 1) mod mq_cap q" "0 \<le> head'" "head' < mq_cap q"
    using b by (auto simp: head'_def mod_add_wrap)
  have t': "mq_tail q = (head' + int (length xs)) mod mq_cap q"
    unfolding t head'(1) by (simp add: mod_simps ac_simps)
  define len where "len = (if mq_tail q - head' < 0 then mq_tail q - head' + mq_cap q else mq_tail q - head')"
  have len: "len = int (length xs)"
    using t' mod_add_wrap [of head' "mq_cap q" "int (length xs)"] head' n
    by (auto simp: len_def split: if_splits)
  have "len \<le> 2 ^ 30" using len n b by simp
  moreover have "0 < mq_overload_threshold q" using b by simp
  ultimately obtain k where loop: "overload_loop len (mq_overload q) (mq_overload_threshold q)
      = Some (if mq_overload_threshold q < len then len else mq_overload q, mq_overload_threshold q * 2 ^ k)"
    "len \<le> mq_overload_threshold q * 2 ^ k" "k = 0 \<or> mq_overload_threshold q * 2 ^ (k - 1) < len"
    using overload_loop_returns by blast
  define ov th where "ov = (if mq_overload_threshold q < len then len else mq_overload q)"
    and "th = mq_overload_threshold q * 2 ^ k"
  have "(1 :: int) \<le> 2 ^ k" by simp
  with b(8) have "mq_overload_threshold q * 1 \<le> th" unfolding th_def by (intro mult_left_mono) auto
  then have le: "mq_overload_threshold q \<le> th" by simp
  let ?q = "q\<lparr>mq_head := head', mq_overload := ov, mq_overload_threshold := th\<rparr>"
  have "skynet_mq_pop q = Some (0, Some x, ?q)"
    using ne get loop(1) unfolding ov_def [symmetric] th_def [symmetric]
    by (auto simp: skynet_mq_pop_def head'_def len_def Let_def split: if_splits)
  moreover have "mq_cell ?q (int i) = Some (xs ! i)" if "i < length xs" for i
    using cells [of "Suc i"] that by (simp add: mq_cell_def head'(1) mod_simps ac_simps)
  moreover have "mq_shape ?q" using sh head' le by (auto simp: mq_shape_def)
  moreover have "\<exists>k. th = mq_overload_threshold q * 2 ^ k \<and> int (length xs) \<le> th
      \<and> (k = 0 \<or> mq_overload_threshold q * 2 ^ (k - 1) < int (length xs))"
    using loop(2,3) len by (intro exI [of _ k]) (simp add: th_def)
  ultimately show ?thesis
    using n t' len by (intro exI [of _ ?q]) (simp add: mq_rep_def mq_same_def ov_def)
qed

text \<open>The ring buffer is a first-in first-out queue of up to \<^term>\<open>mq_limit\<close> messages.\<close>

definition mq_take :: "message_queue \<Rightarrow> (skynet_message option \<times> message_queue) option" where
  "mq_take q = map_option snd (skynet_mq_pop q)"

interpretation mqf: fifo mq_put mq_take mq_contents mq_inv mq_limit
proof unfold_locales
  fix q x
  assume "mq_inv q" and "length (mq_contents q) + 1 < mq_limit"
  then show "\<exists>q'. mq_put q x = Some q' \<and> mq_inv q' \<and> mq_contents q' = mq_contents q @ [x]"
    using mq_put_rep [OF mq_inv_rep] mq_rep_contents by blast
next
  fix q
  assume "mq_inv q" and "mq_contents q = []"
  then have "mq_rep q []" using mq_inv_rep by metis
  from mq_pop_empty_rep [OF this] show
    "\<exists>q'. mq_take q = Some (None, q') \<and> mq_inv q' \<and> mq_contents q' = []"
    using mq_rep_contents by (auto simp: mq_take_def)
next
  fix q x xs
  assume "mq_inv q" and "mq_contents q = x # xs"
  then have "mq_rep q (x # xs)" using mq_inv_rep by metis
  from mq_pop_cons_rep [OF this] show
    "\<exists>q'. mq_take q = Some (Some x, q') \<and> mq_inv q' \<and> mq_contents q' = xs"
    using mq_rep_contents by (auto simp: mq_take_def)
qed

section \<open>The global queue is a list of queues\<close>

fun gq_chain :: "(addr \<rightharpoonup> message_queue) \<Rightarrow> addr option \<Rightarrow> addr list \<Rightarrow> bool" where
  "gq_chain h p [] \<longleftrightarrow> p = None"
| "gq_chain h p (a # as) \<longleftrightarrow>
     p = Some a \<and> (case h a of None \<Rightarrow> False | Some q \<Rightarrow> gq_chain h (mq_next q) as)"

definition gq_inv :: "mq_store \<Rightarrow> addr list \<Rightarrow> bool" where
  "gq_inv st xs \<longleftrightarrow>
     gq_chain (mq_heap st) (gq_head (mq_Q st)) xs \<and> distinct xs \<and>
     gq_tail (mq_Q st) = (if xs = [] then None else Some (last xs)) \<and>
     (\<forall>p q. mq_heap st p = Some q \<and> p \<notin> set xs \<longrightarrow> mq_next q = None)"

text \<open>The store without the links of the global list: what the list operations leave alone.\<close>

definition mq_erase :: "mq_store \<Rightarrow> addr \<rightharpoonup> message_queue" where
  "mq_erase st p = map_option (\<lambda>q. q\<lparr>mq_next := None\<rparr>) (mq_heap st p)"

lemma gq_chain_dom: "gq_chain h p xs \<Longrightarrow> set xs \<subseteq> dom h"
  by (induction xs arbitrary: p) (auto split: option.splits)

lemma gq_chain_frame:
  "(\<And>a. a \<in> set xs \<Longrightarrow> map_option mq_next (h' a) = map_option mq_next (h a)) \<Longrightarrow>
     gq_chain h' p xs = gq_chain h p xs"
proof (induction xs arbitrary: p)
  case (Cons a xs)
  from Cons.prems [of a] Cons.IH Cons.prems show ?case
    by (cases "h a"; cases "h' a") auto
qed simp

lemma gq_chain_last:
  "gq_chain h p xs \<Longrightarrow> xs \<noteq> [] \<Longrightarrow> \<exists>q. h (last xs) = Some q \<and> mq_next q = None"
  by (induction xs arbitrary: p) (auto split: option.splits)

lemma gq_chain_snoc:
  assumes "gq_chain h p xs" "xs \<noteq> []" "distinct xs" "a \<notin> set xs"
    and "h (last xs) = Some tq" "h a = Some qa" "mq_next qa = None"
  shows "gq_chain (h(last xs \<mapsto> tq\<lparr>mq_next := Some a\<rparr>)) p (xs @ [a])"
  using assms
proof (induction xs arbitrary: p)
  case (Cons b xs)
  show ?case
  proof (cases "xs = []")
    case True
    with Cons.prems show ?thesis by auto
  next
    case False
    with Cons.prems have "last xs \<noteq> b" by auto
    with False Cons.prems Cons.IH show ?thesis by (auto split: option.splits)
  qed
qed simp

lemma globalmq_push_list:
  assumes inv: "gq_inv st xs" and p: "p \<in> dom (mq_heap st)" and fresh: "p \<notin> set xs"
  shows "\<exists>st'. skynet_globalmq_push p st = Some st' \<and> gq_inv st' (xs @ [p]) \<and> mq_erase st' = mq_erase st"
proof -
  from p obtain q where q: "mq_heap st p = Some q" by auto
  with inv fresh have nx: "mq_next q = None" by (auto simp: gq_inv_def)
  show ?thesis
  proof (cases "xs = []")
    case True
    with inv q nx show ?thesis
      by (auto simp: skynet_globalmq_push_def gq_inv_def mq_erase_def)
  next
    case False
    from inv have ch: "gq_chain (mq_heap st) (gq_head (mq_Q st)) xs" and d: "distinct xs"
      by (auto simp: gq_inv_def)
    from gq_chain_last [OF ch False] obtain tq where
      tq: "mq_heap st (last xs) = Some tq" "mq_next tq = None" by auto
    let ?st = "mq_update (last xs) (tq\<lparr>mq_next := Some p\<rparr>) st\<lparr>mq_Q := (mq_Q st)\<lparr>gq_tail := Some p\<rparr>\<rparr>"
    have push: "skynet_globalmq_push p st = Some ?st"
      using q nx inv False tq by (simp add: skynet_globalmq_push_def gq_inv_def)
    have "gq_inv ?st (xs @ [p])"
      using gq_chain_snoc [OF ch False d fresh tq(1) q nx] inv d fresh False
      by (auto simp: gq_inv_def mq_update_def)
    moreover have "mq_erase ?st = mq_erase st"
      using tq by (auto simp: mq_erase_def mq_update_def fun_eq_iff)
    ultimately show ?thesis using push by blast
  qed
qed

lemma globalmq_pop_empty:
  "gq_inv st [] \<Longrightarrow> skynet_globalmq_pop st = Some (None, st)"
  by (auto simp: skynet_globalmq_pop_def gq_inv_def)

lemma globalmq_pop_list:
  assumes inv: "gq_inv st (p # xs)"
  shows "\<exists>st'. skynet_globalmq_pop st = Some (Some p, st') \<and> gq_inv st' xs \<and> mq_erase st' = mq_erase st"
proof -
  from inv obtain q where q: "mq_heap st p = Some q" "gq_chain (mq_heap st) (mq_next q) xs"
    and hd: "gq_head (mq_Q st) = Some p" and d: "p \<notin> set xs" "distinct xs"
    and tl: "gq_tail (mq_Q st) = Some (last (p # xs))"
    and out: "\<And>a b. mq_heap st a = Some b \<Longrightarrow> a \<notin> set (p # xs) \<Longrightarrow> mq_next b = None"
    by (auto simp: gq_inv_def split: option.splits)
  have nil: "mq_next q = None \<longleftrightarrow> xs = []" using q(2) by (cases xs) auto
  define gq where "gq = (if xs = [] then (mq_Q st)\<lparr>gq_head := None, gq_tail := None\<rparr>
    else (mq_Q st)\<lparr>gq_head := mq_next q\<rparr>)"
  let ?st = "mq_update p (q\<lparr>mq_next := None\<rparr>) st\<lparr>mq_Q := gq\<rparr>"
  have pop: "skynet_globalmq_pop st = Some (Some p, ?st)"
    using q hd tl nil by (auto simp: skynet_globalmq_pop_def Let_def gq_def)
  have ch: "gq_chain ((mq_heap st)(p \<mapsto> q\<lparr>mq_next := None\<rparr>)) (mq_next q) xs"
    by (subst gq_chain_frame [where h = "mq_heap st"]) (use d q in auto)
  have "gq_inv ?st xs"
    using ch d tl nil out by (auto simp: gq_inv_def gq_def mq_update_def split: if_splits)
  moreover have "mq_erase ?st = mq_erase st"
    using q by (auto simp: mq_erase_def mq_update_def fun_eq_iff)
  ultimately show ?thesis using pop by blast
qed

section \<open>Who owns a queue\<close>

text \<open>
  A queue is owned when it is in the global list or a thread holds it (a worker
  that popped it, or the thread that created it). \<open>mq_node_ok\<close> says what the flags
  of an owned or a free queue are: \<^verbatim>\<open>in_global\<close> is exactly the ownership while the
  queue is not marked for release; a queue with messages and a queue marked for
  release are never free, so no message is forgotten and every released queue is
  eventually dropped by the worker that meets it.
\<close>

definition mq_node_ok :: "bool \<Rightarrow> message_queue \<Rightarrow> bool" where
  "mq_node_ok owned q \<longleftrightarrow> mq_inv q \<and>
     (if mq_release q = 0 then mq_in_global q = (if owned then MQ_IN_GLOBAL else 0) else owned) \<and>
     (mq_contents q \<noteq> [] \<longrightarrow> owned)"

definition mq_ok :: "mq_store \<Rightarrow> addr list \<Rightarrow> addr set \<Rightarrow> bool" where
  "mq_ok st xs held \<longleftrightarrow> gq_inv st xs \<and> held \<subseteq> dom (mq_heap st) \<and> set xs \<inter> held = {} \<and>
     (\<forall>p q. mq_erase st p = Some q \<longrightarrow> mq_node_ok (p \<in> set xs \<union> held) q)"

lemma mq_next_irrelevant [simp]:
  "mq_inv (q\<lparr>mq_next := n\<rparr>) = mq_inv q" "mq_contents (q\<lparr>mq_next := n\<rparr>) = mq_contents q"
  "mq_node_ok b (q\<lparr>mq_next := n\<rparr>) = mq_node_ok b q"
proof -
  show 1: "mq_inv (q\<lparr>mq_next := n\<rparr>) = mq_inv q" and 2: "mq_contents (q\<lparr>mq_next := n\<rparr>) = mq_contents q"
    by (simp_all add: mq_inv_def mq_contents_def mq_cell_def mq_shape_def skynet_mq_length_def)
  show "mq_node_ok b (q\<lparr>mq_next := n\<rparr>) = mq_node_ok b q" by (simp add: mq_node_ok_def 1 2)
qed

lemma mq_flags_irrelevant [simp]:
  "mq_rep (q\<lparr>mq_in_global := g\<rparr>) xs = mq_rep q xs" "mq_rep (q\<lparr>mq_release := r\<rparr>) xs = mq_rep q xs"
  by (simp_all add: mq_rep_def mq_cell_def mq_shape_def)

lemma mq_node_okI:
  assumes "mq_rep q xs" "mq_release q = 0 \<Longrightarrow> mq_in_global q = (if owned then MQ_IN_GLOBAL else 0)"
    "mq_release q \<noteq> 0 \<Longrightarrow> owned" "xs \<noteq> [] \<Longrightarrow> owned"
  shows "mq_node_ok owned q"
  using assms mq_rep_contents [OF assms(1)] by (auto simp: mq_node_ok_def)

lemma mq_update_sel [simp]:
  "mq_heap (mq_update p q st) = (mq_heap st)(p \<mapsto> q)" "mq_Q (mq_update p q st) = mq_Q st"
  by (simp_all add: mq_update_def)

lemma mq_erase_update [simp]:
  "mq_erase (mq_update p q st) = (mq_erase st)(p \<mapsto> q\<lparr>mq_next := None\<rparr>)"
  by (auto simp: mq_erase_def mq_update_def)

lemma dom_mq_erase [simp]: "dom (mq_erase st) = dom (mq_heap st)"
  by (auto simp: mq_erase_def)

lemma gq_inv_update:
  assumes "gq_inv st xs" "mq_heap st p = Some q" "mq_next q' = mq_next q"
  shows "gq_inv (mq_update p q' st) xs"
proof -
  have "gq_chain ((mq_heap st)(p \<mapsto> q')) h xs = gq_chain (mq_heap st) h xs" for h
    by (rule gq_chain_frame) (use assms in auto)
  with assms show ?thesis by (auto simp: gq_inv_def mq_update_def)
qed

lemma mq_ok_node:
  assumes "mq_ok st xs held" "mq_heap st p = Some q"
  shows "mq_node_ok (p \<in> set xs \<union> held) q"
proof -
  have "mq_erase st p = Some (q\<lparr>mq_next := None\<rparr>)" using assms(2) by (simp add: mq_erase_def)
  with assms(1) have "mq_node_ok (p \<in> set xs \<union> held) (q\<lparr>mq_next := None\<rparr>)"
    unfolding mq_ok_def by blast
  then show ?thesis by simp
qed

lemma mq_ok_update:
  assumes ok: "mq_ok st xs held" and p: "mq_heap st p = Some q" and "mq_next q' = mq_next q"
    and node: "mq_node_ok (p \<in> set xs \<union> held') q'"
    and held': "held' = held \<or> held' = held - {p}"
  shows "mq_ok (mq_update p q' st) xs held'"
  using assms gq_inv_update [of st xs p q q']
  by (auto simp: mq_ok_def split: if_splits)

lemma mq_ok_create:
  assumes ok: "mq_ok st xs held" and p: "mq_heap st p = None"
  shows "mq_ok (mq_update p (skynet_mq_create h) st) xs (insert p held)"
proof -
  have p_xs: "p \<notin> set xs" using ok p gq_chain_dom by (fastforce simp: mq_ok_def gq_inv_def)
  have "gq_chain ((mq_heap st)(p \<mapsto> skynet_mq_create h)) hd xs = gq_chain (mq_heap st) hd xs" for hd
    by (rule gq_chain_frame) (use p_xs in auto)
  with ok have "gq_inv (mq_update p (skynet_mq_create h) st) xs"
    by (auto simp: mq_ok_def gq_inv_def skynet_mq_create_def)
  moreover have "mq_node_ok True (skynet_mq_create h)"
    by (rule mq_node_okI [OF mq_create_rep]) (simp_all add: skynet_mq_create_def)
  ultimately show ?thesis using ok p_xs by (auto simp: mq_ok_def)
qed

lemma mq_ok_globalmq_push:
  assumes ok: "mq_ok st xs held" and p: "p \<in> held"
  shows "\<exists>st'. skynet_globalmq_push p st = Some st' \<and> mq_ok st' (xs @ [p]) (held - {p})"
proof -
  from ok p have "gq_inv st xs" "p \<in> dom (mq_heap st)" "p \<notin> set xs" by (auto simp: mq_ok_def)
  from globalmq_push_list [OF this] obtain st' where
    st': "skynet_globalmq_push p st = Some st'" "gq_inv st' (xs @ [p])" "mq_erase st' = mq_erase st"
    by blast
  moreover have "dom (mq_heap st') = dom (mq_heap st)" using st'(3) by (metis dom_mq_erase)
  moreover have "set (xs @ [p]) \<union> (held - {p}) = set xs \<union> held" using p by auto
  ultimately show ?thesis using ok p unfolding mq_ok_def by (intro exI [of _ st']) auto
qed

lemma mq_ok_globalmq_pop:
  assumes ok: "mq_ok st (p # xs) held"
  shows "\<exists>st'. skynet_globalmq_pop st = Some (Some p, st') \<and> mq_ok st' xs (insert p held)"
proof -
  from ok have "gq_inv st (p # xs)" by (simp add: mq_ok_def)
  from globalmq_pop_list [OF this] obtain st' where
    st': "skynet_globalmq_pop st = Some (Some p, st')" "gq_inv st' xs" "mq_erase st' = mq_erase st"
    by blast
  moreover have "dom (mq_heap st') = dom (mq_heap st)" using st'(3) by (metis dom_mq_erase)
  moreover have "p \<in> dom (mq_heap st)" "p \<notin> set xs"
    using ok gq_chain_dom [of "mq_heap st" _ "p # xs"] by (auto simp: mq_ok_def gq_inv_def)
  ultimately show ?thesis using ok unfolding mq_ok_def by (intro exI [of _ st']) auto
qed

lemma mq_ok_rep:
  assumes "mq_ok st xs held" "mq_heap st p = Some q"
  shows "mq_rep q (mq_contents q)"
  using mq_ok_node [OF assms] by (simp add: mq_node_ok_def mq_inv_rep)

lemma mq_ok_push:
  assumes ok: "mq_ok st xs held" and p: "mq_heap st p = Some q" and live: "mq_release q = 0"
    and room: "length (mq_contents q) + 1 < mq_limit"
  shows "\<exists>st' q'. skynet_mq_push p m st = Some st'
           \<and> mq_ok st' (if p \<in> set xs \<union> held then xs else xs @ [p]) held
           \<and> mq_heap st' p = Some q' \<and> mq_contents q' = mq_contents q @ [m]"
proof -
  from mq_put_rep [OF mq_ok_rep [OF ok p] room] obtain q1 where
    put: "mq_put q m = Some q1" "mq_rep q1 (mq_contents q @ [m])"
    and sel: "mq_release q1 = mq_release q" "mq_in_global q1 = mq_in_global q" "mq_next q1 = mq_next q"
    by (auto simp: mq_same_def)
  have own: "mq_in_global q = (if p \<in> set xs \<union> held then MQ_IN_GLOBAL else 0)"
    using mq_ok_node [OF ok p] live by (auto simp: mq_node_ok_def)
  show ?thesis
  proof (cases "p \<in> set xs \<union> held")
    case True
    then have "mq_ok (mq_update p q1 st) xs held"
      using put sel own live by (intro mq_ok_update [OF ok p] mq_node_okI) auto
    then show ?thesis
      using True put p own sel mq_rep_contents [OF put(2)]
      by (auto simp: skynet_mq_push_def MQ_IN_GLOBAL_def)
  next
    case False
    let ?q = "q1\<lparr>mq_in_global := MQ_IN_GLOBAL\<rparr>"
    let ?st = "mq_update p ?q st"
    have node: "mq_node_ok True ?q"
      using put sel live by (intro mq_node_okI [of _ "mq_contents q @ [m]"]) auto
    have "mq_ok ?st xs (insert p held)"
      using ok p False node gq_inv_update [of st xs p q ?q] sel
      by (auto simp: mq_ok_def split: if_splits)
    then obtain st' where st': "skynet_globalmq_push p ?st = Some st'" "mq_ok st' (xs @ [p]) (insert p held - {p})"
      using mq_ok_globalmq_push by (metis insertI1)
    moreover have "insert p held - {p} = held" using False by auto
    moreover have "\<exists>q'. mq_heap st' p = Some q' \<and> mq_contents q' = mq_contents q @ [m]"
    proof -
      have "gq_inv ?st xs" using gq_inv_update [of st xs p q ?q] ok p sel by (auto simp: mq_ok_def)
      then have "mq_erase st' = mq_erase ?st"
        using globalmq_push_list [of ?st xs p] st'(1) False by auto
      then have "mq_erase st' p = Some (?q\<lparr>mq_next := None\<rparr>)" by simp
      then obtain q' where "mq_heap st' p = Some q'" "q'\<lparr>mq_next := None\<rparr> = ?q\<lparr>mq_next := None\<rparr>"
        by (auto simp: mq_erase_def)
      moreover have "mq_contents (?q\<lparr>mq_next := None\<rparr>) = mq_contents q @ [m]"
        using mq_rep_contents [of ?q "mq_contents q @ [m]"] put(2) by simp
      ultimately show ?thesis by (metis mq_next_irrelevant(2))
    qed
    ultimately show ?thesis
      using False put p own sel by (auto simp: skynet_mq_push_def)
  qed
qed

lemma mq_ok_pop:
  assumes ok: "mq_ok st xs held" and p: "mq_heap st p = Some q" and live: "mq_release q = 0"
    and held: "p \<in> held"
  shows "\<exists>ret m q'. skynet_mq_pop q = Some (ret, m, q')
           \<and> (case mq_contents q of
                [] \<Rightarrow> ret = 1 \<and> m = None \<and> mq_ok (mq_update p q' st) xs (held - {p})
              | x # ys \<Rightarrow> ret = 0 \<and> m = Some x \<and> mq_contents q' = ys \<and> mq_ok (mq_update p q' st) xs held)"
proof (cases "mq_contents q")
  case Nil
  with mq_ok_rep [OF ok p] have r: "mq_rep q []" by simp
  let ?q = "q\<lparr>mq_overload_threshold := MQ_OVERLOAD, mq_in_global := 0\<rparr>"
  have "mq_node_ok (p \<in> set xs \<union> (held - {p})) ?q"
    using live held ok by (intro mq_node_okI [OF mq_pop_empty_rep(2) [OF r]]) (auto simp: mq_ok_def)
  then have "mq_ok (mq_update p ?q st) xs (held - {p})"
    by (intro mq_ok_update [OF ok p]) auto
  with mq_pop_empty_rep(1) [OF r] Nil show ?thesis by auto
next
  case (Cons x ys)
  with mq_ok_rep [OF ok p] have "mq_rep q (x # ys)" by simp
  from mq_pop_cons_rep [OF this] obtain q' where
    q': "skynet_mq_pop q = Some (0, Some x, q')" "mq_rep q' ys"
    and sel: "mq_release q' = mq_release q" "mq_in_global q' = mq_in_global q" "mq_next q' = mq_next q"
    by (auto simp: mq_same_def)
  have "mq_in_global q = MQ_IN_GLOBAL"
    using mq_ok_node [OF ok p] live held by (auto simp: mq_node_ok_def)
  then have "mq_node_ok (p \<in> set xs \<union> held) q'"
    using q' sel held live by (intro mq_node_okI) auto
  then have "mq_ok (mq_update p q' st) xs held"
    using sel by (intro mq_ok_update [OF ok p]) auto
  with q' Cons mq_rep_contents [OF q'(2)] show ?thesis by auto
qed

lemma mq_ok_mark_release:
  assumes ok: "mq_ok st xs held" and p: "mq_heap st p = Some q" and live: "mq_release q = 0"
  shows "\<exists>st'. skynet_mq_mark_release p st = Some st'
           \<and> mq_ok st' (if p \<in> set xs \<union> held then xs else xs @ [p]) held"
proof -
  let ?q = "q\<lparr>mq_release := 1\<rparr>"
  have own: "mq_in_global q = (if p \<in> set xs \<union> held then MQ_IN_GLOBAL else 0)"
    using mq_ok_node [OF ok p] live by (auto simp: mq_node_ok_def)
  have rep: "mq_rep ?q (mq_contents q)" using mq_ok_rep [OF ok p] by simp
  have node: "mq_node_ok True ?q" by (rule mq_node_okI [OF rep]) auto
  show ?thesis
  proof (cases "p \<in> set xs \<union> held")
    case True
    with node have "mq_ok (mq_update p ?q st) xs held"
      by (intro mq_ok_update [OF ok p]) auto
    with True own p live show ?thesis by (auto simp: skynet_mq_mark_release_def Let_def)
  next
    case False
    have "mq_ok (mq_update p ?q st) xs (insert p held)"
      using ok p False node gq_inv_update [of st xs p q ?q] by (auto simp: mq_ok_def split: if_splits)
    then obtain st' where "skynet_globalmq_push p (mq_update p ?q st) = Some st'"
      "mq_ok st' (xs @ [p]) (insert p held - {p})"
      using mq_ok_globalmq_push by (metis insertI1)
    moreover have "insert p held - {p} = held" using False by auto
    ultimately show ?thesis
      using False own p live by (auto simp: skynet_mq_mark_release_def Let_def MQ_IN_GLOBAL_def)
  qed
qed

text \<open>The drop loop ends and hands over every message once, oldest first.\<close>

lemma drain_contents:
  "mq_rep q xs \<Longrightarrow> \<exists>q'. drain q acc = Some (acc @ xs, q') \<and> mq_next q' = mq_next q"
proof (induction xs arbitrary: q acc)
  case Nil
  from mq_pop_empty_rep(1) [OF Nil] show ?case by (subst drain.simps) simp
next
  case (Cons x xs)
  from mq_pop_cons_rep [OF Cons.prems] obtain q' where
    q': "skynet_mq_pop q = Some (0, Some x, q')" "mq_rep q' xs"
    and "mq_next q' = mq_next q"
    by (auto simp: mq_same_def)
  with q' Cons.IH [OF q'(2), of "acc @ [x]"] show ?case by (subst drain.simps) simp
qed

lemma mq_ok_release:
  assumes ok: "mq_ok st xs held" and p: "mq_heap st p = Some q" and held: "p \<in> held"
  shows "\<exists>msgs st'. skynet_mq_release p st = Some (msgs, st')
           \<and> (if mq_release q \<noteq> 0
              then msgs = mq_contents q \<and> mq_heap st' p = None \<and> mq_ok st' xs (held - {p})
              else msgs = [] \<and> mq_ok st' (xs @ [p]) (held - {p}))"
proof (cases "mq_release q = 0")
  case True
  with mq_ok_globalmq_push [OF ok held] p show ?thesis
    by (auto simp: skynet_mq_release_def)
next
  case False
  from drain_contents [OF mq_ok_rep [OF ok p], of "[]"] obtain q' where
    q': "drain q [] = Some (mq_contents q, q')" "mq_next q' = mq_next q" by auto
  have p_xs: "p \<notin> set xs" using ok held by (auto simp: mq_ok_def)
  then have nx: "mq_next q = None" using ok p by (auto simp: mq_ok_def gq_inv_def)
  let ?st = "st\<lparr>mq_heap := (mq_heap st)(p := None)\<rparr>"
  have "gq_chain ((mq_heap st)(p := None)) h xs = gq_chain (mq_heap st) h xs" for h
    by (rule gq_chain_frame) (use p_xs in auto)
  moreover have "mq_erase ?st = (mq_erase st)(p := None)" by (auto simp: mq_erase_def)
  ultimately have "mq_ok ?st xs (held - {p})"
    using ok p_xs by (auto simp: mq_ok_def gq_inv_def split: if_splits)
  moreover have "mq_free p (mq_update p q' st) = Some ?st"
    using q' nx by (simp add: mq_free_def mq_update_def)
  ultimately show ?thesis
    using False p q' by (intro exI [of _ "mq_contents q"] exI [of _ ?st])
      (simp add: skynet_mq_release_def drop_queue_def)
qed

lemma mq_put_full:
  assumes r: "mq_rep q xs" and full: "mq_limit \<le> length xs + 1"
  shows "mq_put q m = None"
proof -
  from r have sh: "mq_shape q" and n: "int (length xs) < mq_cap q"
    and t: "mq_tail q = (mq_head q + int (length xs)) mod mq_cap q"
    by (auto simp: mq_rep_def)
  note b = mq_shapeD [OF sh]
  have cap: "mq_cap q = 2 ^ 30" and len: "int (length xs) + 1 = mq_cap q"
    using n b full by (auto simp: mq_limit_def)
  have wrap: "mq_tail q = (if mq_head q + int (length xs) < mq_cap q
      then mq_head q + int (length xs) else mq_head q + int (length xs) - mq_cap q)"
    unfolding t using b n by (intro mod_add_wrap) auto
  have "(if mq_tail q + 1 \<ge> mq_cap q then 0 else mq_tail q + 1) = mq_head q"
    using wrap len b by (auto split: if_splits)
  moreover have "checked_double (mq_cap q) = None" by (simp add: cap checked_double_def INT_MAX_def)
  ultimately show ?thesis
    using b by (simp add: mq_put_def expand_queue_def Let_def)
qed

section \<open>The protocol of the threads\<close>

text \<open>
  One step is one locked operation by some thread; the second component is the set
  of queues some thread holds. A thread uses the queue operations as the sources
  do: it pops messages only from a queue it holds, gives up the queue when
  \<^verbatim>\<open>skynet_mq_pop\<close> reports that it is empty, and sends only to a context it has a
  reference to, whose queue is not yet marked for release.
\<close>

inductive mq_step :: "mq_store \<times> addr set \<Rightarrow> mq_store \<times> addr set \<Rightarrow> bool" where
  mq_create: "mq_heap st p = None \<Longrightarrow>
    mq_step (st, held) (mq_update p (skynet_mq_create h) st, insert p held)"
| mq_give: "p \<in> held \<Longrightarrow> skynet_globalmq_push p st = Some st' \<Longrightarrow> mq_step (st, held) (st', held - {p})"
| mq_get: "skynet_globalmq_pop st = Some (Some p, st') \<Longrightarrow> mq_step (st, held) (st', insert p held)"
| mq_send: "mq_heap st p = Some q \<Longrightarrow> mq_release q = 0 \<Longrightarrow> skynet_mq_push p m st = Some st' \<Longrightarrow>
    mq_step (st, held) (st', held)"
| mq_pop_msg: "p \<in> held \<Longrightarrow> mq_heap st p = Some q \<Longrightarrow> mq_release q = 0 \<Longrightarrow>
    skynet_mq_pop q = Some (0, Some m, q') \<Longrightarrow> mq_step (st, held) (mq_update p q' st, held)"
| mq_pop_empty: "p \<in> held \<Longrightarrow> mq_heap st p = Some q \<Longrightarrow> mq_release q = 0 \<Longrightarrow>
    skynet_mq_pop q = Some (1, None, q') \<Longrightarrow> mq_step (st, held) (mq_update p q' st, held - {p})"
| mq_mark: "skynet_mq_mark_release p st = Some st' \<Longrightarrow> mq_step (st, held) (st', held)"
| mq_drop: "p \<in> held \<Longrightarrow> skynet_mq_release p st = Some (msgs, st') \<Longrightarrow> mq_step (st, held) (st', held - {p})"

definition mq_start :: "mq_store \<times> addr set \<Rightarrow> bool" where
  "mq_start s \<longleftrightarrow> s = (skynet_mq_init, {})"

definition mq_good :: "mq_store \<times> addr set \<Rightarrow> bool" where
  "mq_good s \<longleftrightarrow> (\<exists>xs. mq_ok (fst s) xs (snd s))"

lemma mq_ok_init: "mq_ok skynet_mq_init [] {}"
  by (simp add: mq_ok_def gq_inv_def skynet_mq_init_def mq_erase_def)

lemma mq_ok_list_unique:
  assumes "gq_inv st xs" "gq_inv st ys"
  shows "xs = ys"
proof -
  have "gq_chain h p xs \<Longrightarrow> gq_chain h p ys \<Longrightarrow> xs = ys" for h p
  proof (induction xs arbitrary: p ys)
    case Nil
    then show ?case by (cases ys) auto
  next
    case (Cons a xs)
    then show ?case by (cases ys) (auto split: option.splits)
  qed
  with assms show ?thesis by (auto simp: gq_inv_def)
qed

lemma mq_step_good:
  assumes "mq_good s" "mq_step s t"
  shows "mq_good t"
  using assms(2,1)
proof (induction rule: mq_step.induct)
  case (mq_create st p held h)
  then show ?case by (auto simp: mq_good_def intro: mq_ok_create)
next
  case (mq_give p held st st')
  then show ?case using mq_ok_globalmq_push by (fastforce simp: mq_good_def)
next
  case (mq_get st p st' held)
  then obtain xs where ok: "mq_ok st xs held" by (auto simp: mq_good_def)
  then have "xs \<noteq> []" using mq_get globalmq_pop_empty by (auto simp: mq_ok_def)
  then obtain a ys where "xs = a # ys" by (cases xs) auto
  with ok mq_get show ?case using mq_ok_globalmq_pop by (fastforce simp: mq_good_def)
next
  case (mq_send st p q m st' held)
  then obtain xs where ok: "mq_ok st xs held" by (auto simp: mq_good_def)
  have "length (mq_contents q) + 1 < mq_limit"
  proof (rule ccontr)
    assume "\<not> length (mq_contents q) + 1 < mq_limit"
    then have "mq_put q m = None" using mq_put_full mq_ok_rep [OF ok mq_send(1)] by simp
    with mq_send show False by (simp add: skynet_mq_push_def)
  qed
  from mq_ok_push [OF ok mq_send(1,2) this, of m] mq_send show ?case by (auto simp: mq_good_def)
next
  case (mq_pop_msg p held st q m q')
  then obtain xs where ok: "mq_ok st xs held" by (auto simp: mq_good_def)
  from mq_ok_pop [OF ok mq_pop_msg(2,3,1)] mq_pop_msg(4) show ?case
    by (auto simp: mq_good_def split: list.splits)
next
  case (mq_pop_empty p held st q q')
  then obtain xs where ok: "mq_ok st xs held" by (auto simp: mq_good_def)
  from mq_ok_pop [OF ok mq_pop_empty(2,3,1)] mq_pop_empty(4) show ?case
    by (auto simp: mq_good_def split: list.splits)
next
  case (mq_mark p st st' held)
  then obtain xs where ok: "mq_ok st xs held" by (auto simp: mq_good_def)
  from mq_mark obtain q where "mq_heap st p = Some q" "mq_release q = 0"
    by (cases "mq_heap st p") (auto simp: skynet_mq_mark_release_def split: if_splits)
  from mq_ok_mark_release [OF ok this] mq_mark show ?case by (auto simp: mq_good_def)
next
  case (mq_drop p held st msgs st')
  then obtain xs q where ok: "mq_ok st xs held" "mq_heap st p = Some q"
    by (fastforce simp: mq_good_def mq_ok_def)
  from mq_ok_release [OF ok mq_drop(1)] mq_drop show ?case
    by (auto simp: mq_good_def split: if_splits)
qed

interpretation mqi: invariant mq_start mq_step mq_good
  by unfold_locales (auto simp: mq_start_def mq_good_def intro: mq_ok_init mq_step_good [unfolded mq_good_def])

section \<open>What a queue is to its clients\<close>

text \<open>
  The rest of the node sees of a queue only the handle it belongs to, whether it is
  marked for release, and the messages in it. \<open>mq_view\<close> is that view; the lemmas say
  what every operation does to it, whoever owns the queue.
\<close>

type_synonym mailbox = "u32 \<times> bool \<times> skynet_message list"

definition mq_box :: "message_queue \<Rightarrow> mailbox" where
  "mq_box q = (mq_handle q, mq_release q \<noteq> 0, mq_contents q)"

definition mq_view :: "mq_store \<Rightarrow> addr \<rightharpoonup> mailbox" where
  "mq_view st p = map_option mq_box (mq_heap st p)"

lemma mq_box_next [simp]: "mq_box (q\<lparr>mq_next := n\<rparr>) = mq_box q"
  by (simp add: mq_box_def)

lemma mq_view_dom: "dom (mq_view st) = dom (mq_heap st)"
  by (auto simp: mq_view_def)

lemma mq_view_update: "mq_view (mq_update p q st) = (mq_view st)(p \<mapsto> mq_box q)"
  by (auto simp: mq_view_def fun_eq_iff)

lemma mq_view_Q [simp]: "mq_view (st\<lparr>mq_Q := g\<rparr>) = mq_view st"
  by (simp add: mq_view_def fun_eq_iff)

lemma mq_view_link:
  "mq_heap st p = Some q \<Longrightarrow> mq_view (mq_update p (q\<lparr>mq_next := n\<rparr>) st) = mq_view st"
  by (auto simp: mq_view_def fun_eq_iff)

lemma globalmq_push_view: "skynet_globalmq_push p st = Some st' \<Longrightarrow> mq_view st' = mq_view st"
  unfolding skynet_globalmq_push_def
  by (auto simp: mq_view_link elim!: bind_eq_SomeE split: if_splits option.splits)

lemma globalmq_pop_view: "skynet_globalmq_pop st = Some (r, st') \<Longrightarrow> mq_view st' = mq_view st"
  unfolding skynet_globalmq_pop_def Let_def
  by (auto simp: mq_view_link elim!: bind_eq_SomeE split: if_splits option.splits)

lemma mq_put_box:
  assumes "mq_inv q" "mq_put q m = Some q'"
  shows "mq_box q' = (mq_handle q, mq_release q \<noteq> 0, mq_contents q @ [m])" "mq_in_global q' = mq_in_global q"
proof -
  note r = mq_inv_rep [OF assms(1)]
  have "length (mq_contents q) + 1 < mq_limit"
    using mq_put_full [OF r, of m] assms(2) by (auto simp: not_less [symmetric])
  from mq_put_rep [OF r this, of m] assms(2) have "mq_rep q' (mq_contents q @ [m])" "mq_same q q'" by auto
  with mq_rep_contents show "mq_box q' = (mq_handle q, mq_release q \<noteq> 0, mq_contents q @ [m])"
    "mq_in_global q' = mq_in_global q"
    by (auto simp: mq_box_def mq_same_def)
qed

lemma mq_flag_box [simp]:
  "mq_box (q\<lparr>mq_in_global := g\<rparr>) = mq_box q" "mq_contents (q\<lparr>mq_release := r\<rparr>) = mq_contents q"
  by (simp_all add: mq_box_def mq_contents_def mq_cell_def skynet_mq_length_def)

lemma mq_push_view:
  assumes "skynet_mq_push p m st = Some st'" "mq_heap st p = Some q" "mq_inv q"
  shows "mq_view st' = (mq_view st)(p \<mapsto> (mq_handle q, mq_release q \<noteq> 0, mq_contents q @ [m]))"
proof -
  from assms(1,2) obtain q1 where q1: "mq_put q m = Some q1"
    and st': "(if mq_in_global q1 = 0 then skynet_globalmq_push p (mq_update p (q1\<lparr>mq_in_global := MQ_IN_GLOBAL\<rparr>) st)
      else Some (mq_update p q1 st)) = Some st'"
    by (auto simp: skynet_mq_push_def elim!: bind_eq_SomeE)
  from st' have "mq_view st' = (mq_view st)(p \<mapsto> mq_box q1)"
    by (auto simp: mq_view_update dest!: globalmq_push_view split: if_splits)
  with mq_put_box [OF assms(3) q1] show ?thesis by simp
qed

lemma mq_mark_view:
  assumes "skynet_mq_mark_release p st = Some st'" "mq_heap st p = Some q"
  shows "mq_view st' = (mq_view st)(p \<mapsto> (mq_handle q, True, mq_contents q))"
  using assms
  by (auto simp: skynet_mq_mark_release_def Let_def mq_view_update mq_box_def dest!: globalmq_push_view split: if_splits)

lemma mq_release_view:
  assumes "skynet_mq_release p st = Some (msgs, st')" "mq_heap st p = Some q"
  shows "mq_view st' = (if mq_release q \<noteq> 0 then (mq_view st)(p := None) else mq_view st)"
proof (cases "mq_release q = 0")
  case True
  with assms show ?thesis by (auto simp: skynet_mq_release_def dest: globalmq_push_view)
next
  case False
  with assms obtain q' where "mq_free p (mq_update p q' st) = Some st'"
    by (auto simp: skynet_mq_release_def drop_queue_def elim!: bind_eq_SomeE)
  then show ?thesis
    using False by (auto simp: mq_free_def mq_view_def fun_eq_iff split: if_splits)
qed

lemma mq_pop_box:
  assumes "mq_inv q" "skynet_mq_pop q = Some (ret, m, q')"
  shows "mq_box q' = (mq_handle q, mq_release q \<noteq> 0, tl (mq_contents q)) \<and> mq_inv q'
    \<and> (ret, m) = (case mq_contents q of [] \<Rightarrow> (1, None) | x # _ \<Rightarrow> (0, Some x))"
proof (cases "mq_contents q")
  case Nil
  with mq_inv_rep [OF assms(1)] have r: "mq_rep q []" by simp
  from mq_pop_empty_rep [OF r] assms(2) mq_rep_contents [OF mq_pop_empty_rep(2) [OF r]] show ?thesis
    by (auto simp: mq_box_def Nil)
next
  case (Cons x xs)
  with mq_inv_rep [OF assms(1)] have r: "mq_rep q (x # xs)" by simp
  from mq_pop_cons_rep [OF r] assms(2) have "mq_rep q' xs" "mq_same q q'" "ret = 0" "m = Some x" by auto
  with mq_rep_contents show ?thesis by (auto simp: mq_box_def mq_same_def Cons)
qed

section \<open>Properties\<close>

lemma mq_step_owner:
  assumes "reaches mq_start mq_step (st, held)"
  obtains xs where "mq_ok st xs held"
  using mqi.inv_reaches [OF assms] by (auto simp: mq_good_def)

text \<open>
  C1: A fresh queue of a service answers any sequence of pushes and pops, wrap-around
  and growth of the ring included, exactly as the same sequence on a list that is
  appended to at one end and taken from at the other, and no operation fails, as long as
  fewer than \<open>2 ^ 30\<close> messages are pushed.
\<close>

theorem mq_refines_list:
  assumes "pushes ops < 2 ^ 30"
  shows "\<exists>q. fifo_run mq_put mq_take ops (skynet_mq_create h) = Some (fst (list_run ops []), q)
           \<and> mq_contents q = snd (list_run ops [])"
proof -
  have "mq_inv (skynet_mq_create h)" "mq_contents (skynet_mq_create h) = []"
    using mq_rep_contents [OF mq_create_rep] by auto
  with mqf.run_refines [of "skynet_mq_create h" ops] assms show ?thesis by (auto simp: mq_limit_def)
qed

theorem mq_refines_list_witness:
  "\<exists>q. fifo_run mq_put mq_take
         [Push \<lparr>msg_source = 1, msg_session = 2, msg_data = 3, msg_sz = 4\<rparr>, Pop, Pop] (skynet_mq_create 7)
       = Some ([Some \<lparr>msg_source = 1, msg_session = 2, msg_data = 3, msg_sz = 4\<rparr>, None], q)
       \<and> mq_contents q = []"
  using mq_refines_list [of "[Push \<lparr>msg_source = 1, msg_session = 2, msg_data = 3, msg_sz = 4\<rparr>, Pop, Pop]" 7]
  by simp

text \<open>
  C2: No two threads ever hold the queue of one service: in every state the threads can
  reach, the queue that \<^verbatim>\<open>skynet_globalmq_pop\<close> hands to a worker is one that nobody
  holds, and it is no longer in the global list afterwards. So the messages of one
  service are never dispatched by two workers at the same time.
\<close>

theorem mq_worker_exclusive:
  assumes "reaches mq_start mq_step (st, held)" "skynet_globalmq_pop st = Some (Some p, st')"
  shows "p \<notin> held \<and> (\<exists>xs. gq_inv st (p # xs) \<and> gq_inv st' xs \<and> p \<notin> set xs)"
proof -
  from assms(1) obtain ys where ok: "mq_ok st ys held" by (rule mq_step_owner)
  then have "ys \<noteq> []" using assms(2) globalmq_pop_empty by (auto simp: mq_ok_def)
  then obtain a xs where ys: "ys = a # xs" by (cases ys) auto
  with ok have gi: "gq_inv st (a # xs)" by (simp add: mq_ok_def)
  with globalmq_pop_list [OF gi] assms(2) have "a = p" "gq_inv st' xs" by auto
  with ok gi ys show ?thesis by (auto simp: mq_ok_def gq_inv_def)
qed

lemma mq_reach_one:
  "reaches mq_start mq_step (mq_update 1 (skynet_mq_create 7) skynet_mq_init, {1})"
  by (rule reaches_step [OF reaches_start [of _ "(skynet_mq_init, {})"]], simp add: mq_start_def,
      rule mq_create [where held = "{}"], simp add: skynet_mq_init_def)

lemma mq_reach_given:
  "reaches mq_start mq_step
     ((mq_update 1 (skynet_mq_create 7) skynet_mq_init)\<lparr>mq_Q := \<lparr>gq_head = Some 1, gq_tail = Some 1\<rparr>\<rparr>, {})"
proof (rule reaches_step [OF mq_reach_one])
  let ?st = "mq_update 1 (skynet_mq_create 7) skynet_mq_init"
  have "skynet_globalmq_push 1 ?st = Some (?st\<lparr>mq_Q := \<lparr>gq_head = Some 1, gq_tail = Some 1\<rparr>\<rparr>)"
    by (simp add: skynet_globalmq_push_def skynet_mq_create_def skynet_mq_init_def)
  from mq_give [OF _ this, of "{1}"] show
    "mq_step (?st, {1}) (?st\<lparr>mq_Q := \<lparr>gq_head = Some 1, gq_tail = Some 1\<rparr>\<rparr>, {})" by simp
qed

theorem mq_worker_exclusive_witness:
  "\<exists>st st'. skynet_globalmq_pop st = Some (Some 1, st') \<and> 1 \<notin> {}
     \<and> (\<exists>xs. gq_inv st (1 # xs) \<and> gq_inv st' xs \<and> 1 \<notin> set xs)"
proof -
  let ?st = "(mq_update 1 (skynet_mq_create 7) skynet_mq_init)\<lparr>mq_Q := \<lparr>gq_head = Some 1, gq_tail = Some 1\<rparr>\<rparr>"
  obtain st' where st': "skynet_globalmq_pop ?st = Some (Some 1, st')"
    by (simp add: skynet_globalmq_pop_def skynet_mq_create_def)
  with mq_worker_exclusive [OF mq_reach_given st'] show ?thesis by blast
qed

text \<open>
  C3: No wake-up is lost: in every reachable state, a queue that still has messages, or
  that is marked for release, is in the global list, where a worker will find it, or is
  held by a thread that will look at it again.
\<close>

theorem mq_no_lost_wakeup:
  assumes "reaches mq_start mq_step (st, held)" "mq_heap st p = Some q"
    and "skynet_mq_length q \<noteq> 0 \<or> mq_release q = 1"
  shows "p \<in> held \<or> (\<exists>xs. gq_inv st xs \<and> p \<in> set xs)"
proof -
  from assms(1) obtain xs where ok: "mq_ok st xs held" by (rule mq_step_owner)
  have "mq_contents q \<noteq> []" if "skynet_mq_length q \<noteq> 0"
    using mq_rep_length [OF mq_ok_rep [OF ok assms(2)]] that by auto
  with assms(3) mq_ok_node [OF ok assms(2)] have "p \<in> set xs \<union> held"
    by (auto simp: mq_node_ok_def)
  with ok show ?thesis by (auto simp: mq_ok_def)
qed

theorem mq_no_lost_wakeup_witness:
  "\<exists>st q. reaches mq_start mq_step (st, {1}) \<and> mq_heap st 1 = Some q \<and> skynet_mq_length q \<noteq> 0
     \<and> (1 \<in> {1 :: addr} \<or> (\<exists>xs. gq_inv st xs \<and> 1 \<in> set xs))"
proof -
  let ?q = "skynet_mq_create 7" and ?m = "\<lparr>msg_source = 1, msg_session = 2, msg_data = 3, msg_sz = 4\<rparr>"
  let ?st = "mq_update 1 ?q skynet_mq_init"
  have "mq_rep ?q []" by (rule mq_create_rep)
  from mq_put_rep [OF this, of ?m] obtain q' where q': "mq_put ?q ?m = Some q'" "mq_rep q' [?m]" "mq_same ?q q'"
    by (auto simp: mq_limit_def)
  have push: "skynet_mq_push 1 ?m ?st = Some (mq_update 1 q' ?st)"
    using q' by (simp add: skynet_mq_push_def mq_same_def skynet_mq_create_def MQ_IN_GLOBAL_def)
  have "mq_step (?st, {1}) (mq_update 1 q' ?st, {1})"
    by (rule mq_send [OF _ _ push, of ?q]) (simp_all add: skynet_mq_create_def)
  then have r: "reaches mq_start mq_step (mq_update 1 q' ?st, {1})"
    using mq_reach_one by (rule reaches_step [rotated])
  have len: "skynet_mq_length q' \<noteq> 0" using mq_rep_length [OF q'(2)] by simp
  have heap: "mq_heap (mq_update 1 q' ?st) 1 = Some q'" by simp
  from mq_no_lost_wakeup [OF r heap] len r heap show ?thesis by blast
qed

text \<open>
  C4: The assertions of the queue code hold: in every reachable state, popping the global
  list, giving back or releasing a queue one holds, marking a live queue for
  release, taking a message from a live queue one holds and pushing a message to a
  live queue below the limit all succeed. No \<^verbatim>\<open>next\<close> pointer is left dangling, no cell
  that was never written is read, no loop runs forever.
\<close>

theorem mq_operations_succeed:
  assumes "reaches mq_start mq_step (st, held)"
  shows "skynet_globalmq_pop st \<noteq> None
    \<and> (\<forall>p \<in> held. skynet_globalmq_push p st \<noteq> None \<and> skynet_mq_release p st \<noteq> None)
    \<and> (\<forall>p q. mq_heap st p = Some q \<and> mq_release q = 0 \<longrightarrow>
         skynet_mq_mark_release p st \<noteq> None \<and> (p \<in> held \<longrightarrow> skynet_mq_pop q \<noteq> None)
         \<and> (skynet_mq_length q + 1 < 2 ^ 30 \<longrightarrow> (\<forall>m. skynet_mq_push p m st \<noteq> None)))"
proof -
  from assms obtain xs where ok: "mq_ok st xs held" by (rule mq_step_owner)
  have pop: "skynet_globalmq_pop st \<noteq> None"
    using ok mq_ok_globalmq_pop [of st "hd xs" "tl xs" held] globalmq_pop_empty [of st]
    by (cases xs) (auto simp: mq_ok_def)
  have give: "skynet_globalmq_push p st \<noteq> None \<and> skynet_mq_release p st \<noteq> None" if "p \<in> held" for p
  proof -
    from ok that obtain q where "mq_heap st p = Some q" by (auto simp: mq_ok_def)
    from mq_ok_globalmq_push [OF ok that] mq_ok_release [OF ok this that] show ?thesis by auto
  qed
  have live: "skynet_mq_mark_release p st \<noteq> None \<and> (p \<in> held \<longrightarrow> skynet_mq_pop q \<noteq> None)
      \<and> (skynet_mq_length q + 1 < 2 ^ 30 \<longrightarrow> skynet_mq_push p m st \<noteq> None)"
    if q: "mq_heap st p = Some q" "mq_release q = 0" for p q m
  proof (intro conjI impI)
    from mq_ok_mark_release [OF ok q] show "skynet_mq_mark_release p st \<noteq> None" by auto
    show "skynet_mq_pop q \<noteq> None" if "p \<in> held" using mq_ok_pop [OF ok q that] by auto
    assume "skynet_mq_length q + 1 < 2 ^ 30"
    then have "length (mq_contents q) + 1 < mq_limit"
      using mq_rep_length [OF mq_ok_rep [OF ok q(1)]] by (simp add: mq_limit_def)
    from mq_ok_push [OF ok q this, of m] show "skynet_mq_push p m st \<noteq> None" by auto
  qed
  show ?thesis using pop give live by blast
qed

theorem mq_operations_succeed_witness:
  "\<exists>st. reaches mq_start mq_step (st, {1}) \<and> skynet_globalmq_pop st \<noteq> None
     \<and> skynet_mq_release 1 st \<noteq> None \<and> skynet_mq_mark_release 1 st \<noteq> None
     \<and> skynet_mq_push 1 \<lparr>msg_source = 1, msg_session = 2, msg_data = 3, msg_sz = 4\<rparr> st \<noteq> None"
proof -
  let ?q = "skynet_mq_create 7" and ?m = "\<lparr>msg_source = 1, msg_session = 2, msg_data = 3, msg_sz = 4\<rparr>"
  let ?st = "mq_update 1 ?q skynet_mq_init"
  have q: "mq_heap ?st 1 = Some ?q" "mq_release ?q = 0" "skynet_mq_length ?q + 1 < 2 ^ 30"
    by (simp_all add: skynet_mq_create_def skynet_mq_length_def)
  note ops = mq_operations_succeed [OF mq_reach_one]
  from ops q mq_reach_one show ?thesis by blast
qed

text \<open>
  Taking a message from a non-empty queue returns the oldest one with return value 0
  and leaves the others in order. The overload mark is set to the remaining length
  exactly when that length exceeds the threshold; the threshold then becomes the
  first of its doublings that covers the length, so one flood is reported once per doubling.
\<close>

theorem mq_pop_overload:
  assumes "mq_inv q" "mq_contents q = x # xs"
  shows "\<exists>q' k. skynet_mq_pop q = Some (0, Some x, q') \<and> mq_inv q' \<and> mq_contents q' = xs
           \<and> mq_overload q' = (if mq_overload_threshold q < int (length xs) then int (length xs)
                              else mq_overload q)
           \<and> mq_overload_threshold q' = mq_overload_threshold q * 2 ^ k
           \<and> int (length xs) \<le> mq_overload_threshold q'
           \<and> (k = 0 \<or> mq_overload_threshold q * 2 ^ (k - 1) < int (length xs))"
proof -
  from assms mq_inv_rep have "mq_rep q (x # xs)" by metis
  from mq_pop_cons_rep [OF this] mq_rep_contents show ?thesis by blast
qed

theorem mq_pop_overload_witness:
  "\<exists>q q' m. mq_contents q = [m] \<and> skynet_mq_pop q = Some (0, Some m, q') \<and> mq_contents q' = []
     \<and> mq_overload q' = 0 \<and> mq_overload_threshold q' = 1024"
proof -
  let ?m = "\<lparr>msg_source = 1, msg_session = 2, msg_data = 3, msg_sz = 4\<rparr>"
  let ?q = "\<lparr> mq_handle = 1, mq_cap = 64, mq_head = 63, mq_tail = 0, mq_release = 0, mq_in_global = 1,
     mq_overload = 0, mq_overload_threshold = 1024, mq_queue = replicate 63 None @ [Some ?m], mq_next = None \<rparr>"
  have "mq_rep ?q [?m]"
    by (auto simp: mq_rep_def mq_shape_def mq_cell_def array_get_def MQ_OVERLOAD_def nth_append
        intro!: exI [of _ 0])
  then have q: "mq_inv ?q" "mq_contents ?q = [?m]" using mq_rep_contents by auto
  from mq_pop_overload [OF q] obtain q' k where
    "skynet_mq_pop ?q = Some (0, Some ?m, q')" "mq_contents q' = []" "mq_overload q' = 0"
    "mq_overload_threshold q' = 1024 * 2 ^ k" "k = 0 \<or> (1024 * 2 ^ (k - 1) :: int) < 0"
    by auto
  moreover from this(5) have "k = 0" by (metis linorder_not_less zero_le_mult_iff zero_le_numeral zero_le_power)
  ultimately show ?thesis using q(2) by auto
qed

text \<open>
  Releasing a queue that its context has marked hands every message that is still in
  it to the drop function exactly once, oldest first, and then frees the queue; a
  queue that is not marked yet is put back at the end of the global list, with nothing dropped.
\<close>

theorem mq_release_drops_all:
  assumes "reaches mq_start mq_step (st, held)" "p \<in> held" "mq_heap st p = Some q"
  shows "if mq_release q \<noteq> 0
         then \<exists>st'. skynet_mq_release p st = Some (mq_contents q, st') \<and> mq_heap st' p = None
         else \<exists>st' xs. skynet_mq_release p st = Some ([], st') \<and> gq_inv st xs \<and> gq_inv st' (xs @ [p])"
proof -
  from assms(1) obtain xs where ok: "mq_ok st xs held" by (rule mq_step_owner)
  from mq_ok_release [OF ok assms(3,2)] ok show ?thesis by (auto simp: mq_ok_def)
qed

theorem mq_release_drops_all_witness:
  "\<exists>st st' xs. reaches mq_start mq_step (st, {1}) \<and> skynet_mq_release 1 st = Some ([], st')
     \<and> gq_inv st xs \<and> gq_inv st' (xs @ [1])"
proof -
  let ?q = "skynet_mq_create 7"
  have "mq_heap (mq_update 1 ?q skynet_mq_init) 1 = Some ?q" by simp
  from mq_release_drops_all [OF mq_reach_one _ this] mq_reach_one show ?thesis
    by (auto simp: skynet_mq_create_def)
qed

end
