(* ===== verification/Id_Table_Spec.thy ===== *)
theory Id_Table_Spec
  imports Skynet_Prelude
begin

text \<open>
  The contract of a table that hands out identifiers: \<open>register\<close> stores a value
  under a key it chooses, one that is not in use; \<open>retire\<close> frees a key; neither
  touches any other key. \<open>room\<close> counts the registrations that cannot fail.
\<close>

fun register_all :: "('v \<Rightarrow> 's \<Rightarrow> ('k \<times> 's) option) \<Rightarrow> 'v list \<Rightarrow> 's \<Rightarrow> ('k list \<times> 's) option" where
  "register_all reg [] s = Some ([], s)"
| "register_all reg (v # vs) s =
     (case reg v s of
        None \<Rightarrow> None
      | Some (k, s') \<Rightarrow> map_option (\<lambda>(ks, s''). (k # ks, s'')) (register_all reg vs s'))"

locale id_table =
  fixes lookup :: "'s \<Rightarrow> 'k \<Rightarrow> 'v option"
    and register :: "'v \<Rightarrow> 's \<Rightarrow> ('k \<times> 's) option"
    and retire :: "'k \<Rightarrow> 's \<Rightarrow> ('v option \<times> 's) option"
    and invar :: "'s \<Rightarrow> bool"
    and room :: "'s \<Rightarrow> nat"
  assumes register_law:
      "invar s \<Longrightarrow> v \<notin> ran (lookup s) \<Longrightarrow> 0 < room s \<Longrightarrow>
         \<exists>k s'. register v s = Some (k, s') \<and> invar s' \<and> lookup s k = None
           \<and> lookup s' = (lookup s)(k \<mapsto> v) \<and> room s \<le> room s' + 1"
    and retire_law:
      "invar s \<Longrightarrow>
         \<exists>s'. retire k s = Some (lookup s k, s') \<and> invar s' \<and> lookup s' = (lookup s)(k := None)
           \<and> room s \<le> room s'"
begin

lemma register_all_fresh:
  assumes "invar s" "distinct vs" "set vs \<inter> ran (lookup s) = {}" "length vs \<le> room s"
  shows "\<exists>ks s'. register_all register vs s = Some (ks, s') \<and> invar s' \<and> distinct ks
           \<and> length ks = length vs \<and> (\<forall>k \<in> set ks. lookup s k = None)
           \<and> lookup s' = (lookup s)(ks [\<mapsto>] vs)"
  using assms
proof (induction vs arbitrary: s)
  case Nil
  then show ?case by simp
next
  case (Cons v vs)
  then obtain k s1 where k: "register v s = Some (k, s1)" "invar s1" "lookup s k = None"
    "lookup s1 = (lookup s)(k \<mapsto> v)" "room s \<le> room s1 + 1"
    using register_law [of s v] by auto
  have "ran (lookup s1) = insert v (ran (lookup s))"
    using k(3,4) by (simp only: ran_map_upd)
  then have "set vs \<inter> ran (lookup s1) = {}" using Cons.prems by (simp only:) auto
  with Cons.prems k(5) Cons.IH [OF k(2)] obtain ks s' where
    ks: "register_all register vs s1 = Some (ks, s')" "invar s'" "distinct ks"
      "length ks = length vs" "\<forall>k \<in> set ks. lookup s1 k = None" "lookup s' = (lookup s1)(ks [\<mapsto>] vs)"
    by auto
  from ks(5) k(4) have "k \<notin> set ks" "\<forall>k \<in> set ks. lookup s k = None" by (auto split: if_splits)
  with k ks show ?case by auto
qed

text \<open>A key that was retired is not answered until it is handed out again.\<close>

lemma retire_twice:
  assumes "invar s" "retire k s = Some (r, s1)"
  shows "\<exists>s2. retire k s1 = Some (None, s2) \<and> lookup s2 = lookup s1"
proof -
  from retire_law [OF assms(1), of k] assms(2) have "invar s1" "lookup s1 = (lookup s)(k := None)"
    by auto
  with retire_law [of s1 k] show ?thesis by (metis fun_upd_same fun_upd_upd)
qed

end

end
