(* ===== verification/Handle_Storage.thy ===== *)
theory Handle_Storage
  imports Id_Table_Spec "HOL-Library.List_Lexorder"
begin

text \<open>
  The handle storage of \<^verbatim>\<open>skynet-src/skynet_handle.c\<close>: an open-addressed table
  from 32-bit handles to service contexts, doubled when it is full, and a sorted
  array of local names.

  A context is an address; its \<^verbatim>\<open>handle\<close> field, which the table reads through
  \<^verbatim>\<open>skynet_context_handle\<close>, is the argument \<open>ch\<close>. Each function runs under the
  read-write lock of the storage. Sizes and counts are natural numbers: the
  source's assertions keep them below \<open>2 ^ 30\<close>.
\<close>

section \<open>Strings\<close>

text \<open>A C string is a list of characters other than NUL; \<open>strcmp\<close> compares unsigned bytes.\<close>

definition cstring :: "string \<Rightarrow> bool" where
  "cstring s \<longleftrightarrow> CHR 0x00 \<notin> set s"

fun strcmp :: "string \<Rightarrow> string \<Rightarrow> int" where
  "strcmp [] [] = 0"
| "strcmp [] (b # bs) = - int (of_char b)"
| "strcmp (a # as) [] = int (of_char a)"
| "strcmp (a # as) (b # bs) =
     (if a = b then strcmp as bs else int (of_char a) - int (of_char b))"

text \<open>The key by which names are ordered.\<close>

definition skey :: "string \<Rightarrow> nat list" where
  "skey s = map of_char s"

lemma skey_inj [simp]: "skey a = skey b \<longleftrightarrow> a = b"
  by (simp add: skey_def inj_map_eq_map inj_def)

lemma strcmp_order:
  assumes "cstring a" "cstring b"
  shows "strcmp a b = 0 \<longleftrightarrow> a = b" and "strcmp a b < 0 \<longleftrightarrow> skey a < skey b"
proof -
  have "of_char (CHR 0x00) = (0::nat)" by simp
  then have nz: "of_char c \<noteq> (0::nat)" if "CHR 0x00 \<noteq> c" for c
    using that by (metis of_char_eq_iff)
  have ne: "of_char c \<noteq> (of_char d :: nat)" if "c \<noteq> d" for c d using that by simp
  have "(strcmp a b = 0 \<longleftrightarrow> a = b) \<and> (strcmp a b < 0 \<longleftrightarrow> skey a < skey b)"
    using assms
  proof (induction a b rule: strcmp.induct)
    case 1
    then show ?case by (simp add: skey_def)
  next
    case (2 b bs)
    then show ?case using nz [of b] by (simp add: cstring_def skey_def)
  next
    case (3 a as)
    then show ?case using nz [of a] by (simp add: cstring_def skey_def)
  next
    case (4 a as b bs)
    then show ?case using ne [of a b] by (auto simp: cstring_def skey_def)
  qed
  then show "strcmp a b = 0 \<longleftrightarrow> a = b" and "strcmp a b < 0 \<longleftrightarrow> skey a < skey b" by auto
qed

section \<open>The storage\<close>

definition DEFAULT_SLOT_SIZE :: nat where
  "DEFAULT_SLOT_SIZE = 4"

definition MAX_SLOT_SIZE :: nat where
  "MAX_SLOT_SIZE = 0x40000000"

definition HANDLE_MASK :: u32 where
  "HANDLE_MASK = 0xffffff"

definition HANDLE_REMOTE_SHIFT :: nat where
  "HANDLE_REMOTE_SHIFT = 24"

record handle_name =
  hn_name :: string
  hn_handle :: u32

record handle_storage =
  hs_harbor :: u32
  hs_handle_index :: u32
  hs_slot_size :: nat
  hs_slot :: "addr option list"
  hs_name_cap :: nat
  hs_name_count :: nat
  hs_name :: "handle_name option list"

definition skynet_handle_init :: "int \<Rightarrow> handle_storage" where
  "skynet_handle_init harbor =
     \<lparr> hs_harbor = push_bit HANDLE_REMOTE_SHIFT (of_int harbor AND 0xff),
       hs_handle_index = 1,
       hs_slot_size = DEFAULT_SLOT_SIZE,
       hs_slot = replicate DEFAULT_SLOT_SIZE None,
       hs_name_cap = 2, hs_name_count = 0, hs_name = replicate 2 None \<rparr>"

section \<open>Handles\<close>

text \<open>The slot of a handle in a table of \<open>n\<close> slots: \<^verbatim>\<open>handle & (slot_size-1)\<close>.\<close>

definition slot_hash :: "nat \<Rightarrow> u32 \<Rightarrow> nat" where
  "slot_hash n handle = unat (handle AND (of_nat n - 1))"

text \<open>The inner loop of \<^verbatim>\<open>skynet_handle_register\<close>: the first candidate whose slot is empty.\<close>

definition find_slot :: "handle_storage \<Rightarrow> u32 option" where
  "find_slot s =
     List.find (\<lambda>handle. hs_slot s ! slot_hash (hs_slot_size s) handle = None)
       (map (\<lambda>i. (of_nat i + hs_handle_index s) AND HANDLE_MASK) [0..<hs_slot_size s])"

text \<open>
  Moving every context into the table of double size. An empty slot would be a
  null dereference, an occupied target the failed assertion.
\<close>

fun rehash :: "(addr \<Rightarrow> u32) \<Rightarrow> nat \<Rightarrow> addr option list \<Rightarrow> addr option list \<Rightarrow> addr option list option" where
  "rehash ch n [] new = Some new"
| "rehash ch n (None # xs) new = None"
| "rehash ch n (Some c # xs) new =
     (let h = slot_hash n (ch c) in
      if new ! h \<noteq> None then None else rehash ch n xs (new[h := Some c]))"

partial_function (option) skynet_handle_register ::
  "(addr \<Rightarrow> u32) \<Rightarrow> addr \<Rightarrow> handle_storage \<Rightarrow> (u32 \<times> handle_storage) option" where
  "skynet_handle_register ch ctx s =
     (case find_slot s of
        Some handle \<Rightarrow>
          Some (handle OR hs_harbor s,
                s\<lparr>hs_slot := (hs_slot s)[slot_hash (hs_slot_size s) handle := Some ctx],
                  hs_handle_index := handle + 1\<rparr>)
      | None \<Rightarrow>
          if \<not> hs_slot_size s * 2 - 1 \<le> unat HANDLE_MASK then None
          else Option.bind
            (rehash ch (hs_slot_size s * 2) (hs_slot s) (replicate (hs_slot_size s * 2) None))
            (\<lambda>new. skynet_handle_register ch ctx
                     (s\<lparr>hs_slot := new, hs_slot_size := hs_slot_size s * 2\<rparr>)))"

text \<open>\<open>slot_of\<close> is the common prologue of \<^verbatim>\<open>retire\<close> and \<^verbatim>\<open>grab\<close>.\<close>

definition slot_of :: "(addr \<Rightarrow> u32) \<Rightarrow> handle_storage \<Rightarrow> u32 \<Rightarrow> addr option" where
  "slot_of ch s handle =
     (case hs_slot s ! slot_hash (hs_slot_size s) handle of
        None \<Rightarrow> None
      | Some ctx \<Rightarrow> if ch ctx = handle then Some ctx else None)"

text \<open>
  The loop of \<^verbatim>\<open>skynet_handle_retire\<close> that drops the names of a handle: \<open>i\<close> reads,
  \<open>j\<close> writes, \<open>n\<close> is the old count.
\<close>

function retire_names ::
  "u32 \<Rightarrow> nat \<Rightarrow> nat \<Rightarrow> nat \<Rightarrow> handle_name option list \<Rightarrow> (nat \<times> handle_name option list) option" where
  "retire_names handle n i j xs =
     (if i < n
      then (case xs ! i of
              None \<Rightarrow> None
            | Some e \<Rightarrow>
                if hn_handle e = handle then retire_names handle n (i + 1) j xs
                else retire_names handle n (i + 1) (j + 1) (if i \<noteq> j then xs[j := Some e] else xs))
      else Some (j, xs))"
  by pat_completeness auto
termination
  by (relation "measure (\<lambda>(handle, n, i, j, xs). n - i)") auto

text \<open>
  The result is the C return value, the context whose reference the storage gives
  up (the caller releases it after unlocking), and the storage.
\<close>

definition skynet_handle_retire ::
  "(addr \<Rightarrow> u32) \<Rightarrow> u32 \<Rightarrow> handle_storage \<Rightarrow> (int \<times> addr option \<times> handle_storage) option" where
  "skynet_handle_retire ch handle s =
     (case slot_of ch s handle of
        None \<Rightarrow> Some (0, None, s)
      | Some ctx \<Rightarrow> do {
          (j, xs) \<leftarrow> retire_names handle (hs_name_count s) 0 0 (hs_name s);
          Some (1, Some ctx,
                s\<lparr>hs_slot := (hs_slot s)[slot_hash (hs_slot_size s) handle := None],
                  hs_name := xs, hs_name_count := j\<rparr>)
        })"

text \<open>The caller of \<^verbatim>\<open>grab\<close> increments the reference count of the result.\<close>

definition skynet_handle_grab :: "(addr \<Rightarrow> u32) \<Rightarrow> handle_storage \<Rightarrow> u32 \<Rightarrow> addr option" where
  "skynet_handle_grab ch s handle = slot_of ch s handle"

section \<open>Names\<close>

text \<open>
  The binary search both name functions share: \<open>Inl i\<close> when the name is at index
  \<open>i\<close>, \<open>Inr begin\<close> when it is absent and would be inserted at \<open>begin\<close>. \<open>end\<close> is
  one past the C variable of the same name, so that it stays a natural number.
\<close>

function name_search ::
  "handle_name option list \<Rightarrow> string \<Rightarrow> nat \<Rightarrow> nat \<Rightarrow> (nat + nat) option" where
  "name_search xs name bgn end1 =
     (if bgn < end1
      then let mid = (bgn + (end1 - 1)) div 2 in
           (case xs ! mid of
              None \<Rightarrow> None
            | Some n \<Rightarrow>
                let c = strcmp (hn_name n) name in
                if c = 0 then Some (Inl mid)
                else if c < 0 then name_search xs name (mid + 1) end1
                else name_search xs name bgn mid)
      else Some (Inr bgn))"
  by pat_completeness auto
termination
  by (relation "measure (\<lambda>(xs, name, bgn, end1). end1 - bgn)") auto

definition skynet_handle_findname :: "handle_storage \<Rightarrow> string \<Rightarrow> u32 option" where
  "skynet_handle_findname s name = do {
     r \<leftarrow> name_search (hs_name s) name 0 (hs_name_count s);
     case r of
       Inl i \<Rightarrow> map_option hn_handle (hs_name s ! i)
     | Inr _ \<Rightarrow> Some 0
   }"

text \<open>
  \<^verbatim>\<open>_insert_name_before\<close>: a full array is copied into one of double capacity with a
  gap at \<open>before\<close>; otherwise the tail is shifted up, from the end downwards.
\<close>

fun shift_up :: "nat \<Rightarrow> nat \<Rightarrow> 'a list \<Rightarrow> 'a list" where
  "shift_up before 0 xs = xs"
| "shift_up before (Suc i) xs =
     (if Suc i > before then shift_up before i (xs[Suc i := xs ! i]) else xs)"

definition insert_name_before ::
  "handle_storage \<Rightarrow> string \<Rightarrow> u32 \<Rightarrow> nat \<Rightarrow> handle_storage option" where
  "insert_name_before s name handle before = do {
     s \<leftarrow> (if hs_name_count s \<ge> hs_name_cap s
          then let cap = hs_name_cap s * 2 in
               if \<not> cap \<le> MAX_SLOT_SIZE then None
               else Some (s\<lparr>hs_name_cap := cap,
                            hs_name :=
                              map (\<lambda>i. if i < before then hs_name s ! i
                                       else if before < i \<and> i \<le> hs_name_count s then hs_name s ! (i - 1)
                                       else None) [0..<cap]\<rparr>)
          else Some (s\<lparr>hs_name := shift_up before (hs_name_count s) (hs_name s)\<rparr>));
     Some (s\<lparr>hs_name := (hs_name s)[before := Some \<lparr>hn_name = name, hn_handle = handle\<rparr>],
             hs_name_count := hs_name_count s + 1\<rparr>)
   }"

definition insert_name ::
  "handle_storage \<Rightarrow> string \<Rightarrow> u32 \<Rightarrow> (string option \<times> handle_storage) option" where
  "insert_name s name handle = do {
     r \<leftarrow> name_search (hs_name s) name 0 (hs_name_count s);
     case r of
       Inl _ \<Rightarrow> Some (None, s)
     | Inr bgn \<Rightarrow> map_option (Pair (Some name)) (insert_name_before s name handle bgn)
   }"

definition skynet_handle_namehandle ::
  "u32 \<Rightarrow> string \<Rightarrow> handle_storage \<Rightarrow> (string option \<times> handle_storage) option" where
  "skynet_handle_namehandle handle name s = insert_name s name handle"

declare retire_names.simps [simp del]
declare name_search.simps [simp del]

section \<open>The table of handles is a finite map\<close>

definition hs_ctxs :: "handle_storage \<Rightarrow> addr set" where
  "hs_ctxs s = {c. Some c \<in> set (hs_slot s)}"

definition hs_inv :: "(addr \<Rightarrow> u32) \<Rightarrow> handle_storage \<Rightarrow> bool" where
  "hs_inv ch s \<longleftrightarrow>
     (\<exists>k. 2 \<le> k \<and> k \<le> 24 \<and> hs_slot_size s = 2 ^ k) \<and> length (hs_slot s) = hs_slot_size s \<and>
     hs_harbor s AND HANDLE_MASK = 0 \<and>
     (\<forall>i < hs_slot_size s. \<forall>c. hs_slot s ! i = Some c \<longrightarrow> slot_hash (hs_slot_size s) (ch c) = i)"

lemma hs_inv_size:
  assumes "hs_inv ch s"
  obtains k where "2 \<le> k" "k \<le> 24" "hs_slot_size s = 2 ^ k"
  using assms by (auto simp: hs_inv_def)

lemma slot_hash_mod: "n = 2 ^ k \<Longrightarrow> slot_hash n h = unat h mod n"
  unfolding slot_hash_def by (rule unat_and_mask)

lemma slot_hash_less: "n = 2 ^ k \<Longrightarrow> slot_hash n h < n"
  by (simp add: slot_hash_mod)

lemma unat_HANDLE_MASK: "unat (w AND HANDLE_MASK) = unat w mod 2 ^ 24"
proof -
  have "HANDLE_MASK = of_nat (2 ^ 24) - 1" by (simp add: HANDLE_MASK_def)
  then show ?thesis using unat_and_mask [of "2 ^ 24" 24 w] by simp
qed

lemma mod_power_two_mod:
  fixes a :: nat
  assumes "k \<le> m"
  shows "a mod 2 ^ m mod 2 ^ k = a mod 2 ^ k"
  using assms by (simp add: mod_mod_cancel le_imp_power_dvd)

lemma candidate_hash:
  assumes "n = 2 ^ k" "k \<le> 24"
  shows "slot_hash n ((of_nat i + idx) AND HANDLE_MASK) = (i + unat idx) mod n"
proof -
  have "slot_hash n ((of_nat i + idx) AND HANDLE_MASK) = unat (of_nat i + idx) mod 2 ^ k"
    unfolding slot_hash_mod [OF assms(1)] unat_HANDLE_MASK
    using assms mod_power_two_mod [of k 24] by (simp only:)
  also have "unat (of_nat i + idx) = (i mod 2 ^ 32 + unat idx) mod 2 ^ 32"
    by (simp add: unat_word_ariths unat_of_nat)
  also have "\<dots> mod 2 ^ k = (i + unat idx) mod 2 ^ k"
    using assms mod_power_two_mod [of k 32] by (simp add: mod_add_left_eq)
  finally show ?thesis using assms by simp
qed

text \<open>The bits of a handle above the mask are the harbor's: they do not change its slot.\<close>

lemma slot_hash_harbor:
  assumes "n = 2 ^ k" "k \<le> 24" "harbor AND HANDLE_MASK = 0" "h AND HANDLE_MASK = h"
  shows "slot_hash n (h OR harbor) = slot_hash n h"
proof -
  have "(h OR harbor) AND HANDLE_MASK = h"
    using assms(3,4) by (simp add: bit.conj_disj_distrib2)
  then have "unat (h OR harbor) mod 2 ^ 24 = unat h mod 2 ^ 24"
    using assms(4) unat_HANDLE_MASK by metis
  then show ?thesis
    using assms(1,2) slot_hash_mod mod_power_two_mod by metis
qed

lemma slot_of_iff:
  assumes inv: "hs_inv ch s"
  shows "slot_of ch s h = Some c \<longleftrightarrow> c \<in> hs_ctxs s \<and> ch c = h"
proof
  assume "slot_of ch s h = Some c"
  then have "hs_slot s ! slot_hash (hs_slot_size s) h = Some c" "ch c = h"
    by (auto simp: slot_of_def split: option.splits if_splits)
  moreover have "slot_hash (hs_slot_size s) h < length (hs_slot s)"
    using inv slot_hash_less by (auto simp: hs_inv_def)
  ultimately show "c \<in> hs_ctxs s \<and> ch c = h"
    by (auto simp: hs_ctxs_def in_set_conv_nth intro: exI)
next
  assume "c \<in> hs_ctxs s \<and> ch c = h"
  then obtain i where "i < length (hs_slot s)" "hs_slot s ! i = Some c" "ch c = h"
    by (auto simp: hs_ctxs_def in_set_conv_nth)
  with inv show "slot_of ch s h = Some c"
    by (auto simp: hs_inv_def slot_of_def)
qed

lemma find_slot_Some:
  assumes inv: "hs_inv ch s" and f: "find_slot s = Some h"
  shows "h AND HANDLE_MASK = h \<and> hs_slot s ! slot_hash (hs_slot_size s) h = None"
proof -
  from f obtain i where "h = (of_nat i + hs_handle_index s) AND HANDLE_MASK"
    "hs_slot s ! slot_hash (hs_slot_size s) h = None"
    by (auto simp: find_slot_def find_Some_iff)
  then show ?thesis by (simp add: and.assoc)
qed

lemma find_slot_None:
  assumes inv: "hs_inv ch s" and f: "find_slot s = None" and i: "i < hs_slot_size s"
  shows "hs_slot s ! i \<noteq> None"
proof -
  from inv obtain k where k: "k \<le> 24" "hs_slot_size s = 2 ^ k" by (rule hs_inv_size)
  let ?n = "hs_slot_size s" and ?d = "unat (hs_handle_index s)"
  define j where "j = (i + (?n - ?d mod ?n)) mod ?n"
  have "j < ?n" using i by (simp add: j_def)
  with f have "hs_slot s ! slot_hash ?n ((of_nat j + hs_handle_index s) AND HANDLE_MASK) \<noteq> None"
    by (auto simp: find_slot_def find_None_iff)
  then have "hs_slot s ! ((j + ?d) mod ?n) \<noteq> None"
    using candidate_hash [OF k(2) k(1)] by simp
  moreover have "(j + ?d) mod ?n = i"
  proof -
    have "(j + ?d) mod ?n = (i + (?n - ?d mod ?n) + ?d mod ?n) mod ?n"
      unfolding j_def by (simp add: mod_simps)
    also have "i + (?n - ?d mod ?n) + ?d mod ?n = i + ?n"
    proof -
      have "?d mod ?n < ?n" using i by simp
      then show ?thesis by linarith
    qed
    finally show ?thesis using i by simp
  qed
  ultimately show ?thesis by simp
qed

lemma rehash_ok:
  assumes "distinct (map (\<lambda>c. slot_hash n (ch c)) cs)"
    and "\<forall>c \<in> set cs. slot_hash n (ch c) < length new \<and> new ! slot_hash n (ch c) = None"
  shows "\<exists>new'. rehash ch n (map Some cs) new = Some new' \<and> length new' = length new
           \<and> (\<forall>c \<in> set cs. new' ! slot_hash n (ch c) = Some c)
           \<and> (\<forall>i. i \<notin> (\<lambda>c. slot_hash n (ch c)) ` set cs \<longrightarrow> new' ! i = new ! i)"
  using assms
proof (induction cs arbitrary: new)
  case Nil
  then show ?case by simp
next
  case (Cons c cs)
  let ?h = "slot_hash n (ch c)"
  have "\<forall>d \<in> set cs. slot_hash n (ch d) < length (new[?h := Some c]) \<and> new[?h := Some c] ! slot_hash n (ch d) = None"
    using Cons.prems by (auto simp: nth_list_update)
  moreover have "distinct (map (\<lambda>c. slot_hash n (ch c)) cs)" using Cons.prems(1) by simp
  ultimately obtain new' where
    new': "rehash ch n (map Some cs) (new[?h := Some c]) = Some new'" "length new' = length new"
      "\<forall>d \<in> set cs. new' ! slot_hash n (ch d) = Some d"
      "\<forall>i. i \<notin> (\<lambda>c. slot_hash n (ch c)) ` set cs \<longrightarrow> new' ! i = new[?h := Some c] ! i"
    using Cons.IH [of "new[?h := Some c]"] by auto
  have notin: "?h \<notin> (\<lambda>c. slot_hash n (ch c)) ` set cs" using Cons.prems(1) by (auto simp: image_iff)
  then have h: "new' ! ?h = Some c" using new'(4) Cons.prems(2) by simp
  have "rehash ch n (map Some (c # cs)) new = Some new'" using new'(1) Cons.prems(2) by (simp add: Let_def)
  moreover have "new' ! i = new ! i" if "i \<notin> (\<lambda>c. slot_hash n (ch c)) ` set (c # cs)" for i
    using that new'(4) by simp
  ultimately show ?case using new'(2,3) h by auto
qed

lemma full_table_rehash:
  assumes inv: "hs_inv ch s" and full: "find_slot s = None" and small: "hs_slot_size s \<le> 2 ^ 23"
  shows "\<exists>new. rehash ch (hs_slot_size s * 2) (hs_slot s) (replicate (hs_slot_size s * 2) None) = Some new
           \<and> hs_inv ch (s\<lparr>hs_slot := new, hs_slot_size := hs_slot_size s * 2\<rparr>)
           \<and> {c. Some c \<in> set new} = hs_ctxs s"
proof -
  from inv obtain k where k: "2 \<le> k" "k \<le> 24" "hs_slot_size s = 2 ^ k" by (rule hs_inv_size)
  let ?n = "hs_slot_size s" and ?N = "hs_slot_size s * 2"
  have N: "?N = 2 ^ Suc k" using k by simp
  have "Suc k \<le> 24"
  proof -
    have "(2::nat) ^ k \<le> 2 ^ 23" using small k(3) by simp
    then have "k \<le> 23" by (simp only: power_increasing_iff)
    then show ?thesis by simp
  qed
  define cs where "cs = map the (hs_slot s)"
  have len: "length (hs_slot s) = ?n" using inv by (simp add: hs_inv_def)
  have sl: "hs_slot s = map Some cs"
    unfolding cs_def by (rule nth_equalityI) (use find_slot_None [OF inv full] len in auto)
  have h: "slot_hash ?n (ch (cs ! i)) = i" if "i < ?n" for i
    using inv that sl len unfolding hs_inv_def by (metis length_map nth_map)
  have fold: "slot_hash ?N g mod ?n = slot_hash ?n g" for g
    unfolding slot_hash_mod [OF N] slot_hash_mod [OF k(3)] by (simp add: mod_mod_cancel)
  have dist: "distinct (map (\<lambda>c. slot_hash ?N (ch c)) cs)"
  proof (subst distinct_conv_nth, intro allI impI)
    fix i j
    assume ij: "i < length (map (\<lambda>c. slot_hash ?N (ch c)) cs)" "j < length (map (\<lambda>c. slot_hash ?N (ch c)) cs)" "i \<noteq> j"
    then have "i < ?n" "j < ?n" using len by (auto simp: cs_def)
    with h ij(3) have "slot_hash ?n (ch (cs ! i)) \<noteq> slot_hash ?n (ch (cs ! j))" by simp
    then have "slot_hash ?N (ch (cs ! i)) \<noteq> slot_hash ?N (ch (cs ! j))" using fold by metis
    with ij show "map (\<lambda>c. slot_hash ?N (ch c)) cs ! i \<noteq> map (\<lambda>c. slot_hash ?N (ch c)) cs ! j" by simp
  qed
  have less: "slot_hash ?N g < ?N" for g by (rule slot_hash_less [OF N])
  obtain new where new: "rehash ch ?N (map Some cs) (replicate ?N None) = Some new" "length new = ?N"
      "\<forall>c \<in> set cs. new ! slot_hash ?N (ch c) = Some c"
      "\<forall>i. i \<notin> (\<lambda>c. slot_hash ?N (ch c)) ` set cs \<longrightarrow> new ! i = replicate ?N None ! i"
    using rehash_ok [OF dist, of "replicate ?N None"] less by auto
  have cell: "c \<in> set cs \<and> slot_hash ?N (ch c) = i" if "i < ?N" "new ! i = Some c" for i c
  proof -
    have "i \<in> (\<lambda>c. slot_hash ?N (ch c)) ` set cs"
      using new(4) that by (metis nth_replicate option.distinct(1))
    then show ?thesis using new(3) that(2) by auto
  qed
  have "hs_inv ch (s\<lparr>hs_slot := new, hs_slot_size := ?N\<rparr>)"
    using inv N \<open>Suc k \<le> 24\<close> k(1) new(2) cell unfolding hs_inv_def by (auto intro!: exI [of _ "Suc k"])
  moreover have "{c. Some c \<in> set new} = set cs"
  proof
    show "{c. Some c \<in> set new} \<subseteq> set cs" using cell new(2) by (auto simp: in_set_conv_nth)
    show "set cs \<subseteq> {c. Some c \<in> set new}" using new(2,3) less by (auto simp: in_set_conv_nth intro: exI)
  qed
  moreover have "set cs = hs_ctxs s" by (auto simp: hs_ctxs_def sl)
  ultimately show ?thesis using new(1) sl by auto
qed

text \<open>The slots in use; a table can hold \<open>2 ^ 24\<close> contexts.\<close>

definition hs_room :: "handle_storage \<Rightarrow> nat" where
  "hs_room s = 2 ^ 24 - length (filter (\<lambda>x. x \<noteq> None) (hs_slot s))"

lemma register_free_slot:
  assumes inv: "hs_inv ch s" and f: "find_slot s = Some h" and new: "c \<notin> hs_ctxs s"
  defines "s' \<equiv> s\<lparr>hs_slot := (hs_slot s)[slot_hash (hs_slot_size s) h := Some c], hs_handle_index := h + 1\<rparr>"
    and "k \<equiv> h OR hs_harbor s"
  shows "hs_inv (ch(c := k)) s'" "slot_of ch s k = None"
    "slot_of (ch(c := k)) s' = (slot_of ch s)(k \<mapsto> c)" "hs_room s \<le> hs_room s' + 1"
proof -
  from inv obtain e where e: "2 \<le> e" "e \<le> 24" "hs_slot_size s = 2 ^ e" by (rule hs_inv_size)
  from find_slot_Some [OF inv f] have h: "h AND HANDLE_MASK = h"
    "hs_slot s ! slot_hash (hs_slot_size s) h = None" by auto
  have hk: "slot_hash (hs_slot_size s) k = slot_hash (hs_slot_size s) h"
    unfolding k_def using inv e h by (intro slot_hash_harbor) (auto simp: hs_inv_def)
  have less: "slot_hash (hs_slot_size s) h < length (hs_slot s)"
    using inv e slot_hash_less [OF e(3)] by (simp add: hs_inv_def)
  have notin: "d \<noteq> c" if "hs_slot s ! i = Some d" "i < length (hs_slot s)" for i d
    using new that by (auto simp: hs_ctxs_def in_set_conv_nth)
  show inv': "hs_inv (ch(c := k)) s'"
    using inv hk less notin unfolding hs_inv_def s'_def by (auto simp: nth_list_update)
  show "slot_of ch s k = None" using h hk by (simp add: slot_of_def)
  define A B where "A = take (slot_hash (hs_slot_size s) h) (hs_slot s)"
    and "B = drop (Suc (slot_hash (hs_slot_size s) h)) (hs_slot s)"
  have old: "hs_slot s = A @ None # B" unfolding A_def B_def using h(2) less by (metis id_take_nth_drop)
  have upd: "hs_slot s' = A @ Some c # B"
    using less by (simp add: s'_def A_def B_def upd_conv_take_nth_drop)
  have ctxs: "hs_ctxs s' = insert c (hs_ctxs s)" by (auto simp: hs_ctxs_def old upd)
  have "slot_of (ch(c := k)) s' g = Some d \<longleftrightarrow> ((slot_of ch s)(k \<mapsto> c)) g = Some d" for g d
    using slot_of_iff [OF inv', of g d] slot_of_iff [OF inv, of g d] ctxs new \<open>slot_of ch s k = None\<close>
      slot_of_iff [OF inv, of k d] by auto
  then show "slot_of (ch(c := k)) s' = (slot_of ch s)(k \<mapsto> c)"
    by (metis (no_types, lifting) ext not_None_eq)
  have "length (filter (\<lambda>x. x \<noteq> None) (hs_slot s')) = Suc (length (filter (\<lambda>x. x \<noteq> None) (hs_slot s)))"
    by (simp add: old upd)
  then show "hs_room s \<le> hs_room s' + 1" by (simp add: hs_room_def)
qed

lemma hs_count:
  assumes inv: "hs_inv ch s"
  shows "length (filter (\<lambda>x. x \<noteq> None) (hs_slot s)) = card (hs_ctxs s)"
proof -
  let ?I = "{i. i < length (hs_slot s) \<and> hs_slot s ! i \<noteq> None}"
  have "inj_on (\<lambda>i. the (hs_slot s ! i)) ?I"
    using inv unfolding hs_inv_def inj_on_def by (auto; metis)
  moreover have "(\<lambda>i. the (hs_slot s ! i)) ` ?I = hs_ctxs s"
    by (force simp: hs_ctxs_def in_set_conv_nth image_iff)
  ultimately have "card ?I = card (hs_ctxs s)" by (metis card_image)
  then show ?thesis by (simp add: length_filter_conv_card)
qed

lemma handle_register_ok:
  assumes inv: "hs_inv ch s" and new: "c \<notin> hs_ctxs s" and room: "0 < hs_room s"
  shows "\<exists>k s'. skynet_handle_register ch c s = Some (k, s') \<and> hs_inv (ch(c := k)) s'
           \<and> slot_of ch s k = None \<and> slot_of (ch(c := k)) s' = (slot_of ch s)(k \<mapsto> c)
           \<and> hs_room s \<le> hs_room s' + 1
           \<and> hs_name s' = hs_name s \<and> hs_name_cap s' = hs_name_cap s \<and> hs_name_count s' = hs_name_count s"
proof (cases "find_slot s")
  case (Some h)
  with register_free_slot [OF inv Some new] show ?thesis
    by (subst skynet_handle_register.simps) auto
next
  case None
  from inv obtain e where e: "2 \<le> e" "e \<le> 24" "hs_slot_size s = 2 ^ e" by (rule hs_inv_size)
  have len: "length (hs_slot s) = hs_slot_size s" using inv by (simp add: hs_inv_def)
  have all: "\<forall>x \<in> set (hs_slot s). x \<noteq> None"
    using find_slot_None [OF inv None] len by (auto simp: in_set_conv_nth)
  then have cnt: "card (hs_ctxs s) = hs_slot_size s"
    using hs_count [OF inv] len filter_True [of "hs_slot s" "\<lambda>x. x \<noteq> None"] by simp
  with room have "hs_slot_size s < 2 ^ 24" using hs_count [OF inv] by (simp add: hs_room_def)
  with e have "e < 24" by (metis nat_less_le)
  then have small: "hs_slot_size s \<le> 2 ^ 23" unfolding e(3) by (intro power_increasing) auto
  from full_table_rehash [OF inv None small] obtain tab where
    tab: "rehash ch (hs_slot_size s * 2) (hs_slot s) (replicate (hs_slot_size s * 2) None) = Some tab"
      "hs_inv ch (s\<lparr>hs_slot := tab, hs_slot_size := hs_slot_size s * 2\<rparr>)" "{c. Some c \<in> set tab} = hs_ctxs s"
    by blast
  let ?s1 = "s\<lparr>hs_slot := tab, hs_slot_size := hs_slot_size s * 2\<rparr>"
  have ctxs: "hs_ctxs ?s1 = hs_ctxs s" using tab(3) by (simp add: hs_ctxs_def)
  have "slot_of ch ?s1 g = Some d \<longleftrightarrow> slot_of ch s g = Some d" for g d
    using slot_of_iff [OF tab(2)] slot_of_iff [OF inv] ctxs by simp
  then have lookup: "slot_of ch ?s1 = slot_of ch s" by (intro ext) (metis not_None_eq)
  have "find_slot ?s1 \<noteq> None"
  proof
    assume "find_slot ?s1 = None"
    then have "\<forall>x \<in> set tab. x \<noteq> None"
      using find_slot_None [OF tab(2)] tab(2) by (auto simp: in_set_conv_nth hs_inv_def)
    then have "length tab = card (hs_ctxs ?s1)"
      using hs_count [OF tab(2)] by (simp add: filter_True)
    with cnt ctxs tab(2) e show False by (simp add: hs_inv_def)
  qed
  then obtain h where h: "find_slot ?s1 = Some h" by blast
  have "hs_slot_size s * 2 - 1 \<le> unat HANDLE_MASK"
    using small by (simp add: HANDLE_MASK_def)
  then have "skynet_handle_register ch c s = skynet_handle_register ch c ?s1"
    using None tab(1) by (subst skynet_handle_register.simps) simp
  moreover have "hs_room ?s1 = hs_room s"
    using hs_count [OF inv] hs_count [OF tab(2)] ctxs by (simp add: hs_room_def)
  ultimately show ?thesis
    using register_free_slot [OF tab(2) h] new ctxs lookup h
    by (subst (asm) skynet_handle_register.simps [of ch c ?s1]) auto
qed

section \<open>The table of names is a sorted map\<close>

definition hs_names :: "handle_storage \<Rightarrow> handle_name list" where
  "hs_names s = map the (take (hs_name_count s) (hs_name s))"

definition name_key :: "handle_name \<Rightarrow> nat list" where
  "name_key n = skey (hn_name n)"

definition hs_names_inv :: "handle_storage \<Rightarrow> bool" where
  "hs_names_inv s \<longleftrightarrow>
     0 < hs_name_cap s \<and> length (hs_name s) = hs_name_cap s \<and> hs_name_count s \<le> hs_name_cap s \<and>
     (\<forall>x \<in> set (take (hs_name_count s) (hs_name s)). x \<noteq> None) \<and>
     sorted_wrt (\<lambda>a b. name_key a < name_key b) (hs_names s) \<and>
     (\<forall>n \<in> set (hs_names s). cstring (hn_name n))"

definition name_map :: "handle_storage \<Rightarrow> string \<rightharpoonup> u32" where
  "name_map s = map_of (map (\<lambda>n. (hn_name n, hn_handle n)) (hs_names s))"

lemma hs_names_nth:
  assumes "hs_names_inv s" "i < hs_name_count s"
  shows "hs_name s ! i = Some (hs_names s ! i)" "i < length (hs_names s)"
    "cstring (hn_name (hs_names s ! i))"
proof -
  from assms have le: "hs_name_count s \<le> length (hs_name s)" by (simp add: hs_names_inv_def)
  with assms have "take (hs_name_count s) (hs_name s) ! i \<noteq> None"
    unfolding hs_names_inv_def by (metis (no_types, lifting) length_take min.absorb2 nth_mem)
  then show "hs_name s ! i = Some (hs_names s ! i)" using assms(2) le by (simp add: hs_names_def)
  show len: "i < length (hs_names s)" using assms(2) le by (simp add: hs_names_def)
  then show "cstring (hn_name (hs_names s ! i))"
    using assms(1) unfolding hs_names_inv_def by (metis nth_mem)
qed

lemma hs_names_length: "hs_names_inv s \<Longrightarrow> length (hs_names s) = hs_name_count s"
  by (simp add: hs_names_def hs_names_inv_def)

text \<open>The search stops and splits the names into those below and those above the argument.\<close>

lemma name_search_ok:
  assumes inv: "hs_names_inv s" and name: "cstring name"
    and "bgn \<le> end1" "end1 \<le> hs_name_count s"
    and "\<forall>i < bgn. name_key (hs_names s ! i) < skey name"
    and "\<forall>i. end1 \<le> i \<and> i < hs_name_count s \<longrightarrow> skey name < name_key (hs_names s ! i)"
  shows "\<exists>r. name_search (hs_name s) name bgn end1 = Some r \<and>
      (case r of
         Inl i \<Rightarrow> i < hs_name_count s \<and> hn_name (hs_names s ! i) = name
       | Inr b \<Rightarrow> b \<le> hs_name_count s \<and> (\<forall>i < b. name_key (hs_names s ! i) < skey name)
           \<and> (\<forall>i. b \<le> i \<and> i < hs_name_count s \<longrightarrow> skey name < name_key (hs_names s ! i)))"
  using assms(3-6)
proof (induction "end1 - bgn" arbitrary: bgn end1 rule: less_induct)
  case less
  show ?case
  proof (cases "bgn < end1")
    case False
    with less.prems show ?thesis by (subst name_search.simps) simp
  next
    case True
    define mid where "mid = (bgn + (end1 - 1)) div 2"
    have mid: "bgn \<le> mid" "mid < end1" "mid < hs_name_count s"
      using True less.prems by (auto simp: mid_def)
    define m where "m = hs_names s ! mid"
    have cell: "hs_name s ! mid = Some m" and cs: "cstring (hn_name m)"
      using hs_names_nth [OF inv mid(3)] by (auto simp: m_def)
    note ord = strcmp_order [OF cs name, folded name_key_def]
    have sorted: "name_key (hs_names s ! i) < name_key (hs_names s ! j)" if "i < j" "j < hs_name_count s" for i j
      using inv that hs_names_length [OF inv] by (auto simp: hs_names_inv_def sorted_wrt_iff_nth_less)
    have step: "name_search (hs_name s) name bgn end1 =
        (if strcmp (hn_name m) name = 0 then Some (Inl mid)
         else if strcmp (hn_name m) name < 0 then name_search (hs_name s) name (mid + 1) end1
         else name_search (hs_name s) name bgn mid)"
      using True cell unfolding mid_def by (subst name_search.simps) (simp add: Let_def)
    consider "hn_name m = name" | "name_key m < skey name" | "skey name < name_key m"
      by (metis linorder_neqE name_key_def skey_inj)
    then show ?thesis
    proof cases
      case 1
      with step ord mid show ?thesis by (auto simp: m_def)
    next
      case 2
      have "\<forall>i < mid + 1. name_key (hs_names s ! i) < skey name"
        using 2 sorted [of _ mid] mid(3) by (metis Suc_eq_plus1 less_Suc_eq m_def order.strict_trans)
      with less.hyps [of end1 "mid + 1"] mid less.prems step ord 2 show ?thesis
        by (auto simp: name_key_def)
    next
      case 3
      have "\<forall>i. mid \<le> i \<and> i < hs_name_count s \<longrightarrow> skey name < name_key (hs_names s ! i)"
        using 3 sorted [of mid] by (metis le_neq_implies_less m_def order.strict_trans)
      with less.hyps [of mid bgn] mid less.prems step ord 3 show ?thesis
        by (auto simp: name_key_def)
    qed
  qed
qed

lemma hs_names_distinct: "hs_names_inv s \<Longrightarrow> distinct (map hn_name (hs_names s))"
proof -
  assume "hs_names_inv s"
  then have "sorted_wrt (<) (map name_key (hs_names s))"
    by (simp add: hs_names_inv_def sorted_wrt_map)
  then have "distinct (map name_key (hs_names s))" by (simp add: strict_sorted_iff)
  then show ?thesis by (simp add: distinct_map inj_on_def name_key_def)
qed

lemma name_map_Some:
  assumes "hs_names_inv s"
  shows "name_map s x = Some h \<longleftrightarrow> \<lparr>hn_name = x, hn_handle = h\<rparr> \<in> set (hs_names s)"
proof -
  have "map fst (map (\<lambda>n. (hn_name n, hn_handle n)) (hs_names s)) = map hn_name (hs_names s)" by simp
  then have "distinct (map fst (map (\<lambda>n. (hn_name n, hn_handle n)) (hs_names s)))"
    using hs_names_distinct [OF assms] by (simp only:)
  then have "name_map s x = Some h \<longleftrightarrow> (x, h) \<in> set (map (\<lambda>n. (hn_name n, hn_handle n)) (hs_names s))"
    unfolding name_map_def by (rule map_of_eq_Some_iff)
  also have "\<dots> \<longleftrightarrow> \<lparr>hn_name = x, hn_handle = h\<rparr> \<in> set (hs_names s)"
  proof
    assume "(x, h) \<in> set (map (\<lambda>n. (hn_name n, hn_handle n)) (hs_names s))"
    then obtain n where n: "n \<in> set (hs_names s)" "x = hn_name n" "h = hn_handle n" by auto
    have "n = \<lparr>hn_name = x, hn_handle = h\<rparr>" unfolding n(2,3) by simp
    with n(1) show "\<lparr>hn_name = x, hn_handle = h\<rparr> \<in> set (hs_names s)" by simp
  qed force
  finally show ?thesis .
qed

lemma name_map_None:
  "name_map s x = None \<longleftrightarrow> x \<notin> hn_name ` set (hs_names s)"
  by (simp add: name_map_def map_of_eq_None_iff image_image)

text \<open>\<open>name_pos\<close>: what one run of the search tells about a name.\<close>

lemma name_search_map:
  assumes inv: "hs_names_inv s" and name: "cstring name"
  obtains i where "name_search (hs_name s) name 0 (hs_name_count s) = Some (Inl i)"
      "hs_name s ! i = Some (hs_names s ! i)" "name_map s name = Some (hn_handle (hs_names s ! i))"
  | b where "name_search (hs_name s) name 0 (hs_name_count s) = Some (Inr b)" "b \<le> hs_name_count s"
      "name_map s name = None" "\<forall>n \<in> set (take b (hs_names s)). name_key n < skey name"
      "\<forall>n \<in> set (drop b (hs_names s)). skey name < name_key n"
proof -
  from name_search_ok [OF inv name, of 0 "hs_name_count s"] obtain r where
    r: "name_search (hs_name s) name 0 (hs_name_count s) = Some r"
      "case r of Inl i \<Rightarrow> i < hs_name_count s \<and> hn_name (hs_names s ! i) = name
       | Inr b \<Rightarrow> b \<le> hs_name_count s \<and> (\<forall>i < b. name_key (hs_names s ! i) < skey name)
           \<and> (\<forall>i. b \<le> i \<and> i < hs_name_count s \<longrightarrow> skey name < name_key (hs_names s ! i))"
    by (meson leD le0 less_nat_zero_code order_refl)
  show ?thesis
  proof (cases r)
    case (Inl i)
    with r(2) have i: "i < hs_name_count s" "hn_name (hs_names s ! i) = name" by auto
    have "\<lparr>hn_name = name, hn_handle = hn_handle (hs_names s ! i)\<rparr> = hs_names s ! i" using i(2) by simp
    then have "name_map s name = Some (hn_handle (hs_names s ! i))"
      unfolding name_map_Some [OF inv] using hs_names_nth(2) [OF inv i(1)] by (metis nth_mem)
    with Inl r(1) hs_names_nth(1) [OF inv i(1)] that(1) show ?thesis by blast
  next
    case (Inr b)
    note len = hs_names_length [OF inv]
    from Inr r(2) have b: "b \<le> hs_name_count s" "\<forall>i < b. name_key (hs_names s ! i) < skey name"
        "\<forall>i. b \<le> i \<and> i < hs_name_count s \<longrightarrow> skey name < name_key (hs_names s ! i)" by auto
    have lo: "\<forall>n \<in> set (take b (hs_names s)). name_key n < skey name"
      using b len by (auto simp: in_set_conv_nth)
    have hi: "\<forall>n \<in> set (drop b (hs_names s)). skey name < name_key n"
      using b len by (auto simp: in_set_conv_nth)
    have "name \<notin> hn_name ` set (hs_names s)"
    proof
      assume "name \<in> hn_name ` set (hs_names s)"
      then obtain n where "n \<in> set (take b (hs_names s) @ drop b (hs_names s))" "name_key n = skey name"
        by (auto simp: name_key_def)
      with lo hi show False by (metis Un_iff set_append order_less_irrefl)
    qed
    with Inr r(1) b(1) lo hi that(2) show ?thesis by (simp add: name_map_None)
  qed
qed

lemma findname_ok:
  assumes "hs_names_inv s" "cstring name"
  shows "skynet_handle_findname s name = Some (case name_map s name of None \<Rightarrow> 0 | Some h \<Rightarrow> h)"
  using assms by (rule name_search_map) (auto simp: skynet_handle_findname_def)

lemma shift_up_nth:
  assumes "n < length xs" "b \<le> n"
  shows "length (shift_up b n xs) = length xs"
    and "i < length xs \<Longrightarrow> shift_up b n xs ! i = (if b < i \<and> i \<le> n then xs ! (i - 1) else xs ! i)"
proof -
  have "length (shift_up b n xs) = length xs \<and>
      (\<forall>i < length xs. shift_up b n xs ! i = (if b < i \<and> i \<le> n then xs ! (i - 1) else xs ! i))"
    using assms
  proof (induction n arbitrary: xs)
    case (Suc n)
    show ?case
    proof (cases "Suc n > b")
      case True
      with Suc.IH [of "xs[Suc n := xs ! n]"] Suc.prems show ?thesis
        by (auto simp: nth_list_update le_Suc_eq)
    next
      case False
      with Suc.prems show ?thesis by auto
    qed
  qed simp
  then show "length (shift_up b n xs) = length xs"
    and "i < length xs \<Longrightarrow> shift_up b n xs ! i = (if b < i \<and> i \<le> n then xs ! (i - 1) else xs ! i)"
    by auto
qed

text \<open>Both ways of making room put the new name at its place and keep the others in order.\<close>

lemma insert_name_before_ok:
  fixes name :: string and h :: u32
  assumes inv: "hs_names_inv s" and b: "b \<le> hs_name_count s" and room: "hs_name_cap s \<le> 2 ^ 29"
  defines "e \<equiv> \<lparr>hn_name = name, hn_handle = h\<rparr>"
  shows "\<exists>s'. insert_name_before s name h b = Some s'
           \<and> hs_names s' = take b (hs_names s) @ e # drop b (hs_names s)
           \<and> 0 < hs_name_cap s' \<and> length (hs_name s') = hs_name_cap s' \<and> hs_name_count s' \<le> hs_name_cap s'
           \<and> (\<forall>x \<in> set (take (hs_name_count s') (hs_name s')). x \<noteq> None)
           \<and> hs_slot s' = hs_slot s \<and> hs_slot_size s' = hs_slot_size s \<and> hs_harbor s' = hs_harbor s"
proof -
  let ?n = "hs_name_count s" and ?xs = "hs_name s"
  have base: "0 < hs_name_cap s" "length ?xs = hs_name_cap s" "?n \<le> hs_name_cap s"
    using inv by (auto simp: hs_names_inv_def)
  define ys where "ys = (if ?n \<ge> hs_name_cap s
      then map (\<lambda>i. if i < b then ?xs ! i else if b < i \<and> i \<le> ?n then ?xs ! (i - 1) else None) [0..<hs_name_cap s * 2]
      else shift_up b ?n ?xs)"
  define cap where "cap = (if ?n \<ge> hs_name_cap s then hs_name_cap s * 2 else hs_name_cap s)"
  have ylen: "length ys = cap" "?n < cap"
    using base b shift_up_nth(1) [of ?n ?xs b] by (auto simp: ys_def cap_def)
  have ynth: "ys ! i = (if i < b then ?xs ! i else ?xs ! (i - 1))" if "i \<le> ?n" "i \<noteq> b" for i
    using that base b shift_up_nth(2) [of ?n ?xs b i] by (auto simp: ys_def)
  define s' where "s' = s\<lparr>hs_name_cap := cap, hs_name := ys[b := Some e], hs_name_count := ?n + 1\<rparr>"
  have res: "insert_name_before s name h b = Some s'"
    using room by (simp add: insert_name_before_def Let_def s'_def ys_def cap_def e_def MAX_SLOT_SIZE_def)
  have cell: "hs_name s' ! i = Some ((take b (hs_names s) @ e # drop b (hs_names s)) ! i)" if "i < ?n + 1" for i
  proof (cases "i = b")
    case True
    then show ?thesis using that ylen hs_names_length [OF inv] b by (simp add: s'_def nth_append)
  next
    case False
    then have "hs_name s' ! i = (if i < b then ?xs ! i else ?xs ! (i - 1))"
      using that ynth by (simp add: s'_def)
    then show ?thesis
      using that False b hs_names_nth(1) [OF inv, of i] hs_names_nth(1) [OF inv, of "i - 1"] hs_names_length [OF inv]
      by (auto simp: nth_append nth_Cons' split: if_splits)
  qed
  have lens: "hs_name_count s' = ?n + 1" "length (hs_name s') = cap" using ylen by (simp_all add: s'_def)
  have "hs_names s' = take b (hs_names s) @ e # drop b (hs_names s)"
    unfolding hs_names_def [of s'] using cell ylen(2) hs_names_length [OF inv] b
    by (intro nth_equalityI) (auto simp: lens)
  moreover have "\<forall>x \<in> set (take (hs_name_count s') (hs_name s')). x \<noteq> None"
    using cell ylen by (auto simp: in_set_conv_nth s'_def)
  ultimately show ?thesis using res base ylen by (auto simp: s'_def)
qed

lemma namehandle_ok:
  assumes inv: "hs_names_inv s" and name: "cstring name" and room: "hs_name_cap s \<le> 2 ^ 29"
  shows "\<exists>r s'. skynet_handle_namehandle h name s = Some (r, s') \<and> hs_names_inv s'
           \<and> hs_slot s' = hs_slot s \<and> hs_slot_size s' = hs_slot_size s \<and> hs_harbor s' = hs_harbor s
           \<and> (if name \<in> dom (name_map s) then r = None \<and> s' = s
              else r = Some name \<and> name_map s' = (name_map s)(name \<mapsto> h))"
  using inv name
proof (rule name_search_map)
  fix i
  assume "name_search (hs_name s) name 0 (hs_name_count s) = Some (Inl i)"
    "name_map s name = Some (hn_handle (hs_names s ! i))"
  then show ?thesis using inv by (auto simp: skynet_handle_namehandle_def insert_name_def)
next
  fix b
  assume r: "name_search (hs_name s) name 0 (hs_name_count s) = Some (Inr b)" "b \<le> hs_name_count s"
    "name_map s name = None" "\<forall>n \<in> set (take b (hs_names s)). name_key n < skey name"
    "\<forall>n \<in> set (drop b (hs_names s)). skey name < name_key n"
  let ?e = "\<lparr>hn_name = name, hn_handle = h\<rparr>"
  from insert_name_before_ok [OF inv r(2) room, of name h] obtain s' where
    s': "insert_name_before s name h b = Some s'" "hs_names s' = take b (hs_names s) @ ?e # drop b (hs_names s)"
      "0 < hs_name_cap s'" "length (hs_name s') = hs_name_cap s'" "hs_name_count s' \<le> hs_name_cap s'"
      "\<forall>x \<in> set (take (hs_name_count s') (hs_name s')). x \<noteq> None"
      "hs_slot s' = hs_slot s" "hs_slot_size s' = hs_slot_size s" "hs_harbor s' = hs_harbor s" by blast
  have "sorted_wrt (\<lambda>a b. name_key a < name_key b) (take b (hs_names s) @ drop b (hs_names s))"
    using inv by (simp add: hs_names_inv_def)
  then have "sorted_wrt (\<lambda>a b. name_key a < name_key b) (hs_names s')"
    unfolding s'(2) sorted_wrt_append using r(4,5) by (auto simp: name_key_def)
  moreover have mem: "set (hs_names s') = insert ?e (set (hs_names s))"
    unfolding s'(2) by (simp add: set_append [symmetric])
  ultimately have inv': "hs_names_inv s'"
    using s' inv name by (auto simp: hs_names_inv_def)
  have "name_map s' x = Some g \<longleftrightarrow> ((name_map s)(name \<mapsto> h)) x = Some g" for x g
    using name_map_Some [OF inv', of x g] name_map_Some [OF inv, of x g] mem r(3) by auto
  then have "name_map s' = (name_map s)(name \<mapsto> h)" by (intro ext) (metis not_None_eq)
  with r s' inv' show ?thesis
    by (auto simp: skynet_handle_namehandle_def insert_name_def)
qed

lemma retire_names_ok:
  assumes "j \<le> i" "i \<le> n" "n \<le> length xs" "\<forall>x \<in> set (drop i (take n xs)). x \<noteq> None"
  shows "\<exists>j' xs'. retire_names h n i j xs = Some (j', xs') \<and> length xs' = length xs \<and> j' \<le> n
           \<and> take j' xs' = take j xs @ filter (\<lambda>x. hn_handle (the x) \<noteq> h) (drop i (take n xs))"
  using assms
proof (induction "n - i" arbitrary: i j xs)
  case 0
  then show ?case by (subst retire_names.simps) auto
next
  case (Suc k)
  then have lt: "i < n" "i < length (take n xs)" by auto
  have dr: "drop i (take n xs) = xs ! i # drop (Suc i) (take n xs)"
    using Cons_nth_drop_Suc [OF lt(2)] lt(1) by simp
  with Suc.prems(4) obtain e where e: "xs ! i = Some e" by auto
  show ?case
  proof (cases "hn_handle e = h")
    case True
    from Suc dr have "\<exists>j' xs'. retire_names h n (i + 1) j xs = Some (j', xs') \<and> length xs' = length xs \<and> j' \<le> n
        \<and> take j' xs' = take j xs @ filter (\<lambda>x. hn_handle (the x) \<noteq> h) (drop (i + 1) (take n xs))"
      using lt(1) by (intro Suc.hyps(1)) auto
    with True lt e dr show ?thesis by (subst retire_names.simps) simp
  next
    case False
    define ys where "ys = (if i \<noteq> j then xs[j := Some e] else xs)"
    have yj: "take (Suc j) ys = take j xs @ [Some e]" "length ys = length xs"
      "drop (Suc i) (take n ys) = drop (Suc i) (take n xs)"
      using Suc.prems lt e by (auto simp: ys_def take_Suc_conv_app_nth take_update_swap drop_update_cancel list_update_beyond)
    from Suc dr yj have "\<exists>j' xs'. retire_names h n (i + 1) (j + 1) ys = Some (j', xs') \<and> length xs' = length ys \<and> j' \<le> n
        \<and> take j' xs' = take (j + 1) ys @ filter (\<lambda>x. hn_handle (the x) \<noteq> h) (drop (i + 1) (take n ys))"
      using lt(1) by (intro Suc.hyps(1)) auto
    with False lt e dr yj show ?thesis by (subst retire_names.simps) (simp add: ys_def)
  qed
qed

text \<open>Retiring a handle drops its names and no others.\<close>

lemma handle_retire_ok:
  assumes inv: "hs_inv ch s" and ninv: "hs_names_inv s"
  shows "\<exists>s'. skynet_handle_retire ch h s = Some (if slot_of ch s h = None then 0 else 1, slot_of ch s h, s')
           \<and> hs_inv ch s' \<and> hs_names_inv s' \<and> slot_of ch s' = (slot_of ch s)(h := None)
           \<and> hs_room s \<le> hs_room s'
           \<and> (slot_of ch s h \<noteq> None \<longrightarrow> name_map s' = (\<lambda>x. if name_map s x = Some h then None else name_map s x))
           \<and> (slot_of ch s h = None \<longrightarrow> s' = s)"
proof (cases "slot_of ch s h")
  case None
  with assms show ?thesis by (auto simp: skynet_handle_retire_def)
next
  case (Some c)
  from retire_names_ok [of 0 0 "hs_name_count s" "hs_name s" h] ninv obtain j xs where
    rn: "retire_names h (hs_name_count s) 0 0 (hs_name s) = Some (j, xs)" "length xs = length (hs_name s)"
      "j \<le> hs_name_count s"
      "take j xs = filter (\<lambda>x. hn_handle (the x) \<noteq> h) (take (hs_name_count s) (hs_name s))"
    by (auto simp: hs_names_inv_def)
  let ?i = "slot_hash (hs_slot_size s) h"
  define s' where "s' = s\<lparr>hs_slot := (hs_slot s)[?i := None], hs_name := xs, hs_name_count := j\<rparr>"
  have res: "skynet_handle_retire ch h s = Some (1, Some c, s')"
    using Some rn(1) by (simp add: skynet_handle_retire_def s'_def)
  from inv obtain e where e: "hs_slot_size s = 2 ^ e" by (rule hs_inv_size)
  have less: "?i < length (hs_slot s)" using inv slot_hash_less [OF e] by (simp add: hs_inv_def)
  have inv': "hs_inv ch s'"
    using inv less unfolding hs_inv_def s'_def by (auto simp: nth_list_update split: if_splits)
  have lookup: "slot_of ch s' = (slot_of ch s)(h := None)"
  proof
    fix g
    show "slot_of ch s' g = ((slot_of ch s)(h := None)) g"
      using Some less by (cases "slot_hash (hs_slot_size s) g = ?i")
        (auto simp: slot_of_def s'_def split: option.splits if_splits)
  qed
  have names: "hs_names s' = filter (\<lambda>n. hn_handle n \<noteq> h) (hs_names s)"
    using rn(4) by (simp add: hs_names_def s'_def filter_map comp_def)
  have ninv': "hs_names_inv s'"
    using ninv rn names unfolding hs_names_inv_def by (auto simp: s'_def sorted_wrt_filter)
  have iff: "\<forall>g. name_map s' x = Some g \<longleftrightarrow> name_map s x = Some g \<and> g \<noteq> h" for x
    by (simp add: name_map_Some [OF ninv'] name_map_Some [OF ninv] names)
  have nm: "name_map s' x = (if name_map s x = Some h then None else name_map s x)" for x
    using iff [of x] by (metis not_None_eq)
  have "hs_slot s' = (hs_slot s)[?i := None]" by (simp add: s'_def)
  then have "hs_ctxs s' \<subseteq> hs_ctxs s" by (auto simp: hs_ctxs_def dest: set_update_subset_insert [THEN subsetD])
  moreover have "hs_ctxs s \<subseteq> the ` set (hs_slot s)" by (force simp: hs_ctxs_def image_iff)
  then have "finite (hs_ctxs s)" by (rule finite_subset) simp
  ultimately have "card (hs_ctxs s') \<le> card (hs_ctxs s)" by (metis card_mono)
  then have "hs_room s \<le> hs_room s'" using hs_count [OF inv] hs_count [OF inv'] by (simp add: hs_room_def)
  with Some res inv' ninv' lookup nm show ?thesis by auto
qed

lemma handle_init_ok:
  "hs_inv ch (skynet_handle_init harbor)" "hs_names_inv (skynet_handle_init harbor)"
  "slot_of ch (skynet_handle_init harbor) = Map.empty" "name_map (skynet_handle_init harbor) = Map.empty"
proof -
  have "push_bit 24 (of_int harbor AND 0xff :: u32) AND mask 24 = 0"
    by (rule bit_eqI) (auto simp: bit_simps)
  moreover have "(0xffffff :: u32) = mask 24" by (simp add: mask_eq_exp_minus_1)
  ultimately have "push_bit 24 (of_int harbor AND 0xff) AND HANDLE_MASK = 0"
    by (simp add: HANDLE_MASK_def)
  then show "hs_inv ch (skynet_handle_init harbor)"
    by (auto simp: hs_inv_def skynet_handle_init_def DEFAULT_SLOT_SIZE_def HANDLE_REMOTE_SHIFT_def
        nth_Cons' intro: exI [of _ 2])
  show "hs_names_inv (skynet_handle_init harbor)" "name_map (skynet_handle_init harbor) = Map.empty"
    by (simp_all add: hs_names_inv_def skynet_handle_init_def hs_names_def name_map_def)
  have "slot_hash 4 h < 4" for h by (rule slot_hash_less [of _ 2]) simp
  then show "slot_of ch (skynet_handle_init harbor) = Map.empty"
    by (auto simp: slot_of_def skynet_handle_init_def DEFAULT_SLOT_SIZE_def)
qed

section \<open>The storage as a table of identifiers\<close>

text \<open>
  A registration is complete when the caller has stored the returned handle in the
  context (\<^verbatim>\<open>ctx->handle = skynet_handle_register(ctx)\<close>), so the state of the
  interface is the storage together with the handle fields.
\<close>

definition ht_lookup :: "(addr \<Rightarrow> u32) \<times> handle_storage \<Rightarrow> u32 \<Rightarrow> addr option" where
  "ht_lookup t = slot_of (fst t) (snd t)"

definition ht_register ::
  "addr \<Rightarrow> (addr \<Rightarrow> u32) \<times> handle_storage \<Rightarrow> (u32 \<times> (addr \<Rightarrow> u32) \<times> handle_storage) option" where
  "ht_register c t =
     map_option (\<lambda>(k, s). (k, (fst t)(c := k), s)) (skynet_handle_register (fst t) c (snd t))"

definition ht_retire ::
  "u32 \<Rightarrow> (addr \<Rightarrow> u32) \<times> handle_storage \<Rightarrow> (addr option \<times> (addr \<Rightarrow> u32) \<times> handle_storage) option" where
  "ht_retire k t = map_option (\<lambda>(r, c, s). (c, fst t, s)) (skynet_handle_retire (fst t) k (snd t))"

definition ht_inv :: "(addr \<Rightarrow> u32) \<times> handle_storage \<Rightarrow> bool" where
  "ht_inv t \<longleftrightarrow> hs_inv (fst t) (snd t) \<and> hs_names_inv (snd t)"

definition ht_room :: "(addr \<Rightarrow> u32) \<times> handle_storage \<Rightarrow> nat" where
  "ht_room t = hs_room (snd t)"

lemma hs_names_inv_cong:
  assumes "hs_name s' = hs_name s" "hs_name_cap s' = hs_name_cap s" "hs_name_count s' = hs_name_count s"
  shows "hs_names_inv s' = hs_names_inv s" "name_map s' = name_map s"
  using assms by (simp_all add: hs_names_inv_def hs_names_def name_map_def)

interpretation ht: id_table ht_lookup ht_register ht_retire ht_inv ht_room
proof unfold_locales
  fix t c
  assume inv: "ht_inv t" and c: "c \<notin> ran (ht_lookup t)" and room: "0 < ht_room t"
  obtain ch s where t: "t = (ch, s)" by (cases t)
  from inv t have hi: "hs_inv ch s" "hs_names_inv s" by (auto simp: ht_inv_def)
  have "c \<notin> hs_ctxs s"
    using c slot_of_iff [OF hi(1), of "ch c" c] by (auto simp: t ht_lookup_def ran_def)
  from handle_register_ok [OF hi(1) this] room obtain k s' where
    "skynet_handle_register ch c s = Some (k, s')" "hs_inv (ch(c := k)) s'" "slot_of ch s k = None"
    "slot_of (ch(c := k)) s' = (slot_of ch s)(k \<mapsto> c)" "hs_room s \<le> hs_room s' + 1"
    "hs_name s' = hs_name s" "hs_name_cap s' = hs_name_cap s" "hs_name_count s' = hs_name_count s"
    by (auto simp: t ht_room_def)
  with hi hs_names_inv_cong [of s' s] show "\<exists>k t'. ht_register c t = Some (k, t') \<and> ht_inv t' \<and> ht_lookup t k = None
      \<and> ht_lookup t' = (ht_lookup t)(k \<mapsto> c) \<and> ht_room t \<le> ht_room t' + 1"
    by (auto simp: t ht_register_def ht_inv_def ht_lookup_def ht_room_def)
next
  fix t k
  assume "ht_inv t"
  with handle_retire_ok [of "fst t" "snd t" k] show
    "\<exists>t'. ht_retire k t = Some (ht_lookup t k, t') \<and> ht_inv t' \<and> ht_lookup t' = (ht_lookup t)(k := None)
       \<and> ht_room t \<le> ht_room t'"
    by (auto simp: ht_retire_def ht_inv_def ht_lookup_def ht_room_def)
qed

section \<open>Properties\<close>

text \<open>
  C5: Registering up to \<open>2 ^ 24\<close> different contexts in a fresh storage never fails, however
  often the table has to grow; it hands out pairwise different handles, and afterwards
  every handle finds exactly the context it was given to and no other handle finds anything.
\<close>

theorem handle_register_all:
  assumes "distinct cs" "length cs \<le> 2 ^ 24"
  shows "\<exists>ks t. register_all ht_register cs (ch, skynet_handle_init harbor) = Some (ks, t)
           \<and> distinct ks \<and> length ks = length cs
           \<and> (\<lambda>h. skynet_handle_grab (fst t) (snd t) h) = Map.empty(ks [\<mapsto>] cs)"
proof -
  let ?t = "(ch, skynet_handle_init harbor)"
  have inv: "ht_inv ?t" and empty: "ht_lookup ?t = Map.empty"
    using handle_init_ok by (auto simp: ht_inv_def ht_lookup_def)
  have "ht_room ?t = 2 ^ 24"
    by (simp add: ht_room_def hs_room_def skynet_handle_init_def DEFAULT_SLOT_SIZE_def)
  moreover have "set cs \<inter> ran (ht_lookup ?t) = {}" unfolding empty by simp
  ultimately obtain ks t where "register_all ht_register cs ?t = Some (ks, t)" "distinct ks"
    "length ks = length cs" "ht_lookup t = (ht_lookup ?t)(ks [\<mapsto>] cs)"
    using ht.register_all_fresh [OF inv assms(1)] assms(2) by auto
  then show ?thesis unfolding empty by (intro exI conjI) (auto simp: skynet_handle_grab_def ht_lookup_def)
qed

theorem handle_register_all_witness:
  "\<exists>k1 k2 t. register_all ht_register [10, 20] (\<lambda>_. 0, skynet_handle_init 1) = Some ([k1, k2], t)
     \<and> k1 \<noteq> k2 \<and> skynet_handle_grab (fst t) (snd t) k1 = Some 10 \<and> skynet_handle_grab (fst t) (snd t) k2 = Some 20"
proof -
  from handle_register_all [of "[10, 20]" "\<lambda>_. 0" 1] obtain ks t where
    ks: "register_all ht_register [10, 20] (\<lambda>_. 0, skynet_handle_init 1) = Some (ks, t)" "distinct ks"
      "length ks = 2" "(\<lambda>h. skynet_handle_grab (fst t) (snd t) h) = Map.empty(ks [\<mapsto>] [10, 20])" by auto
  from ks(3) obtain k1 k2 where "ks = [k1, k2]"
    by (auto simp: numeral_2_eq_2 length_Suc_conv)
  with ks show ?thesis by (intro exI [of _ k1] exI [of _ k2] exI [of _ t]) (auto simp: fun_eq_iff)
qed

text \<open>
  C6: Retiring a handle in use returns 1 and the context whose reference the storage held,
  frees exactly that handle, and deletes exactly the names bound to it; retiring a
  handle that is not in use returns 0 and changes nothing.
\<close>

theorem handle_retire_exact:
  assumes "hs_inv ch s" "hs_names_inv s"
  shows "\<exists>s'. skynet_handle_retire ch h s
             = Some (if slot_of ch s h = None then 0 else 1, slot_of ch s h, s')
           \<and> slot_of ch s' = (slot_of ch s)(h := None)
           \<and> (if slot_of ch s h = None then s' = s
              else name_map s' = (\<lambda>x. if name_map s x = Some h then None else name_map s x))"
  using handle_retire_ok [OF assms, of h] by auto

theorem handle_retire_exact_witness:
  "\<exists>ch s s' h. slot_of ch s h = Some 10 \<and> skynet_handle_retire ch h s = Some (1, Some 10, s')
     \<and> slot_of ch s' h = None"
proof -
  let ?s = "skynet_handle_init 1"
  have "10 \<notin> hs_ctxs ?s" "0 < hs_room ?s"
    by (auto simp: hs_ctxs_def hs_room_def skynet_handle_init_def DEFAULT_SLOT_SIZE_def)
  from handle_register_ok [OF handle_init_ok(1) this, of "\<lambda>_. 0"] obtain k s where
    s: "hs_inv ((\<lambda>_. 0)(10 := k)) s" "slot_of ((\<lambda>_. 0)(10 := k)) s k = Some 10"
      "hs_names_inv s = hs_names_inv ?s"
    by (metis fun_upd_same hs_names_inv_cong(1))
  with handle_init_ok(2) have "hs_names_inv s" by simp
  with handle_retire_exact [OF s(1), of k] s(2) show ?thesis by fastforce
qed

text \<open>
  C7: The names are a map in which the first binding wins. Naming a handle with a fresh
  name returns the stored name, and from then on a lookup of that name answers the
  handle and a lookup of any other name what it answered before. A name in use is refused with
  \<^verbatim>\<open>NULL\<close> and nothing changes. The array stays sorted through every insertion, so
  the binary search stays right.
\<close>

theorem naming_first_wins:
  assumes "hs_names_inv s" "cstring name" "hs_name_cap s \<le> 2 ^ 29"
  shows "\<exists>r s'. skynet_handle_namehandle h name s = Some (r, s') \<and> hs_names_inv s'
           \<and> (if name \<in> dom (name_map s) then r = None \<and> s' = s
              else r = Some name
                \<and> (\<forall>x. cstring x \<longrightarrow>
                     skynet_handle_findname s' x = (if x = name then Some h else skynet_handle_findname s x)))"
proof -
  from namehandle_ok [OF assms, of h] obtain r s' where
    ns: "skynet_handle_namehandle h name s = Some (r, s')" "hs_names_inv s'"
      "if name \<in> dom (name_map s) then r = None \<and> s' = s
       else r = Some name \<and> name_map s' = (name_map s)(name \<mapsto> h)"
    by auto
  with findname_ok [OF assms(1)] findname_ok [OF ns(2)] show ?thesis by auto
qed

theorem naming_first_wins_witness:
  "\<exists>s'. skynet_handle_namehandle 7 ''launcher'' (skynet_handle_init 1) = Some (Some ''launcher'', s')
     \<and> skynet_handle_findname s' ''launcher'' = Some 7"
proof -
  have "cstring ''launcher''" by (simp add: cstring_def)
  moreover have "hs_name_cap (skynet_handle_init 1) \<le> 2 ^ 29" by (simp add: skynet_handle_init_def)
  ultimately show ?thesis
    using naming_first_wins [OF handle_init_ok(2), of "''launcher''" 1 7] handle_init_ok(4) [of 1] by auto
qed

text \<open>\<open>n\<close> times a context is registered and its handle retired again.\<close>

fun register_retire :: "addr \<Rightarrow> nat \<Rightarrow> (addr \<Rightarrow> u32) \<times> handle_storage \<Rightarrow> ((addr \<Rightarrow> u32) \<times> handle_storage) option" where
  "register_retire ctx 0 t = Some t"
| "register_retire ctx (Suc n) t = do {
     t \<leftarrow> register_retire ctx n t;
     (k, t) \<leftarrow> ht_register ctx t;
     (c, t) \<leftarrow> ht_retire k t;
     Some t
   }"

lemma init_find_slot:
  assumes "x = (skynet_handle_init 0)\<lparr>hs_handle_index := i\<rparr>"
  shows "skynet_handle_register ch c x
    = Some (i AND HANDLE_MASK, x\<lparr>hs_slot := (replicate 4 None)[slot_hash 4 (i AND HANDLE_MASK) := Some c], hs_handle_index := (i AND HANDLE_MASK) + 1\<rparr>)"
proof -
  have "slot_hash 4 h < 4" for h by (rule slot_hash_less [of _ 2]) simp
  then have "find_slot x = Some (i AND HANDLE_MASK)"
    by (simp add: assms find_slot_def skynet_handle_init_def DEFAULT_SLOT_SIZE_def upt_conv_Cons)
  then show ?thesis
    by (subst skynet_handle_register.simps) (simp add: assms skynet_handle_init_def DEFAULT_SLOT_SIZE_def)
qed

lemma register_retire_cycle:
  assumes "n < 2 ^ 24"
  shows "\<exists>ch. register_retire c n (\<lambda>_. 0, skynet_handle_init 0)
     = Some (ch, (skynet_handle_init 0)\<lparr>hs_handle_index := of_nat n + 1\<rparr>)"
  using assms
proof (induction n)
  case 0
  then show ?case by (simp add: skynet_handle_init_def)
next
  case (Suc n)
  then obtain ch where IH: "register_retire c n (\<lambda>_. 0, skynet_handle_init 0)
     = Some (ch, (skynet_handle_init 0)\<lparr>hs_handle_index := of_nat n + 1\<rparr>)" by auto
  have "unat ((of_nat n + 1 :: u32) AND HANDLE_MASK) = unat (of_nat n + 1 :: u32)"
    unfolding unat_HANDLE_MASK using Suc.prems by (simp add: unat_word_ariths unat_of_nat take_bit_eq_mod)
  then have m: "(of_nat n + 1 :: u32) AND HANDLE_MASK = of_nat n + 1" by (rule unsigned_word_eqI)
  have less: "slot_hash 4 h < 4" for h by (rule slot_hash_less [of _ 2]) simp
  have same: "(replicate 4 None)[i := None] = replicate 4 None" for i
    using list_update_id [of "replicate 4 None" i] by (cases "i < 4") (simp_all add: list_update_beyond del: list_update_id)
  show ?case
    using less [of "of_nat n + 1"] same
    by (simp add: IH ht_register_def init_find_slot [OF refl] m ht_retire_def skynet_handle_retire_def slot_of_def)
     (simp add: skynet_handle_init_def DEFAULT_SLOT_SIZE_def retire_names.simps ac_simps)
qed

lemma register_fits:
  "find_slot s = Some h \<Longrightarrow> skynet_handle_register ch c s =
     Some (h OR hs_harbor s, s\<lparr>hs_slot := (hs_slot s)[slot_hash (hs_slot_size s) h := Some c], hs_handle_index := h + 1\<rparr>)"
  by (subst skynet_handle_register.simps) simp

lemma register_grows:
  assumes "find_slot s = None" "hs_slot_size s * 2 - 1 \<le> unat HANDLE_MASK"
    "rehash ch (hs_slot_size s * 2) (hs_slot s) (replicate (hs_slot_size s * 2) None) = Some tab"
  shows "skynet_handle_register ch c s =
     skynet_handle_register ch c (s\<lparr>hs_slot := tab, hs_slot_size := hs_slot_size s * 2\<rparr>)"
  using assms by (subst skynet_handle_register.simps) simp

text \<open>
  C8: The handle 0, which the storage reserves for the system by starting the index at 1,
  is not kept back when the 24-bit index wraps: on a node with harbor 0, after
  \<open>2 ^ 24 - 1\<close> contexts have been registered and retired, the next context gets handle 0.
\<close>

theorem handle_zero_handed_out:
  "\<exists>t s. register_retire c (2 ^ 24 - 1) (\<lambda>_. 0, skynet_handle_init 0) = Some t
     \<and> skynet_handle_register (fst t) c (snd t) = Some (0, s)"
proof -
  have "(2 :: nat) ^ 24 - 1 < 2 ^ 24" by simp
  from register_retire_cycle [OF this, of c] obtain ch where
   "register_retire c (2 ^ 24 - 1) (\<lambda>_. 0, skynet_handle_init 0)
     = Some (ch, (skynet_handle_init 0)\<lparr>hs_handle_index := of_nat (2 ^ 24 - 1) + 1\<rparr>)" by blast
  moreover have "(of_nat (2 ^ 24 - 1) + 1 :: u32) AND HANDLE_MASK = 0" by (simp add: HANDLE_MASK_def)
  ultimately show ?thesis using init_find_slot [OF refl, of ch c "of_nat (2 ^ 24 - 1) + 1"] by auto
qed


end
