(* ===== verification/Calendar_Spec.thy ===== *)
theory Calendar_Spec
  imports Skynet_Prelude
begin

text \<open>
  The contract of a timer queue over a 32-bit clock: \<open>add\<close> files an event under the
  tick it is due at, \<open>tick\<close> moves the clock by one and hands out the events due then,
  in the order they were added. The client lemma is that an event added
  with delay \<open>t\<close> comes out at the \<open>t\<close>-th tick and at no other.
\<close>

fun run_ticks :: "('s \<Rightarrow> ('o list \<times> 's) option) \<Rightarrow> nat \<Rightarrow> 's \<Rightarrow> ('o list list \<times> 's) option" where
  "run_ticks tick 0 s = Some ([], s)"
| "run_ticks tick (Suc n) s = do {
     (out, s) \<leftarrow> tick s;
     (outs, s) \<leftarrow> run_ticks tick n s;
     Some (out # outs, s)
   }"

lemma tick_distinct:
  fixes c :: u32
  assumes "i < 2 ^ 32" "j < 2 ^ 32"
  shows "c + of_nat i = c + of_nat j \<longleftrightarrow> i = j"
  using assms by (simp add: word_of_nat_eq_iff take_bit_nat_eq_self)

locale calendar =
  fixes now :: "'s \<Rightarrow> u32"
    and due_at :: "'s \<Rightarrow> u32 \<Rightarrow> 'e list"
    and add :: "'e \<Rightarrow> int \<Rightarrow> 's \<Rightarrow> 's"
    and tick :: "'s \<Rightarrow> ('o list \<times> 's) option"
    and msg :: "'e \<Rightarrow> 'o"
    and invar :: "'s \<Rightarrow> bool"
  assumes add_law: "invar s \<Longrightarrow> 0 < t \<Longrightarrow> t < 2 ^ 31 \<Longrightarrow>
      invar (add e t s) \<and> now (add e t s) = now s
      \<and> due_at (add e t s) = (due_at s)(now s + of_int t := due_at s (now s + of_int t) @ [e])"
    and tick_law: "invar s \<Longrightarrow>
      \<exists>s'. tick s = Some (map msg (due_at s (now s + 1)), s') \<and> invar s' \<and> now s' = now s + 1
        \<and> due_at s' = (due_at s)(now s + 1 := [])"
begin

lemma ticks_out:
  assumes "invar s" "n < 2 ^ 32"
  shows "\<exists>s'. run_ticks tick n s = Some (map (\<lambda>i. map msg (due_at s (now s + of_nat (Suc i)))) [0..<n], s')
           \<and> invar s' \<and> now s' = now s + of_nat n"
  using assms
proof (induction n arbitrary: s)
  case 0
  then show ?case by simp
next
  case (Suc n)
  from tick_law [OF Suc.prems(1)] obtain s1 where
    s1: "tick s = Some (map msg (due_at s (now s + 1)), s1)" "invar s1" "now s1 = now s + 1"
      "due_at s1 = (due_at s)(now s + 1 := [])" by auto
  from Suc.IH [OF s1(2)] Suc.prems(2) obtain s' where
    s': "run_ticks tick n s1 = Some (map (\<lambda>i. map msg (due_at s1 (now s1 + of_nat (Suc i)))) [0..<n], s')"
      "invar s'" "now s' = now s1 + of_nat n" by auto
  have "now s + 1 + of_nat (Suc i) \<noteq> now s + 1" if "i < n" for i
    using tick_distinct [of "Suc i" 0 "now s + 1"] that Suc.prems(2) by simp
  then have "map (\<lambda>i. map msg (due_at s1 (now s1 + of_nat (Suc i)))) [0..<n]
      = map (\<lambda>i. map msg (due_at s (now s + of_nat (Suc (Suc i))))) [0..<n]"
    using s1(3,4) by (simp add: add.assoc)
  with s1 s' show ?case
    unfolding map_upt_shift by (simp add: add.assoc)
qed

lemma fires_on_tick:
  assumes "invar s" "0 < t" "t < 2 ^ 31"
  shows "\<exists>outs s'. run_ticks tick (nat t) (add e t s) = Some (outs, s') \<and> length outs = nat t
           \<and> outs ! (nat t - 1) = map msg (due_at s (now s + of_int t)) @ [msg e]
           \<and> (\<forall>i < nat t - 1. outs ! i = map msg (due_at s (now s + of_nat (Suc i))))"
proof -
  from add_law [OF assms, of e] have a: "invar (add e t s)" "now (add e t s) = now s"
    "due_at (add e t s) = (due_at s)(now s + of_int t := due_at s (now s + of_int t) @ [e])" by auto
  obtain n where n: "t = int n" "0 < n" "n < 2 ^ 31"
    using assms(2,3) by (metis nat_0_le nat_less_numeral_power_cancel_iff of_nat_0_less_iff order_less_imp_le)
  from ticks_out [OF a(1), of n] n obtain s' where
    "run_ticks tick n (add e t s)
       = Some (map (\<lambda>i. map msg (due_at (add e t s) (now s + of_nat (Suc i)))) [0..<n], s')"
    using a(2) by auto
  moreover have "now s + of_nat (Suc i) \<noteq> now s + of_int t" if "i < n - 1" for i
    using tick_distinct [of "Suc i" n "now s"] that n by simp
  ultimately show ?thesis using n a(3) by (intro exI conjI allI impI) (auto simp del: of_nat_Suc)
qed

end

end
