(* ===== verification/Timer_Wheel.thy ===== *)
theory Timer_Wheel
  imports Message_Queue Calendar_Spec
begin

text \<open>
  The timers of \<^verbatim>\<open>skynet-src/skynet_timer.c\<close>: a wheel of five levels over a 32-bit
  clock of centiseconds. The \<^verbatim>\<open>near\<close> level has one list per tick of the current
  block of 256 ticks; the four levels \<^verbatim>\<open>t\<close> have 64 lists each, every list for a block
  of \<open>2 ^ 8\<close>, \<open>2 ^ 14\<close>, \<open>2 ^ 20\<close> and \<open>2 ^ 26\<close> ticks. When the clock enters a block, its
  list is spread over the lower levels.

  A \<^verbatim>\<open>link_list\<close> is the list of its nodes: \<^verbatim>\<open>link\<close> appends at the tail pointer and
  \<^verbatim>\<open>link_clear\<close> detaches the whole list.
\<close>

section \<open>The wheel\<close>

definition TIME_NEAR_SHIFT :: nat where
  "TIME_NEAR_SHIFT = 8"

definition TIME_NEAR :: nat where
  "TIME_NEAR = 2 ^ TIME_NEAR_SHIFT"

definition TIME_LEVEL_SHIFT :: nat where
  "TIME_LEVEL_SHIFT = 6"

definition TIME_LEVEL :: nat where
  "TIME_LEVEL = 2 ^ TIME_LEVEL_SHIFT"

definition TIME_NEAR_MASK :: u32 where
  "TIME_NEAR_MASK = of_nat TIME_NEAR - 1"

definition TIME_LEVEL_MASK :: u32 where
  "TIME_LEVEL_MASK = of_nat TIME_LEVEL - 1"

record timer_event =
  te_handle :: u32
  te_session :: int

record timer_node =
  tn_expire :: u32
  tn_event :: timer_event

record timer =
  tw_near :: "timer_node list list"
  tw_t :: "timer_node list list list"
  tw_time :: u32
  tw_starttime :: u32
  tw_current :: u64
  tw_current_point :: u64

text \<open>The lists of the wheel, and the two operations on a list.\<close>

datatype slot = Near nat | Far nat nat

fun slot_get :: "timer \<Rightarrow> slot \<Rightarrow> timer_node list" where
  "slot_get T (Near i) = tw_near T ! i"
| "slot_get T (Far i j) = tw_t T ! i ! j"

fun slot_set :: "timer \<Rightarrow> slot \<Rightarrow> timer_node list \<Rightarrow> timer" where
  "slot_set T (Near i) ns = T\<lparr>tw_near := (tw_near T)[i := ns]\<rparr>"
| "slot_set T (Far i j) ns = T\<lparr>tw_t := (tw_t T)[i := (tw_t T ! i)[j := ns]]\<rparr>"

definition link_clear :: "timer \<Rightarrow> slot \<Rightarrow> timer_node list \<times> timer" where
  "link_clear T p = (slot_get T p, slot_set T p [])"

definition link :: "timer \<Rightarrow> slot \<Rightarrow> timer_node \<Rightarrow> timer" where
  "link T p node = slot_set T p (slot_get T p @ [node])"

definition timer_create_timer :: timer where
  "timer_create_timer =
     \<lparr> tw_near = replicate TIME_NEAR [], tw_t = replicate 4 (replicate TIME_LEVEL []),
       tw_time = 0, tw_starttime = 0, tw_current = 0, tw_current_point = 0 \<rparr>"

section \<open>Adding a node\<close>

text \<open>The \<^verbatim>\<open>for\<close> of \<^verbatim>\<open>add_node\<close>: the first level whose block holds both times.\<close>

function add_level :: "u32 \<Rightarrow> u32 \<Rightarrow> nat \<Rightarrow> u32 \<Rightarrow> nat" where
  "add_level time current_time i msk =
     (if i < 3
      then if time OR (msk - 1) = current_time OR (msk - 1) then i
           else add_level time current_time (i + 1) (push_bit TIME_LEVEL_SHIFT msk)
      else i)"
  by pat_completeness auto
termination by (relation "measure (\<lambda>(time, current_time, i, msk). 3 - i)") auto

definition node_slot :: "u32 \<Rightarrow> u32 \<Rightarrow> slot" where
  "node_slot current_time time =
     (if time OR TIME_NEAR_MASK = current_time OR TIME_NEAR_MASK
      then Near (unat (time AND TIME_NEAR_MASK))
      else let i = add_level time current_time 0 (push_bit TIME_LEVEL_SHIFT (of_nat TIME_NEAR))
           in Far i (unat (drop_bit (TIME_NEAR_SHIFT + i * TIME_LEVEL_SHIFT) time AND TIME_LEVEL_MASK)))"

definition add_node :: "timer_node \<Rightarrow> timer \<Rightarrow> timer" where
  "add_node node T = link T (node_slot (tw_time T) (tn_expire node)) node"

definition timer_add :: "timer_event \<Rightarrow> int \<Rightarrow> timer \<Rightarrow> timer" where
  "timer_add event time T =
     add_node \<lparr>tn_expire = of_int time + tw_time T, tn_event = event\<rparr> T"

section \<open>The clock\<close>

definition move_list :: "nat \<Rightarrow> nat \<Rightarrow> timer \<Rightarrow> timer" where
  "move_list level idx T =
     (let (current, T) = link_clear T (Far level idx) in fold add_node current T)"

text \<open>
  The \<^verbatim>\<open>while\<close> of \<^verbatim>\<open>timer_shift\<close>: the list to spread, if any. The outer option is
  \<^term>\<open>None\<close> when the loop does not end.
\<close>

partial_function (option) shift_level :: "u32 \<Rightarrow> u32 \<Rightarrow> u32 \<Rightarrow> nat \<Rightarrow> (nat \<times> nat) option option" where
  "shift_level ct msk time i =
     (if ct AND (msk - 1) = 0
      then let idx = unat (time AND TIME_LEVEL_MASK) in
           if idx \<noteq> 0 then Some (Some (i, idx))
           else shift_level ct (push_bit TIME_LEVEL_SHIFT msk) (drop_bit TIME_LEVEL_SHIFT time) (i + 1)
      else Some None)"

definition timer_shift :: "timer \<Rightarrow> timer option" where
  "timer_shift T =
     (let ct = tw_time T + 1; T = T\<lparr>tw_time := ct\<rparr> in
      if ct = 0 then Some (move_list 3 0 T)
      else map_option
        (\<lambda>r. case r of None \<Rightarrow> T | Some (i, idx) \<Rightarrow> move_list i idx T)
        (shift_level ct (of_nat TIME_NEAR) (drop_bit TIME_NEAR_SHIFT ct) 0))"

definition PTYPE_RESPONSE :: nat where
  "PTYPE_RESPONSE = 1"

definition MESSAGE_TYPE_SHIFT :: nat where
  "MESSAGE_TYPE_SHIFT = (8 - 1) * 8"

definition timer_message :: "int \<Rightarrow> skynet_message" where
  "timer_message session =
     \<lparr> msg_source = 0, msg_session = session, msg_data = 0,
       msg_sz = push_bit MESSAGE_TYPE_SHIFT (of_nat PTYPE_RESPONSE) \<rparr>"

text \<open>\<^verbatim>\<open>dispatch_list\<close>: the destinations and messages given to \<^verbatim>\<open>skynet_context_push\<close>, in order.\<close>

definition dispatch_list :: "timer_node list \<Rightarrow> (u32 \<times> skynet_message) list" where
  "dispatch_list ns =
     map (\<lambda>n. (te_handle (tn_event n), timer_message (te_session (tn_event n)))) ns"

text \<open>
  \<^verbatim>\<open>timer_execute\<close>, its \<^verbatim>\<open>while\<close> included. The lock is not held while a detached
  list is dispatched; the timers added meanwhile are steps of their own (below).
\<close>

partial_function (option) execute_loop ::
  "nat \<Rightarrow> (u32 \<times> skynet_message) list \<Rightarrow> timer \<Rightarrow> ((u32 \<times> skynet_message) list \<times> timer) option" where
  "execute_loop idx out T =
     (if slot_get T (Near idx) \<noteq> []
      then let (current, T) = link_clear T (Near idx) in execute_loop idx (out @ dispatch_list current) T
      else Some (out, T))"

definition timer_execute :: "timer \<Rightarrow> ((u32 \<times> skynet_message) list \<times> timer) option" where
  "timer_execute T = execute_loop (unat (tw_time T AND TIME_NEAR_MASK)) [] T"

definition timer_update :: "timer \<Rightarrow> ((u32 \<times> skynet_message) list \<times> timer) option" where
  "timer_update T = do {
     (out1, T) \<leftarrow> timer_execute T;
     T \<leftarrow> timer_shift T;
     (out2, T) \<leftarrow> timer_execute T;
     Some (out1 @ out2, T)
   }"

text \<open>The \<^verbatim>\<open>for\<close> of \<^verbatim>\<open>skynet_updatetime\<close>; the messages of each update are kept apart.\<close>

definition timer_updates :: "nat \<Rightarrow> timer \<Rightarrow> ((u32 \<times> skynet_message) list list \<times> timer) option" where
  "timer_updates n T = run_ticks timer_update n T"

text \<open>
  \<^verbatim>\<open>skynet_timeout\<close>: \<open>push\<close> stands for \<^verbatim>\<open>skynet_context_push\<close>, which returns whether
  the destination is gone; the result is the C return value and the new state.
\<close>

definition skynet_timeout ::
  "(u32 \<Rightarrow> skynet_message \<Rightarrow> 's \<Rightarrow> (bool \<times> 's) option) \<Rightarrow> u32 \<Rightarrow> int \<Rightarrow> int \<Rightarrow> 's \<times> timer \<Rightarrow> (int \<times> 's \<times> timer) option" where
  "skynet_timeout push handle time session st =
     (if time \<le> 0
      then do {
        (gone, s) \<leftarrow> push handle (timer_message session) (fst st);
        Some (if gone then - 1 else session, s, snd st)
      }
      else Some (session, fst st, timer_add \<lparr>te_handle = handle, te_session = session\<rparr> time (snd st)))"

text \<open>
  \<^verbatim>\<open>skynet_updatetime\<close> at the reading \<open>cp\<close> of the monotonic clock. The first
  component is the error line \<^verbatim>\<open>time diff error\<close>, when it is logged.
\<close>

definition skynet_updatetime ::
  "u64 \<Rightarrow> timer \<Rightarrow> ((u64 \<times> u64) option \<times> (u32 \<times> skynet_message) list list \<times> timer) option" where
  "skynet_updatetime cp T =
     (if cp < tw_current_point T
      then Some (Some (cp, tw_current_point T), [], T\<lparr>tw_current_point := cp\<rparr>)
      else if cp \<noteq> tw_current_point T
      then let diff = ucast (cp - tw_current_point T) :: u32;
               T = T\<lparr>tw_current_point := cp, tw_current := tw_current T + ucast diff\<rparr>
           in map_option (\<lambda>(outs, T). (None, outs, T)) (timer_updates (unat diff) T)
      else Some (None, [], T))"

definition skynet_starttime :: "timer \<Rightarrow> u32" where
  "skynet_starttime T = tw_starttime T"

definition skynet_now :: "timer \<Rightarrow> u64" where
  "skynet_now T = tw_current T"

text \<open>The clock reads are arguments: \<open>sec\<close> and \<open>cs\<close> of \<^verbatim>\<open>systime\<close>, \<open>point\<close> of \<^verbatim>\<open>gettime\<close>.\<close>

definition skynet_timer_init :: "u32 \<Rightarrow> u32 \<Rightarrow> u64 \<Rightarrow> timer" where
  "skynet_timer_init sec cs point =
     timer_create_timer\<lparr>tw_starttime := sec, tw_current := ucast cs, tw_current_point := point\<rparr>"

text \<open>Centiseconds of a \<^verbatim>\<open>timespec\<close>.\<close>

definition gettime :: "u64 \<Rightarrow> u64 \<Rightarrow> u64" where
  "gettime tv_sec tv_nsec = tv_sec * 100 + tv_nsec div 10000000"

definition systime :: "u64 \<Rightarrow> u64 \<Rightarrow> u32 \<times> u32" where
  "systime tv_sec tv_nsec = (ucast tv_sec, ucast (tv_nsec div 10000000))"

definition skynet_thread_time :: "u64 \<Rightarrow> u64 \<Rightarrow> u64" where
  "skynet_thread_time tv_sec tv_nsec = tv_sec * 1000000 + tv_nsec div (1000000000 div 1000000)"

declare add_level.simps [simp del]

section \<open>The list of a node, in arithmetic\<close>

text \<open>\<open>agree k a b\<close>: the two times lie in the same block of \<open>2 ^ k\<close> ticks.\<close>

definition agree :: "nat \<Rightarrow> nat \<Rightarrow> nat \<Rightarrow> bool" where
  "agree k a b \<longleftrightarrow> a div 2 ^ k = b div 2 ^ k"

definition slot_at :: "nat \<Rightarrow> nat \<Rightarrow> slot" where
  "slot_at c e =
     (if agree 8 e c then Near (e mod 256)
      else if agree 14 e c then Far 0 (e div 2 ^ 8 mod 64)
      else if agree 20 e c then Far 1 (e div 2 ^ 14 mod 64)
      else if agree 26 e c then Far 2 (e div 2 ^ 20 mod 64)
      else Far 3 (e div 2 ^ 26 mod 64))"

lemma unat_level_mask: "unat (w AND TIME_LEVEL_MASK) = unat w mod 64"
  using unat_and_mask [of 64 6 w] by (simp add: TIME_LEVEL_MASK_def TIME_LEVEL_def TIME_LEVEL_SHIFT_def)

lemma unat_near_mask: "unat (w AND TIME_NEAR_MASK) = unat w mod 256"
  using unat_and_mask [of 256 8 w] by (simp add: TIME_NEAR_MASK_def TIME_NEAR_def TIME_NEAR_SHIFT_def)

lemma node_slot_at: "node_slot c e = slot_at (unat c) (unat e)"
proof -
  have a: "e OR (2 ^ k - 1) = c OR (2 ^ k - 1) \<longleftrightarrow> agree k (unat e) (unat c)" for k
    using or_mask_eq_iff [of "2 ^ k" k e c] by (simp add: agree_def)
  have n: "e OR TIME_NEAR_MASK = c OR TIME_NEAR_MASK \<longleftrightarrow> agree 8 (unat e) (unat c)"
    using a [of 8] by (simp add: TIME_NEAR_MASK_def TIME_NEAR_def TIME_NEAR_SHIFT_def)
  have "add_level e c 0 (push_bit TIME_LEVEL_SHIFT (of_nat TIME_NEAR))
      = (if agree 14 (unat e) (unat c) then 0 else if agree 20 (unat e) (unat c) then 1
         else if agree 26 (unat e) (unat c) then 2 else 3)"
    using a [of 14] a [of 20] a [of 26]
    by (simp add: add_level.simps TIME_LEVEL_SHIFT_def TIME_NEAR_def TIME_NEAR_SHIFT_def)
  then show ?thesis
    unfolding node_slot_def slot_at_def n
    by (simp add: Let_def unat_near_mask unat_level_mask unat_drop_bit TIME_NEAR_SHIFT_def TIME_LEVEL_SHIFT_def)
qed

text \<open>The list that \<^verbatim>\<open>timer_shift\<close> spreads when the clock becomes \<open>c\<close>.\<close>

definition shift_at :: "nat \<Rightarrow> (nat \<times> nat) option" where
  "shift_at c =
     (if c mod 2 ^ 8 \<noteq> 0 then None
      else if c div 2 ^ 8 mod 64 \<noteq> 0 then Some (0, c div 2 ^ 8 mod 64)
      else if c div 2 ^ 14 mod 64 \<noteq> 0 then Some (1, c div 2 ^ 14 mod 64)
      else if c div 2 ^ 20 mod 64 \<noteq> 0 then Some (2, c div 2 ^ 20 mod 64)
      else Some (3, c div 2 ^ 26 mod 64))"

lemma digit_zero: "c mod 2 ^ k = 0 \<Longrightarrow> c div 2 ^ k mod 64 = 0 \<longleftrightarrow> c mod 2 ^ (k + 6) = (0 :: nat)"
  by (simp add: power_add mod_mult2_eq)

lemma shift_level_step:
  "shift_level ct (2 ^ k) (drop_bit k ct) i =
     (if unat ct mod 2 ^ k = 0
      then if unat ct div 2 ^ k mod 64 \<noteq> 0 then Some (Some (i, unat ct div 2 ^ k mod 64))
           else shift_level ct (2 ^ (k + 6)) (drop_bit (k + 6) ct) (i + 1)
      else Some None)"
proof -
  have "ct AND (2 ^ k - 1) = 0 \<longleftrightarrow> unat (ct AND (2 ^ k - 1)) = 0" by (metis unsigned_0 unsigned_word_eqI)
  then have m: "ct AND (2 ^ k - 1) = 0 \<longleftrightarrow> unat ct mod 2 ^ k = 0"
    using unat_and_mask [of "2 ^ k" k ct] by simp
  have d: "drop_bit TIME_LEVEL_SHIFT (drop_bit k ct) = drop_bit (k + 6) ct"
    "push_bit TIME_LEVEL_SHIFT (2 ^ k :: u32) = 2 ^ (k + 6)"
    by (simp_all add: TIME_LEVEL_SHIFT_def add.commute push_bit_eq_mult power_add)
  have u: "unat (drop_bit k ct AND TIME_LEVEL_MASK) = unat ct div 2 ^ k mod 64"
    by (simp only: unat_level_mask unat_drop_bit)
  show ?thesis by (subst shift_level.simps) (simp only: Let_def m d u)
qed

lemma shift_level_at:
  assumes "ct \<noteq> 0"
  shows "shift_level ct (of_nat TIME_NEAR) (drop_bit TIME_NEAR_SHIFT ct) 0 = Some (shift_at (unat ct))"
proof -
  let ?c = "unat ct"
  note d = digit_zero [of ?c 8] digit_zero [of ?c 14] digit_zero [of ?c 20] digit_zero [of ?c 26]
  have "?c < 2 ^ LENGTH(32)" by (rule unsigned_less)
  then have "?c mod 2 ^ 32 = ?c" by simp
  moreover have "?c \<noteq> 0" using assms by (metis unsigned_0 unsigned_word_eqI)
  ultimately have nz: "?c mod 2 ^ 32 \<noteq> 0" by simp
  have "(of_nat TIME_NEAR :: u32) = 2 ^ 8" "TIME_NEAR_SHIFT = 8"
    by (simp_all add: TIME_NEAR_def TIME_NEAR_SHIFT_def)
  moreover have "shift_level ct (2 ^ 8) (drop_bit 8 ct) 0 = Some (shift_at ?c)"
  proof (cases "?c mod 2 ^ 8 = 0")
    case z8: True
    have s8: "shift_level ct (2 ^ 8) (drop_bit 8 ct) 0 = (if ?c div 2 ^ 8 mod 64 \<noteq> 0
      then Some (Some (0, ?c div 2 ^ 8 mod 64)) else shift_level ct (2 ^ 14) (drop_bit 14 ct) 1)"
      using shift_level_step [of ct 8 0] z8 by simp
    have s14: "shift_level ct (2 ^ 14) (drop_bit 14 ct) 1 = (if ?c div 2 ^ 14 mod 64 \<noteq> 0
      then Some (Some (1, ?c div 2 ^ 14 mod 64)) else shift_level ct (2 ^ 20) (drop_bit 20 ct) 2)"
      if "?c mod 2 ^ 14 = 0" using shift_level_step [of ct 14 1] that by (simp add: numeral_2_eq_2)
    have s20: "shift_level ct (2 ^ 20) (drop_bit 20 ct) 2 = (if ?c div 2 ^ 20 mod 64 \<noteq> 0
      then Some (Some (2, ?c div 2 ^ 20 mod 64)) else shift_level ct (2 ^ 26) (drop_bit 26 ct) 3)"
      if "?c mod 2 ^ 20 = 0" using shift_level_step [of ct 20 2] that by (simp add: numeral_3_eq_3 numeral_2_eq_2)
    have s26: "shift_level ct (2 ^ 26) (drop_bit 26 ct) 3 = Some (Some (3, ?c div 2 ^ 26 mod 64))"
      if "?c mod 2 ^ 26 = 0" using shift_level_step [of ct 26 3] that d(4) nz by simp
    show ?thesis
      unfolding shift_at_def s8 using z8 d s14 s20 s26 by (simp del: power_numeral)
  qed (use shift_level_step [of ct 8 0] in \<open>simp add: shift_at_def\<close>)
  ultimately show ?thesis by simp
qed

lemma agree_up: "agree k a b \<Longrightarrow> k \<le> l \<Longrightarrow> agree l a b"
  using div_mult2_eq [of _ "2 ^ k" "2 ^ (l - k)"]
  unfolding agree_def by (metis le_add_diff_inverse power_add)


lemma block_end:
  assumes "Suc c mod 2 ^ k = 0" "agree k e c"
  shows "e \<le> c" "c - e < 2 ^ k"
proof -
  from assms(1) have "Suc c div 2 ^ k = Suc (c div 2 ^ k)" by (simp add: div_Suc)
  with assms(1) have c: "Suc c = (c div 2 ^ k) * 2 ^ k + 2 ^ k"
    by (metis add.commute add.right_neutral div_mult_mod_eq mult_Suc)
  have e: "e = (c div 2 ^ k) * 2 ^ k + e mod 2 ^ k"
    using assms(2) unfolding agree_def by (metis div_mult_mod_eq)
  have "e mod 2 ^ k < 2 ^ k" by simp
  with c e show "e \<le> c" "c - e < 2 ^ k" by linarith+
qed

lemma agree_Suc:
  "agree k e (Suc c) = (if Suc c mod 2 ^ k = 0 then e div 2 ^ k = Suc (c div 2 ^ k) else agree k e c)"
  by (simp add: agree_def div_Suc)

text \<open>
  When the clock enters a block, only the nodes of that block have to move, as long as
  no node is due now or lies behind the clock.
\<close>

lemma shift_at_level:
  assumes "Suc c mod 2 ^ k = 0" "l = k + 6" "k = 26 \<or> Suc c mod 2 ^ l \<noteq> 0" "k = 8 + 6 * i" "i \<le> 3"
  shows "shift_at (Suc c) = Some (i, Suc c div 2 ^ k mod 64)"
proof -
  have lower: "Suc c mod 2 ^ j = 0" if "j \<le> k" for j
    using assms(1) that by (metis dvd_imp_mod_0 le_imp_power_dvd mod_0_imp_dvd dvd_trans)
  have nz: "k \<noteq> 26 \<Longrightarrow> Suc c div 2 ^ k mod 64 \<noteq> 0" using assms digit_zero by metis
  have z: "Suc c div 2 ^ j mod 64 = 0" if "j + 6 \<le> k" for j
    using digit_zero [of "Suc c" j] lower [of j] lower [of "j + 6"] that by simp
  from assms(5) consider "i = 0" | "i = 1" | "i = 2" | "i = 3" by linarith
  then show ?thesis
    by cases (use assms(4) lower [of 8] nz z [of 8] z [of 14] z [of 20] in \<open>simp_all add: shift_at_def\<close>)
qed

lemma shift_at_cases:
  obtains "shift_at (Suc c) = None" "\<And>k. 8 \<le> k \<Longrightarrow> Suc c mod 2 ^ k \<noteq> 0"
  | i k where "i \<le> 3" "k = 8 + 6 * i" "Suc c mod 2 ^ k = 0" "shift_at (Suc c) = Some (i, Suc c div 2 ^ k mod 64)"
      "\<And>l. k < l \<Longrightarrow> l \<in> {14, 20, 26} \<Longrightarrow> Suc c mod 2 ^ l \<noteq> 0"
proof -
  have up: "Suc c mod 2 ^ l \<noteq> 0" if "Suc c mod 2 ^ k \<noteq> 0" "k \<le> l" for k l
    using that by (metis dvd_imp_mod_0 le_imp_power_dvd mod_0_imp_dvd dvd_trans)
  consider "Suc c mod 2 ^ 8 \<noteq> 0" | "Suc c mod 2 ^ 8 = 0" "Suc c mod 2 ^ 14 \<noteq> 0"
    | "Suc c mod 2 ^ 14 = 0" "Suc c mod 2 ^ 20 \<noteq> 0" | "Suc c mod 2 ^ 20 = 0" "Suc c mod 2 ^ 26 \<noteq> 0"
    | "Suc c mod 2 ^ 26 = 0" by blast
  then show ?thesis
  proof cases
    case 1
    then have "shift_at (Suc c) = None" by (simp add: shift_at_def)
    then show ?thesis using that(1) up [OF 1] by blast
  next
    case 2
    have "shift_at (Suc c) = Some (0, Suc c div 2 ^ 8 mod 64)"
      by (rule shift_at_level [of c 8 14 0]) (use 2 in simp_all)
    moreover have "Suc c mod 2 ^ l \<noteq> 0" if "8 < l" "l \<in> {14, 20, 26}" for l
      using up [OF 2(2), of l] that by auto
    ultimately show ?thesis using 2(1) by (intro that(2) [of 0 8]) simp_all
  next
    case 3
    have "shift_at (Suc c) = Some (1, Suc c div 2 ^ 14 mod 64)"
      by (rule shift_at_level [of c 14 20 1]) (use 3 in simp_all)
    moreover have "Suc c mod 2 ^ l \<noteq> 0" if "14 < l" "l \<in> {14, 20, 26}" for l
      using up [OF 3(2), of l] that by auto
    ultimately show ?thesis using 3(1) by (intro that(2) [of 1 14]) simp_all
  next
    case 4
    have "shift_at (Suc c) = Some (2, Suc c div 2 ^ 20 mod 64)"
      by (rule shift_at_level [of c 20 26 2]) (use 4 in simp_all)
    moreover have "Suc c mod 2 ^ l \<noteq> 0" if "20 < l" "l \<in> {14, 20, 26}" for l
      using up [OF 4(2), of l] that by auto
    ultimately show ?thesis using 4(1) by (intro that(2) [of 2 20]) simp_all
  next
    case 5
    have "shift_at (Suc c) = Some (3, Suc c div 2 ^ 26 mod 64)"
      by (rule shift_at_level [of c 26 32 3]) (use 5 in simp_all)
    moreover have "Suc c mod 2 ^ l \<noteq> 0" if "26 < l" "l \<in> {14, 20, 26}" for l
      using that by simp
    ultimately show ?thesis using 5 by (intro that(2) [of 3 26]) simp_all
  qed
qed

lemma slot_at_shift:
  assumes ahead: "\<And>k. k \<le> 26 \<Longrightarrow> Suc c mod 2 ^ k = 0 \<Longrightarrow> \<not> agree k e c"
    and moved: "slot_at (Suc c) e \<noteq> slot_at c e"
  shows "\<exists>i j. shift_at (Suc c) = Some (i, j) \<and> slot_at c e = Far i j"
proof (rule shift_at_cases [of c])
  assume "\<And>k. 8 \<le> k \<Longrightarrow> Suc c mod 2 ^ k \<noteq> 0"
  then have same: "agree k e (Suc c) = agree k e c" if "8 \<le> k" for k
    using that unfolding agree_Suc by (metis (no_types))
  have "slot_at (Suc c) e = slot_at c e"
    by (simp add: slot_at_def same [of 8] same [of 14] same [of 20] same [of 26])
  with moved show ?thesis ..
next
  fix i k
  assume k: "i \<le> 3" "k = 8 + 6 * i" "Suc c mod 2 ^ k = 0" "shift_at (Suc c) = Some (i, Suc c div 2 ^ k mod 64)"
    "\<And>l. k < l \<Longrightarrow> l \<in> {14, 20, 26} \<Longrightarrow> Suc c mod 2 ^ l \<noteq> 0"
  from k(1,2) have "k \<le> 26" by simp
  then have "\<not> agree k e c" using ahead k(3) by simp
  then have low: "\<not> agree j e c" if "j \<le> k" for j using that agree_up [of j e c k] by auto
  have same: "agree l e (Suc c) = agree l e c" if "k < l" "l \<in> {14, 20, 26}" for l
    using k(5) [OF that] by (simp add: agree_Suc)
  have hit: "agree k e (Suc c)"
  proof (rule ccontr)
    assume "\<not> agree k e (Suc c)"
    then have "\<not> agree j e (Suc c)" if "j \<le> k" for j using that agree_up [of j e "Suc c" k] by auto
    then have all: "agree j e (Suc c) = agree j e c" if "j \<le> k \<or> j \<in> {14, 20, 26}" for j
      using that low [of j] same [of j] by (metis linorder_not_less)
    have "8 \<le> k" using k(2) by simp
    then have "slot_at (Suc c) e = slot_at c e"
      unfolding slot_at_def by (simp add: all [of 8] all [of 14] all [of 20] all [of 26])
    with moved show False ..
  qed
  then have d: "e div 2 ^ k = Suc c div 2 ^ k" by (simp add: agree_def)
  have "slot_at c e = Far i (e div 2 ^ k mod 64)"
  proof -
    have above: "agree l e c" if "k < l" "l \<in> {14, 20, 26}" for l
      using same [OF that] agree_up [OF hit] that by simp
    from k(1) consider "i = 0" | "i = 1" | "i = 2" | "i = 3" by linarith
    then show ?thesis
      by cases (use k(2) low [of 8] low [of 14] low [of 20] low [of 26] above [of 14] above [of 20] above [of 26]
        in \<open>simp_all add: slot_at_def\<close>)
  qed
  with k(4) d show ?thesis by simp
qed

lemma unat_diff_behind:
  fixes a b :: "'a::len word"
  assumes "unat a < unat b"
  shows "unat (a - b) = 2 ^ LENGTH('a) - (unat b - unat a)"
proof -
  have "a < b" using assms by (simp add: word_less_nat_alt)
  then show ?thesis using unat_sub_if_size [of a b] assms by (simp add: word_size)
qed

lemma node_slot_shift:
  fixes c e :: u32
  assumes due: "e \<noteq> c" and near: "unat (e - c) < 2 ^ 31"
    and moved: "node_slot (c + 1) e \<noteq> node_slot c e"
  shows "\<exists>i j. shift_at (unat (c + 1)) = Some (i, j) \<and> node_slot c e = Far i j"
proof (cases "c + 1 = 0")
  case True
  then have c: "c = - 1" by (simp add: eq_neg_iff_add_eq_0)
  then have uc: "unat c = 2 ^ 32 - 1" by (simp add: unsigned_minus_1_eq_mask mask_eq_exp_minus_1)
  have "unat e < 2 ^ LENGTH(32)" by (rule unsigned_less)
  moreover have "unat e \<noteq> unat c" using due by (metis unsigned_word_eqI)
  ultimately have "unat e < unat c" using uc by simp
  with unat_diff_behind [OF this] near uc have "unat e < 2 ^ 31" by simp
  then have e: "unat e div 2 ^ 26 < 32" by (simp add: less_mult_imp_div_less)
  then have "\<not> agree 26 (unat e) (unat c)" by (simp add: agree_def uc)
  then have no: "\<not> agree k (unat e) (unat c)" if "k \<le> 26" for k using agree_up that by blast
  have no0: "\<not> agree k (unat e) 0" if "k \<le> 26" "\<not> agree 26 (unat e) 0" for k using agree_up that by blast
  have far: "slot_at (unat c) (unat e) = Far 3 (unat e div 2 ^ 26 mod 64)"
    using no [of 8] no [of 14] no [of 20] no [of 26] by (simp add: slot_at_def)
  have "agree 26 (unat e) 0"
  proof (rule ccontr)
    assume "\<not> agree 26 (unat e) 0"
    then have "slot_at 0 (unat e) = Far 3 (unat e div 2 ^ 26 mod 64)"
      using no0 [of 8] no0 [of 14] no0 [of 20] by (simp add: slot_at_def)
    with moved far True show False by (simp add: node_slot_at)
  qed
  then have "slot_at (unat c) (unat e) = Far 3 0" using far by (simp add: agree_def)
  with True show ?thesis by (simp add: node_slot_at shift_at_def)
next
  case False
  then have suc: "unat (c + 1) = Suc (unat c)" by (metis add.commute unatSuc)
  have ahead: "\<not> agree k (unat e) (unat c)" if k: "k \<le> 26" "Suc (unat c) mod 2 ^ k = 0" for k
  proof
    assume "agree k (unat e) (unat c)"
    from block_end [OF k(2) this] have le: "unat e \<le> unat c" "unat c - unat e < 2 ^ k" by auto
    have "(2::nat) ^ k \<le> 2 ^ 26" using k(1) by (intro power_increasing) auto
    moreover have "unat e < unat c" using le(1) due by (metis nat_less_le unsigned_word_eqI)
    ultimately show False using near le(2) unat_diff_behind [of e c] by simp
  qed
  from slot_at_shift [OF ahead] moved show ?thesis by (simp add: node_slot_at suc)
qed


section \<open>The invariant of the wheel, and the timers it holds\<close>

fun slot_ok :: "slot \<Rightarrow> bool" where
  "slot_ok (Near i) \<longleftrightarrow> i < 256"
| "slot_ok (Far i j) \<longleftrightarrow> i < 4 \<and> j < 64"

definition tw_shape :: "timer \<Rightarrow> bool" where
  "tw_shape T \<longleftrightarrow> length (tw_near T) = 256 \<and> length (tw_t T) = 4 \<and> (\<forall>i < 4. length (tw_t T ! i) = 64)"

definition tw_inv :: "timer \<Rightarrow> bool" where
  "tw_inv T \<longleftrightarrow> tw_shape T \<and>
     (\<forall>p n. slot_ok p \<longrightarrow> n \<in> set (slot_get T p) \<longrightarrow>
        p = node_slot (tw_time T) (tn_expire n) \<and> unat (tn_expire n - tw_time T) < 2 ^ 31)"

text \<open>The events due at a tick, in the order they were added.\<close>

definition due :: "u32 \<Rightarrow> timer_node list \<Rightarrow> timer_node list" where
  "due e ns = filter (\<lambda>n. tn_expire n = e) ns"

definition pending :: "timer \<Rightarrow> u32 \<Rightarrow> timer_event list" where
  "pending T e = map tn_event (due e (slot_get T (node_slot (tw_time T) e)))"

lemma slot_ok_node_slot [simp]: "slot_ok (node_slot c e)"
  by (simp add: node_slot_at slot_at_def)

lemma slot_get_set [tw_simps]:
  "tw_shape T \<Longrightarrow> slot_ok p \<Longrightarrow> slot_ok q \<Longrightarrow> slot_get (slot_set T p ns) q = (if p = q then ns else slot_get T q)"
  by (cases p; cases q) (auto simp: tw_shape_def nth_list_update)

lemma slot_set_other [tw_simps]:
  "tw_time (slot_set T p ns) = tw_time T" "tw_shape T \<Longrightarrow> slot_ok p \<Longrightarrow> tw_shape (slot_set T p ns)"
proof -
  show "tw_time (slot_set T p ns) = tw_time T" by (cases p) simp_all
  show "tw_shape T \<Longrightarrow> slot_ok p \<Longrightarrow> tw_shape (slot_set T p ns)" by (cases p) (auto simp: tw_shape_def nth_list_update)
qed

lemma add_node_slots [tw_simps]:
  assumes "tw_shape T"
  shows "tw_shape (add_node n T)" "tw_time (add_node n T) = tw_time T"
    "slot_ok q \<Longrightarrow> slot_get (add_node n T) q
       = slot_get T q @ (if q = node_slot (tw_time T) (tn_expire n) then [n] else [])"
  using assms by (auto simp: add_node_def link_def tw_simps)

lemma fold_add_node [tw_simps]:
  assumes "tw_shape T"
  shows "tw_shape (fold add_node ns T)" "tw_time (fold add_node ns T) = tw_time T"
    "slot_ok q \<Longrightarrow> slot_get (fold add_node ns T) q
       = slot_get T q @ filter (\<lambda>n. node_slot (tw_time T) (tn_expire n) = q) ns"
  using assms by (induction ns arbitrary: T) (auto simp: tw_simps)

lemma move_list_slots [tw_simps]:
  assumes "tw_shape T" "slot_ok (Far i j)"
  shows "tw_shape (move_list i j T)" "tw_time (move_list i j T) = tw_time T"
    "slot_ok q \<Longrightarrow> slot_get (move_list i j T) q = (if q = Far i j then [] else slot_get T q)
       @ filter (\<lambda>n. node_slot (tw_time T) (tn_expire n) = q) (slot_get T (Far i j))"
  using assms by (auto simp: move_list_def link_clear_def tw_simps simp del: slot_set.simps slot_get.simps)


section \<open>The operations keep the invariant\<close>

lemma tw_inv_due:
  assumes "tw_inv T" "slot_ok p" "due e (slot_get T p) \<noteq> []"
  shows "p = node_slot (tw_time T) e" "unat (e - tw_time T) < 2 ^ 31"
proof -
  from assms(3) obtain n where "n \<in> set (slot_get T p)" "tn_expire n = e"
    unfolding due_def by (metis (mono_tags, lifting) filter_False)
  with assms(1,2) show "p = node_slot (tw_time T) e" "unat (e - tw_time T) < 2 ^ 31"
    unfolding tw_inv_def by blast+
qed

lemma due_Nil [simp]: "due e [] = []"
  by (simp add: due_def)

lemma due_append [tw_simps]: "due e (xs @ ys) = due e xs @ due e ys"
  by (simp add: due_def)

lemma due_moved [tw_simps]: "due e (filter (\<lambda>n. node_slot c (tn_expire n) = q) ns) = (if q = node_slot c e then due e ns else [])"
  by (auto simp: due_def filter_empty_conv intro: filter_cong)

lemma timer_add_ok:
  assumes inv: "tw_inv T" and t: "0 \<le> t" "t < 2 ^ 31"
  shows "tw_inv (timer_add ev t T)" "tw_time (timer_add ev t T) = tw_time T"
    "pending (timer_add ev t T) = (pending T)(tw_time T + of_int t := pending T (tw_time T + of_int t) @ [ev])"
proof -
  let ?n = "\<lparr>tn_expire = of_int t + tw_time T, tn_event = ev\<rparr>"
  have sh: "tw_shape T" using inv by (simp add: tw_inv_def)
  obtain k where "t = int k" using t(1) by (metis nat_eq_iff2)
  then have "unat (of_int t :: u32) < 2 ^ 31"
    using t(2) by (simp add: unsigned_of_nat take_bit_nat_eq_self)
  then show "tw_inv (timer_add ev t T)"
    using inv sh unfolding tw_inv_def timer_add_def by (auto simp: tw_simps split: if_splits)
  show "tw_time (timer_add ev t T) = tw_time T" using sh by (simp add: timer_add_def tw_simps)
  show "pending (timer_add ev t T) = (pending T)(tw_time T + of_int t := pending T (tw_time T + of_int t) @ [ev])"
    using sh by (auto simp: fun_eq_iff pending_def timer_add_def tw_simps due_def add.commute)
qed

lemma timer_shift_eq:
  "timer_shift T = Some (case shift_at (unat (tw_time T + 1)) of
     None \<Rightarrow> T\<lparr>tw_time := tw_time T + 1\<rparr>
   | Some (i, j) \<Rightarrow> move_list i j (T\<lparr>tw_time := tw_time T + 1\<rparr>))"
  using shift_level_at [of "tw_time T + 1"]
  by (auto simp: timer_shift_def Let_def shift_at_def split: option.splits)

lemma shift_at_ok: "shift_at c = Some (i, j) \<Longrightarrow> slot_ok (Far i j)"
  by (auto simp: shift_at_def split: if_splits)

lemma slot_get_time [simp]: "slot_get (T\<lparr>tw_time := c\<rparr>) p = slot_get T p" "tw_shape (T\<lparr>tw_time := c\<rparr>) = tw_shape T"
  by (cases p; simp add: tw_shape_def)+


lemma unat_step_closer:
  fixes e c :: u32
  assumes "e \<noteq> c"
  shows "unat (e - (c + 1)) < unat (e - c)"
proof -
  have "e - c \<noteq> 0" using assms by simp
  moreover have "e - (c + 1) = (e - c) - 1" by simp
  ultimately show ?thesis using measure_unat by metis
qed

lemma timer_shift_ok:
  assumes inv: "tw_inv T" and fired: "pending T (tw_time T) = []"
  shows "\<exists>T'. timer_shift T = Some T' \<and> tw_inv T' \<and> tw_time T' = tw_time T + 1 \<and> pending T' = pending T"
proof -
  let ?c = "tw_time T"
  let ?T = "T\<lparr>tw_time := ?c + 1\<rparr>"
  have sh: "tw_shape T" using inv by (simp add: tw_inv_def)
  define M where "M = map_option (\<lambda>(i, j). Far i j) (shift_at (unat (?c + 1)))"
  obtain T' where T': "timer_shift T = Some T'" by (simp add: timer_shift_eq)
  have get: "slot_get T' q = (if Some q = M then [] else slot_get T q)
      @ (case M of None \<Rightarrow> [] | Some p \<Rightarrow> filter (\<lambda>n. node_slot (?c + 1) (tn_expire n) = q) (slot_get T p))"
    and time: "tw_time T' = ?c + 1" and sh': "tw_shape T'" if "slot_ok q" for q
    using T' that sh shift_at_ok unfolding timer_shift_eq M_def
    by (auto simp: tw_simps simp del: slot_get.simps slot_ok.simps split: option.splits prod.splits)
  have M_ok: "slot_ok p" if "M = Some p" for p
    using that shift_at_ok by (auto simp: M_def simp del: slot_ok.simps)
  have ne: "e \<noteq> ?c" if "slot_ok p" "due e (slot_get T p) \<noteq> []" for e p
    using tw_inv_due [OF inv that] that fired by (auto simp: pending_def)
  have stays: "node_slot (?c + 1) e = p \<or> M = Some p" if p: "slot_ok p" "due e (slot_get T p) \<noteq> []" for e p
  proof (rule ccontr)
    assume "\<not> (node_slot (?c + 1) e = p \<or> M = Some p)"
    with node_slot_shift [OF ne [OF p] tw_inv_due(2) [OF inv p]] tw_inv_due(1) [OF inv p] show False
      by (auto simp: M_def)
  qed
  have keep: "due e (slot_get T' (node_slot (?c + 1) e)) = due e (slot_get T (node_slot ?c e))" for e
  proof -
    have none: "due e (slot_get T p) = []" if "slot_ok p" "p \<noteq> node_slot ?c e" for p
      using tw_inv_due(1) [OF inv that(1)] that(2) by blast
    have eq: "due e (slot_get T' (node_slot (?c + 1) e))
        = (if Some (node_slot (?c + 1) e) = M then [] else due e (slot_get T (node_slot (?c + 1) e)))
          @ (case M of None \<Rightarrow> [] | Some p \<Rightarrow> due e (slot_get T p))"
      using get [of "node_slot (?c + 1) e"] by (simp add: tw_simps split: option.splits)
    show ?thesis
    proof (cases "due e (slot_get T (node_slot ?c e)) = []")
      case True
      with none have "due e (slot_get T p) = []" if "slot_ok p" for p using that by (cases "p = node_slot ?c e") auto
      with M_ok show ?thesis unfolding eq True by (auto split: option.splits)
    next
      case False
      from stays [OF _ False] none M_ok show ?thesis unfolding eq by (auto split: option.splits)
    qed
  qed
  have "tw_inv T'" unfolding tw_inv_def
  proof (intro conjI allI impI)
    show "tw_shape T'" using sh' [of "Near 0"] by simp
    fix p n
    assume p: "slot_ok p" "n \<in> set (slot_get T' p)"
    then obtain p0 where p0: "slot_ok p0" "n \<in> set (slot_get T p0)"
      "p = node_slot (?c + 1) (tn_expire n) \<or> p0 = p \<and> M \<noteq> Some p"
      unfolding get [OF p(1)] using M_ok by (auto split: if_splits option.splits)
    then have due: "due (tn_expire n) (slot_get T p0) \<noteq> []" by (auto simp: due_def filter_empty_conv)
    show "p = node_slot (tw_time T') (tn_expire n)"
      using stays [OF p0(1) due] p0(3) time [OF p(1)] by auto
    show "unat (tn_expire n - tw_time T') < 2 ^ 31"
      using unat_step_closer [OF ne [OF p0(1) due]] tw_inv_due(2) [OF inv p0(1) due] time [OF p(1)] by simp
  qed
  moreover have "pending T' = pending T"
    using keep time [of "Near 0"] by (simp add: pending_def fun_eq_iff)
  ultimately show ?thesis using T' time [of "Near 0"] by simp
qed

lemma near_slot_now: "node_slot c e = Near (unat c mod 256) \<longleftrightarrow> e = c"
proof
  assume "node_slot c e = Near (unat c mod 256)"
  then have "agree 8 (unat e) (unat c)" "unat e mod 2 ^ 8 = unat c mod 2 ^ 8"
    by (auto simp: node_slot_at slot_at_def split: if_splits)
  then have "unat e = unat c" unfolding agree_def by (metis div_mult_mod_eq)
  then show "e = c" by (rule unsigned_word_eqI)
qed (simp add: node_slot_at slot_at_def agree_def)

definition event_message :: "timer_event \<Rightarrow> u32 \<times> skynet_message" where
  "event_message ev = (te_handle ev, timer_message (te_session ev))"

lemma timer_execute_ok:
  assumes inv: "tw_inv T"
  shows "\<exists>T'. timer_execute T = Some (map event_message (pending T (tw_time T)), T')
     \<and> tw_inv T' \<and> tw_time T' = tw_time T \<and> pending T' = (pending T)(tw_time T := [])"
proof -
  let ?c = "tw_time T"
  define idx where "idx = unat ?c mod 256"
  let ?T = "slot_set T (Near idx) []"
  have sh: "tw_shape T" and ok: "slot_ok (Near idx)" using inv by (auto simp: tw_inv_def idx_def)
  have now: "node_slot ?c e = Near idx \<longleftrightarrow> e = ?c" for e unfolding idx_def by (rule near_slot_now)
  have all: "due ?c (slot_get T (Near idx)) = slot_get T (Near idx)"
    unfolding due_def filter_id_conv using inv ok now unfolding tw_inv_def by (metis)
  have out: "dispatch_list (slot_get T (Near idx)) = map event_message (pending T ?c)"
    using now [of ?c] all by (simp add: pending_def dispatch_list_def event_message_def)
  have get: "slot_get ?T q = (if q = Near idx then [] else slot_get T q)" if "slot_ok q" for q
    using slot_get_set [OF sh ok that] by auto
  have "timer_execute T = Some (map event_message (pending T ?c), ?T)"
  proof (cases "slot_get T (Near idx) = []")
    case True
    have "tw_near T ! idx = []" using True by simp
    then have "?T = T" using list_update_id [of "tw_near T" idx] by simp
    moreover have "execute_loop idx [] T = Some ([], T)"
      using True by (subst execute_loop.simps) (simp del: slot_get.simps)
    ultimately show ?thesis
      using out True by (simp add: timer_execute_def unat_near_mask idx_def [symmetric] dispatch_list_def
          del: slot_set.simps slot_get.simps)
  next
    case False
    then have "execute_loop idx [] T = execute_loop idx (dispatch_list (slot_get T (Near idx))) ?T"
      by (subst execute_loop.simps) (simp add: link_clear_def del: slot_get.simps slot_set.simps)
    moreover have "execute_loop idx out ?T = Some (out, ?T)" for out
      using get [OF ok] by (subst execute_loop.simps) (simp del: slot_get.simps slot_set.simps)
    ultimately show ?thesis using out unfolding timer_execute_def unat_near_mask idx_def [symmetric]
      by (simp del: slot_get.simps slot_set.simps)
  qed
  moreover have "tw_inv ?T"
    using inv sh ok get slot_set_other unfolding tw_inv_def by (auto simp del: slot_get.simps slot_set.simps slot_ok.simps)
  moreover have "pending ?T = (pending T)(?c := [])"
    using get now slot_set_other(1) by (auto simp: pending_def fun_eq_iff due_def simp del: slot_get.simps slot_set.simps slot_ok.simps)
  ultimately show ?thesis using slot_set_other(1) by blast
qed

lemma timer_update_ok:
  assumes inv: "tw_inv T"
  shows "\<exists>T'. timer_update T
      = Some (map event_message (pending T (tw_time T) @ pending T (tw_time T + 1)), T')
     \<and> tw_inv T' \<and> tw_time T' = tw_time T + 1
     \<and> pending T' = (pending T)(tw_time T := [], tw_time T + 1 := [])"
proof -
  from timer_execute_ok [OF inv] obtain T1 where
    T1: "timer_execute T = Some (map event_message (pending T (tw_time T)), T1)" "tw_inv T1"
      "tw_time T1 = tw_time T" "pending T1 = (pending T)(tw_time T := [])" by auto
  from timer_shift_ok [OF T1(2)] T1 obtain T2 where
    T2: "timer_shift T1 = Some T2" "tw_inv T2" "tw_time T2 = tw_time T + 1" "pending T2 = pending T1" by auto
  from timer_execute_ok [OF T2(2)] obtain T3 where
    T3: "timer_execute T2 = Some (map event_message (pending T2 (tw_time T2)), T3)" "tw_inv T3"
      "tw_time T3 = tw_time T2" "pending T3 = (pending T2)(tw_time T2 := [])" by auto
  have "tw_time T + 1 \<noteq> tw_time T" by simp
  with T1 T2 T3 show ?thesis by (auto simp: timer_update_def)
qed

lemma tw_inv_create: "tw_inv timer_create_timer"
proof -
  have "slot_ok p \<Longrightarrow> slot_get timer_create_timer p = []" for p
    by (cases p) (simp_all add: timer_create_timer_def TIME_NEAR_def TIME_NEAR_SHIFT_def TIME_LEVEL_def TIME_LEVEL_SHIFT_def)
  then show ?thesis
    by (auto simp: tw_inv_def tw_shape_def timer_create_timer_def TIME_NEAR_def TIME_NEAR_SHIFT_def
        TIME_LEVEL_def TIME_LEVEL_SHIFT_def)
qed

text \<open>Between two updates nothing is due now: the wheel is a calendar.\<close>

definition tw_stable :: "timer \<Rightarrow> bool" where
  "tw_stable T \<longleftrightarrow> tw_inv T \<and> pending T (tw_time T) = []"

interpretation twc: calendar tw_time pending timer_add timer_update event_message tw_stable
proof unfold_locales
  fix T t ev
  assume T: "tw_stable T" and t: "0 < t" "t < (2 :: int) ^ 31"
  obtain n where n: "t = int n" "0 < n" "n < 2 ^ 31"
    using t by (metis nat_0_le nat_less_numeral_power_cancel_iff of_nat_0_less_iff order_less_imp_le)
  then have "tw_time T + of_int t \<noteq> tw_time T" using tick_distinct [of n 0 "tw_time T"] by simp
  with timer_add_ok [of T t ev] T t show "tw_stable (timer_add ev t T) \<and> tw_time (timer_add ev t T) = tw_time T
      \<and> pending (timer_add ev t T) = (pending T)(tw_time T + of_int t := pending T (tw_time T + of_int t) @ [ev])"
    by (auto simp: tw_stable_def)
next
  fix T
  assume "tw_stable T"
  with timer_update_ok [of T] show "\<exists>T'. timer_update T = Some (map event_message (pending T (tw_time T + 1)), T')
      \<and> tw_stable T' \<and> tw_time T' = tw_time T + 1 \<and> pending T' = (pending T)(tw_time T + 1 := [])"
    by (auto simp: tw_stable_def fun_upd_idem)
qed

section \<open>Timers added while a list is dispatched\<close>

text \<open>
  \<^verbatim>\<open>timer_execute\<close> gives up the lock while it dispatches, so a \<^verbatim>\<open>timer_add\<close> can come
  between the parts of \<^verbatim>\<open>timer_update\<close>. The steps are the locked sections: an add
  with a positive delay, the detaching of the list of the current tick, and the shift,
  which is reached only when that list is empty.
\<close>

inductive tw_step :: "timer \<Rightarrow> timer \<Rightarrow> bool" where
  tw_add: "0 < t \<Longrightarrow> t < 2 ^ 31 \<Longrightarrow> tw_step T (timer_add ev t T)"
| tw_fire: "timer_execute T = Some (out, T') \<Longrightarrow> tw_step T T'"
| tw_tick: "slot_get T (Near (unat (tw_time T AND TIME_NEAR_MASK))) = [] \<Longrightarrow> timer_shift T = Some T' \<Longrightarrow> tw_step T T'"

definition tw_start :: "timer \<Rightarrow> bool" where
  "tw_start T \<longleftrightarrow> (\<exists>sec cs point. T = skynet_timer_init sec cs point)"

lemma pending_now: "tw_inv T \<Longrightarrow> slot_get T (Near (unat (tw_time T AND TIME_NEAR_MASK))) = [] \<longleftrightarrow> pending T (tw_time T) = []"
proof -
  assume inv: "tw_inv T"
  have n: "node_slot (tw_time T) (tw_time T) = Near (unat (tw_time T) mod 256)" by (simp add: near_slot_now)
  have "due (tw_time T) (slot_get T (Near (unat (tw_time T) mod 256))) = slot_get T (Near (unat (tw_time T) mod 256))"
    unfolding due_def filter_id_conv using inv near_slot_now unfolding tw_inv_def
    by (metis mod_less_divisor slot_ok.simps(1) zero_less_numeral)
  with n show ?thesis by (simp add: pending_def unat_near_mask del: slot_get.simps)
qed

lemma slot_get_clock [simp]:
  "slot_get (T\<lparr>tw_starttime := a\<rparr>) p = slot_get T p" "slot_get (T\<lparr>tw_current := b\<rparr>) p = slot_get T p"
  "slot_get (T\<lparr>tw_current_point := b\<rparr>) p = slot_get T p"
  by (cases p; simp)+

lemma tw_inv_init: "tw_inv (skynet_timer_init sec cs point)"
  using tw_inv_create by (simp add: skynet_timer_init_def tw_inv_def tw_shape_def)

lemma tw_step_inv:
  assumes "tw_step T T'" "tw_inv T"
  shows "tw_inv T'"
  using assms
proof (induction rule: tw_step.induct)
  case (tw_add t T ev)
  then show ?case by (intro timer_add_ok(1)) auto
next
  case (tw_fire T out T')
  then show ?case using timer_execute_ok by fastforce
next
  case (tw_tick T T')
  then show ?case using timer_shift_ok pending_now by fastforce
qed

interpretation twi: invariant tw_start tw_step tw_inv
  by unfold_locales (auto simp: tw_start_def intro: tw_inv_init tw_step_inv)

section \<open>Properties\<close>

text \<open>
  C9: A timer fires exactly on time, whatever list of the wheel it was filed in and however
  often it was moved, the wrap of the 32-bit clock included: after a timeout of \<open>t\<close>
  centiseconds is added, \<open>t\<close> updates of the wheel succeed, the last one dispatches the
  timers already due at that tick followed by the new one, and every earlier
  update dispatches exactly what was due at its own tick before.
\<close>

theorem timer_fires_on_time:
  assumes "tw_stable T" "0 < t" "t < 2 ^ 31"
  shows "\<exists>outs T'. timer_updates (nat t) (timer_add ev t T) = Some (outs, T') \<and> length outs = nat t
           \<and> outs ! (nat t - 1) = map event_message (pending T (tw_time T + of_int t)) @ [event_message ev]
           \<and> (\<forall>i < nat t - 1. outs ! i = map event_message (pending T (tw_time T + of_nat (Suc i))))"
  unfolding timer_updates_def by (rule twc.fires_on_tick [OF assms])

lemma tw_stable_empty: "tw_stable (timer_create_timer\<lparr>tw_time := c\<rparr>)"
proof -
  have e: "slot_ok p \<Longrightarrow> slot_get timer_create_timer p = []" for p
    by (cases p) (simp_all add: timer_create_timer_def TIME_NEAR_def TIME_NEAR_SHIFT_def TIME_LEVEL_def TIME_LEVEL_SHIFT_def)
  moreover have "tw_shape timer_create_timer" using tw_inv_create by (simp add: tw_inv_def)
  ultimately show ?thesis by (simp add: tw_stable_def tw_inv_def pending_def del: slot_get.simps slot_ok.simps)
qed

theorem timer_fires_on_time_witness:
  "\<exists>outs T'. timer_updates 3 (timer_add \<lparr>te_handle = 5, te_session = 9\<rparr> 3 (timer_create_timer\<lparr>tw_time := - 2\<rparr>))
      = Some (outs, T') \<and> outs ! 2 = map event_message (pending (timer_create_timer\<lparr>tw_time := - 2\<rparr>) 1)
        @ [(5, timer_message 9)]"
  using timer_fires_on_time [OF tw_stable_empty, of 3 "\<lparr>te_handle = 5, te_session = 9\<rparr>" "- 2"]
  by (auto simp: event_message_def)

text \<open>
  C10: The parts of an update may interleave with timers being added, since the lock is given up during a
  dispatch: in every state the locked sections can reach, executing the
  current list dispatches exactly the timers due now, in the order they were added, and
  no other; a shift that is reached with an empty list moves the clock by one
  and loses and reorders nothing; an add appends to the timers of its own tick only.
\<close>

theorem timer_sections_interleave:
  assumes "reaches tw_start tw_step T"
  shows "(\<exists>T'. timer_execute T = Some (map event_message (pending T (tw_time T)), T')
            \<and> pending T' = (pending T)(tw_time T := []))
    \<and> (slot_get T (Near (unat (tw_time T AND TIME_NEAR_MASK))) = [] \<longrightarrow>
         (\<exists>T'. timer_shift T = Some T' \<and> tw_time T' = tw_time T + 1 \<and> pending T' = pending T))
    \<and> (\<forall>ev t. 0 < t \<and> t < 2 ^ 31 \<longrightarrow> pending (timer_add ev t T)
         = (pending T)(tw_time T + of_int t := pending T (tw_time T + of_int t) @ [ev]))"
proof -
  have inv: "tw_inv T" using assms by (rule twi.inv_reaches)
  from timer_execute_ok [OF inv] timer_shift_ok [OF inv] pending_now [OF inv] timer_add_ok [OF inv]
  show ?thesis by auto
qed

theorem timer_sections_interleave_witness:
  "\<exists>T'. timer_execute (skynet_timer_init 0 0 0)
      = Some (map event_message (pending (skynet_timer_init 0 0 0) (tw_time (skynet_timer_init 0 0 0))), T')"
proof -
  have "reaches tw_start tw_step (skynet_timer_init 0 0 0)"
    by (rule reaches_start) (auto simp: tw_start_def)
  from timer_sections_interleave [OF this] show ?thesis by blast
qed

end
