(* ===== verification/Server_Context.thy ===== *)
theory Server_Context
  imports Message_Queue Handle_Storage
begin

text \<open>
  The contexts of \<^verbatim>\<open>skynet-src/skynet_server.c\<close>: the state of a service, its
  reference count, and the operations that reach a service by its handle. The
  state of the node is one record: the message queues, the handle storage, the contexts,
  the blocks of allocated message data, and the globals of \<^verbatim>\<open>skynet_server.c\<close>,
  \<^verbatim>\<open>skynet_harbor.c\<close> and \<^verbatim>\<open>skynet_error.c\<close>.

  A result \<^term>\<open>None\<close> is a failed assertion or the use of a freed object.
\<close>

section \<open>State\<close>

record skynet_context =
  ctx_instance :: addr
  ctx_mod :: nat
  ctx_cb :: "nat option"
  ctx_queue :: addr
  ctx_logfile :: "nat option"
  ctx_cpu_cost :: u64
  ctx_cpu_start :: u64
  ctx_result :: string
  ctx_handle :: u32
  ctx_session_id :: int
  ctx_ref :: int
  ctx_message_count :: int
  ctx_init :: bool
  ctx_endless :: bool
  ctx_profile :: bool

text \<open>A block of message data: bytes, or the \<^verbatim>\<open>remote_message\<close> handed to the harbor service.\<close>

record remote_message =
  rm_name :: string
  rm_handle :: u32
  rm_message :: addr
  rm_sz :: u64
  rm_type :: int

datatype block = Bytes "u8 list" | Remote remote_message

record skynet_node =
  node_total :: int
  node_monitor_exit :: u32
  node_profile :: bool

record server =
  sv_mq :: mq_store
  sv_H :: handle_storage
  sv_ctx :: "addr \<rightharpoonup> skynet_context"
  sv_data :: "addr \<rightharpoonup> block"
  sv_brk :: addr
  sv_node :: skynet_node
  sv_REMOTE :: "addr option"
  sv_HARBOR :: u32
  sv_logger :: u32

text \<open>
  \<^verbatim>\<open>skynet_malloc\<close> returns an address that was never handed out before; address 0 is
  the null pointer. \<^verbatim>\<open>skynet_free\<close> of a null pointer does nothing.
\<close>

definition sv_alloc :: "server \<Rightarrow> addr \<times> server" where
  "sv_alloc st = (sv_brk st, st\<lparr>sv_brk := sv_brk st + 1\<rparr>)"

definition data_alloc :: "block \<Rightarrow> server \<Rightarrow> addr \<times> server" where
  "data_alloc b st = (let (a, st) = sv_alloc st in (a, st\<lparr>sv_data := (sv_data st)(a \<mapsto> b)\<rparr>))"

definition data_free :: "addr \<Rightarrow> server \<Rightarrow> server option" where
  "data_free a st =
     (if a = 0 then Some st
      else case sv_data st a of
        None \<Rightarrow> None
      | Some _ \<Rightarrow> Some (st\<lparr>sv_data := (sv_data st)(a := None)\<rparr>))"

definition ctx_update :: "addr \<Rightarrow> (skynet_context \<Rightarrow> skynet_context) \<Rightarrow> server \<Rightarrow> server option" where
  "ctx_update c f st =
     map_option (\<lambda>x. st\<lparr>sv_ctx := (sv_ctx st)(c \<mapsto> f x)\<rparr>) (sv_ctx st c)"

text \<open>The \<^verbatim>\<open>handle\<close> fields as the handle storage reads them.\<close>

definition skynet_context_handle :: "server \<Rightarrow> addr \<Rightarrow> u32" where
  "skynet_context_handle st c = (case sv_ctx st c of None \<Rightarrow> 0 | Some x \<Rightarrow> ctx_handle x)"

section \<open>The node\<close>

definition skynet_context_total :: "server \<Rightarrow> int" where
  "skynet_context_total st = node_total (sv_node st)"

definition context_inc :: "server \<Rightarrow> server" where
  "context_inc st = st\<lparr>sv_node := (sv_node st)\<lparr>node_total := node_total (sv_node st) + 1\<rparr>\<rparr>"

definition context_dec :: "server \<Rightarrow> server" where
  "context_dec st = st\<lparr>sv_node := (sv_node st)\<lparr>node_total := node_total (sv_node st) - 1\<rparr>\<rparr>"

section \<open>Reference counts\<close>

definition skynet_context_grab :: "addr \<Rightarrow> server \<Rightarrow> server option" where
  "skynet_context_grab c st = ctx_update c (\<lambda>x. x\<lparr>ctx_ref := ctx_ref x + 1\<rparr>) st"

definition skynet_context_reserve :: "addr \<Rightarrow> server \<Rightarrow> server option" where
  "skynet_context_reserve c st = map_option context_dec (skynet_context_grab c st)"

text \<open>
  \<^verbatim>\<open>delete_context\<close>. Closing the log file and the destructor of the module instance
  do not touch this state.
\<close>

definition delete_context :: "addr \<Rightarrow> server \<Rightarrow> server option" where
  "delete_context c st = do {
     x \<leftarrow> sv_ctx st c;
     mq \<leftarrow> skynet_mq_mark_release (ctx_queue x) (sv_mq st);
     Some (context_dec (st\<lparr>sv_mq := mq, sv_ctx := (sv_ctx st)(c := None)\<rparr>))
   }"

definition skynet_context_release :: "addr \<Rightarrow> server \<Rightarrow> (addr option \<times> server) option" where
  "skynet_context_release c st = do {
     st \<leftarrow> ctx_update c (\<lambda>x. x\<lparr>ctx_ref := ctx_ref x - 1\<rparr>) st;
     x \<leftarrow> sv_ctx st c;
     if ctx_ref x = 0 then map_option (Pair None) (delete_context c st)
     else Some (Some c, st)
   }"

text \<open>The full \<^verbatim>\<open>skynet_handle_grab\<close> and \<^verbatim>\<open>skynet_handle_retire\<close>, reference counts included.\<close>

definition handle_grab :: "u32 \<Rightarrow> server \<Rightarrow> (addr option \<times> server) option" where
  "handle_grab h st =
     (case skynet_handle_grab (skynet_context_handle st) (sv_H st) h of
        None \<Rightarrow> Some (None, st)
      | Some c \<Rightarrow> map_option (Pair (Some c)) (skynet_context_grab c st))"

definition handle_retire :: "u32 \<Rightarrow> server \<Rightarrow> (int \<times> server) option" where
  "handle_retire h st = do {
     (ret, r, H) \<leftarrow> skynet_handle_retire (skynet_context_handle st) h (sv_H st);
     let st = st\<lparr>sv_H := H\<rparr>;
     case r of
       None \<Rightarrow> Some (ret, st)
     | Some c \<Rightarrow> map_option (\<lambda>(_, st). (ret, st)) (skynet_context_release c st)
   }"

section \<open>Reaching a service by its handle\<close>

definition skynet_context_push :: "u32 \<Rightarrow> skynet_message \<Rightarrow> server \<Rightarrow> (int \<times> server) option" where
  "skynet_context_push h message st = do {
     (r, st) \<leftarrow> handle_grab h st;
     case r of
       None \<Rightarrow> Some (- 1, st)
     | Some c \<Rightarrow> do {
         x \<leftarrow> sv_ctx st c;
         mq \<leftarrow> skynet_mq_push (ctx_queue x) message (sv_mq st);
         (_, st) \<leftarrow> skynet_context_release c (st\<lparr>sv_mq := mq\<rparr>);
         Some (0, st)
       }
   }"

definition skynet_context_endless :: "u32 \<Rightarrow> server \<Rightarrow> server option" where
  "skynet_context_endless h st = do {
     (r, st) \<leftarrow> handle_grab h st;
     case r of
       None \<Rightarrow> Some st
     | Some c \<Rightarrow> do {
         st \<leftarrow> ctx_update c (\<lambda>x. x\<lparr>ctx_endless := True\<rparr>) st;
         (_, st) \<leftarrow> skynet_context_release c st;
         Some st
       }
   }"

text \<open>
  The session counter: \<^verbatim>\<open>++ctx->session_id\<close> wraps from \<^verbatim>\<open>INT_MAX\<close> to a negative
  number, which the guard turns into 1.
\<close>

definition int32_inc :: "int \<Rightarrow> int" where
  "int32_inc n = (if n = INT_MAX then - INT_MAX - 1 else n + 1)"

definition newsession :: "skynet_context \<Rightarrow> int \<times> skynet_context" where
  "newsession x =
     (let session = int32_inc (ctx_session_id x) in
      if session \<le> 0 then (1, x\<lparr>ctx_session_id := 1\<rparr>)
      else (session, x\<lparr>ctx_session_id := session\<rparr>))"

definition skynet_context_newsession :: "addr \<Rightarrow> server \<Rightarrow> (int \<times> server) option" where
  "skynet_context_newsession c st = do {
     x \<leftarrow> sv_ctx st c;
     let (session, x) = newsession x;
     Some (session, st\<lparr>sv_ctx := (sv_ctx st)(c \<mapsto> x)\<rparr>)
   }"

definition skynet_callback :: "addr \<Rightarrow> nat \<Rightarrow> server \<Rightarrow> server option" where
  "skynet_callback c cb st = ctx_update c (\<lambda>x. x\<lparr>ctx_cb := Some cb\<rparr>) st"

text \<open>A registration and the store of the handle it returns; the queue gets the same handle.\<close>

definition context_register :: "skynet_context \<Rightarrow> server \<Rightarrow> (addr \<times> server) option" where
  "context_register x st = do {
     let (c, st) = sv_alloc st;
     let st = st\<lparr>sv_ctx := (sv_ctx st)(c \<mapsto> x\<lparr>ctx_handle := 0\<rparr>)\<rparr>;
     (h, H) \<leftarrow> skynet_handle_register (skynet_context_handle st) c (sv_H st);
     let (p, st) = sv_alloc (st\<lparr>sv_H := H\<rparr>);
     let st = st\<lparr>sv_ctx := (sv_ctx st)(c \<mapsto> x\<lparr>ctx_handle := h, ctx_queue := p\<rparr>),
                sv_mq := mq_update p (skynet_mq_create h) (sv_mq st)\<rparr>;
     Some (c, context_inc st)
   }"

section \<open>The invariant of the node\<close>

text \<open>
  \<open>refs c\<close> counts the references to context \<open>c\<close> that threads hold; \<open>xs\<close> is the global
  queue and \<open>held\<close> the set of queues threads hold. The reference count of a live context is
  the number of those references, plus one while the handle storage knows it. Its
  queue is allocated, carries its handle, and is not marked for release. The harbor
  service is reserved by one reference of its own, and the node counts every live
  context but the reserved one.
\<close>

definition ctx_ok :: "server \<Rightarrow> (addr \<Rightarrow> nat) \<Rightarrow> addr \<Rightarrow> skynet_context \<Rightarrow> bool" where
  "ctx_ok st refs c x \<longleftrightarrow>
     ctx_ref x = int (refs c) + of_bool (c \<in> hs_ctxs (sv_H st)) \<and> 0 < ctx_ref x \<and>
     (\<exists>ms. mq_view (sv_mq st) (ctx_queue x) = Some (ctx_handle x, False, ms))"

definition sv_inv :: "server \<Rightarrow> (addr \<Rightarrow> nat) \<Rightarrow> addr list \<Rightarrow> addr set \<Rightarrow> bool" where
  "sv_inv st refs xs held \<longleftrightarrow>
     mq_ok (sv_mq st) xs held \<and>
     hs_inv (skynet_context_handle st) (sv_H st) \<and> hs_names_inv (sv_H st) \<and>
     hs_ctxs (sv_H st) \<subseteq> dom (sv_ctx st) \<and>
     (\<forall>c x. sv_ctx st c = Some x \<longrightarrow> ctx_ok st refs c x) \<and>
     (\<forall>c. 0 < refs c \<longrightarrow> c \<in> dom (sv_ctx st)) \<and>
     inj_on (\<lambda>c. map_option ctx_queue (sv_ctx st c)) (dom (sv_ctx st)) \<and>
     (\<forall>a. a \<in> dom (sv_ctx st) \<union> dom (mq_view (sv_mq st)) \<longrightarrow> a < sv_brk st) \<and>
     (\<forall>c. sv_REMOTE st = Some c \<longrightarrow> 0 < refs c) \<and>
     node_total (sv_node st) = int (card (dom (sv_ctx st))) - of_bool (sv_REMOTE st \<noteq> None)"

lemma hs_inv_cong:
  assumes "hs_inv ch s" "\<And>c. c \<in> hs_ctxs s \<Longrightarrow> ch' c = ch c"
  shows "hs_inv ch' s"
proof -
  have "c \<in> hs_ctxs s" if "i < hs_slot_size s" "hs_slot s ! i = Some c" for i c
    using that assms(1) unfolding hs_ctxs_def hs_inv_def by (metis (mono_tags) mem_Collect_eq nth_mem)
  with assms show ?thesis unfolding hs_inv_def by auto
qed

lemma sv_invD:
  assumes "sv_inv st refs xs held"
  shows "mq_ok (sv_mq st) xs held" "hs_inv (skynet_context_handle st) (sv_H st)" "hs_names_inv (sv_H st)"
    "hs_ctxs (sv_H st) \<subseteq> dom (sv_ctx st)" "0 < refs c \<Longrightarrow> c \<in> dom (sv_ctx st)"
    "inj_on (\<lambda>c. map_option ctx_queue (sv_ctx st c)) (dom (sv_ctx st))"
    "c \<in> dom (sv_ctx st) \<Longrightarrow> c < sv_brk st" "p \<in> dom (mq_view (sv_mq st)) \<Longrightarrow> p < sv_brk st"
    "sv_REMOTE st = Some c \<Longrightarrow> 0 < refs c"
    "node_total (sv_node st) = int (card (dom (sv_ctx st))) - of_bool (sv_REMOTE st \<noteq> None)"
    "finite (dom (sv_ctx st))"
proof -
  show "finite (dom (sv_ctx st))"
    by (rule finite_subset [of _ "{..<sv_brk st}"]) (use assms in \<open>auto simp: sv_inv_def\<close>)
qed (use assms in \<open>simp_all add: sv_inv_def\<close>)

lemma sv_inv_ctx: "sv_inv st refs xs held \<Longrightarrow> sv_ctx st c = Some x \<Longrightarrow> ctx_ok st refs c x"
  by (simp add: sv_inv_def)

text \<open>A change of one context that keeps its handle and its queue.\<close>

lemma sv_inv_put:
  assumes inv: "sv_inv st refs xs held" and x: "sv_ctx st c = Some x"
    and same: "ctx_handle x' = ctx_handle x" "ctx_queue x' = ctx_queue x"
    and ref: "ctx_ref x' = int (refs' c) + of_bool (c \<in> hs_ctxs (sv_H st))" "0 < ctx_ref x'"
    and others: "\<And>d. d \<noteq> c \<Longrightarrow> refs' d = refs d" and remote: "sv_REMOTE st = Some c \<Longrightarrow> 0 < refs' c"
  shows "sv_inv (st\<lparr>sv_ctx := (sv_ctx st)(c \<mapsto> x')\<rparr>) refs' xs held"
proof -
  let ?st = "st\<lparr>sv_ctx := (sv_ctx st)(c \<mapsto> x')\<rparr>"
  have h: "skynet_context_handle ?st = skynet_context_handle st"
    using x same by (auto simp: skynet_context_handle_def fun_eq_iff)
  have q: "(\<lambda>d. map_option ctx_queue (sv_ctx ?st d)) = (\<lambda>d. map_option ctx_queue (sv_ctx st d))"
    using x same by (auto simp: fun_eq_iff)
  have d: "dom (sv_ctx ?st) = dom (sv_ctx st)" using x by auto
  have "ctx_ok ?st refs' d y" if "sv_ctx ?st d = Some y" for d y
    using that same ref others [of d] sv_inv_ctx [OF inv x] sv_inv_ctx [OF inv, of d y]
    by (cases "d = c") (auto simp: ctx_ok_def)
  moreover have "d \<in> dom (sv_ctx st)" if "0 < refs' d" for d
    using that inv x others [of d] by (cases "d = c") (auto simp: sv_inv_def)
  moreover have "0 < refs' d" if "sv_REMOTE st = Some d" for d
    using that remote others [of d] inv by (cases "d = c") (auto simp: sv_inv_def)
  ultimately show ?thesis using inv unfolding sv_inv_def h q d by simp
qed

lemma sv_inv_field:
  assumes inv: "sv_inv st refs xs held" and x: "sv_ctx st c = Some x"
    and same: "ctx_ref x' = ctx_ref x" "ctx_handle x' = ctx_handle x" "ctx_queue x' = ctx_queue x"
  shows "sv_inv (st\<lparr>sv_ctx := (sv_ctx st)(c \<mapsto> x')\<rparr>) refs xs held"
  using sv_inv_ctx [OF inv x] same inv by (intro sv_inv_put [OF inv x]) (auto simp: ctx_ok_def sv_inv_def)

lemma sv_inv_grab:
  assumes inv: "sv_inv st refs xs held" and x: "sv_ctx st c = Some x"
  shows "sv_inv (st\<lparr>sv_ctx := (sv_ctx st)(c \<mapsto> x\<lparr>ctx_ref := ctx_ref x + 1\<rparr>)\<rparr>) (refs(c := refs c + 1)) xs held"
  using sv_inv_ctx [OF inv x] by (intro sv_inv_put [OF inv x]) (auto simp: ctx_ok_def)

lemma mq_view_mark:
  assumes ok: "mq_ok mq xs held" and v: "mq_view mq p = Some (h, False, ms)"
  shows "\<exists>mq' xs'. skynet_mq_mark_release p mq = Some mq' \<and> mq_ok mq' xs' held
     \<and> mq_view mq' = (mq_view mq)(p \<mapsto> (h, True, ms))"
proof -
  from v obtain q where q: "mq_heap mq p = Some q" "mq_release q = 0" "mq_handle q = h" "mq_contents q = ms"
    by (auto simp: mq_view_def mq_box_def)
  from mq_ok_mark_release [OF ok q(1,2)] mq_mark_view [OF _ q(1)] q show ?thesis by fastforce
qed

lemma mq_view_push:
  assumes ok: "mq_ok mq xs held" and v: "mq_view mq p = Some (h, False, ms)" and room: "length ms + 1 < 2 ^ 30"
  shows "\<exists>mq' xs'. skynet_mq_push p m mq = Some mq' \<and> mq_ok mq' xs' held
     \<and> mq_view mq' = (mq_view mq)(p \<mapsto> (h, False, ms @ [m]))"
proof -
  from v obtain q where q: "mq_heap mq p = Some q" "mq_release q = 0" "mq_handle q = h" "mq_contents q = ms"
    by (auto simp: mq_view_def mq_box_def)
  have "mq_inv q" using mq_ok_node [OF ok q(1)] by (simp add: mq_node_ok_def)
  with mq_ok_push [OF ok q(1,2), of m] mq_push_view [OF _ q(1), of m] q room show ?thesis
    by (fastforce simp: mq_limit_def)
qed

text \<open>
  The last reference goes: the context is deleted and its queue marked. Otherwise
  only the count changes.
\<close>

lemma sv_release_ok:
  assumes inv: "sv_inv st refs xs held" and x: "sv_ctx st c = Some x" and r: "of_bool (sv_REMOTE st = Some c) < refs c"
  shows "\<exists>st' xs'. skynet_context_release c st = Some (if ctx_ref x = 1 then None else Some c, st')
     \<and> sv_inv st' (refs(c := refs c - 1)) xs' held \<and> sv_H st' = sv_H st \<and> sv_data st' = sv_data st \<and> sv_brk st' = sv_brk st
     \<and> sv_HARBOR st' = sv_HARBOR st \<and> sv_logger st' = sv_logger st
     \<and> sv_ctx st' = (sv_ctx st)(c := if ctx_ref x = 1 then None else Some (x\<lparr>ctx_ref := ctx_ref x - 1\<rparr>))
     \<and> (\<exists>h ms. mq_view (sv_mq st) (ctx_queue x) = Some (h, False, ms)
          \<and> mq_view (sv_mq st') = (mq_view (sv_mq st))(ctx_queue x \<mapsto> (h, ctx_ref x = 1, ms)))"
proof (cases "ctx_ref x = 1")
  case False
  let ?st = "st\<lparr>sv_ctx := (sv_ctx st)(c \<mapsto> x\<lparr>ctx_ref := ctx_ref x - 1\<rparr>)\<rparr>"
  have "sv_inv ?st (refs(c := refs c - 1)) xs held"
    using sv_inv_ctx [OF inv x] r False by (intro sv_inv_put [OF inv x]) (auto simp: ctx_ok_def)
  with False x sv_inv_ctx [OF inv x] show ?thesis
    by (intro exI [of _ ?st] exI [of _ xs])
      (auto simp: skynet_context_release_def ctx_update_def ctx_ok_def fun_upd_idem)
next
  case True
  from sv_inv_ctx [OF inv x] r True have one: "refs c = 1" "c \<notin> hs_ctxs (sv_H st)" "sv_REMOTE st \<noteq> Some c"
    by (auto simp: ctx_ok_def of_bool_def split: if_splits)
  from sv_inv_ctx [OF inv x] obtain ms where v: "mq_view (sv_mq st) (ctx_queue x) = Some (ctx_handle x, False, ms)"
    by (auto simp: ctx_ok_def)
  from inv have mq: "mq_ok (sv_mq st) xs held" by (simp add: sv_inv_def)
  from mq_view_mark [OF mq v] obtain mq' xs' where
    mq': "skynet_mq_mark_release (ctx_queue x) (sv_mq st) = Some mq'" "mq_ok mq' xs' held"
      "mq_view mq' = (mq_view (sv_mq st))(ctx_queue x \<mapsto> (ctx_handle x, True, ms))" by blast
  let ?st = "context_dec (st\<lparr>sv_mq := mq', sv_ctx := (sv_ctx st)(c := None)\<rparr>)"
  have sel: "sv_mq ?st = mq'" "sv_H ?st = sv_H st" "sv_brk ?st = sv_brk st" "sv_REMOTE ?st = sv_REMOTE st"
    "sv_ctx ?st = (sv_ctx st)(c := None)" "node_total (sv_node ?st) = node_total (sv_node st) - 1"
    by (simp_all add: context_dec_def)
  have dom: "dom (sv_ctx ?st) = dom (sv_ctx st) - {c}" "dom (mq_view mq') = dom (mq_view (sv_mq st))"
    using mq'(3) v by (auto simp: sel)
  have inv': "sv_inv ?st (refs(c := 0)) xs' held" unfolding sv_inv_def
  proof (intro conjI allI impI)
    show "mq_ok (sv_mq ?st) xs' held" using mq'(2) sel by simp
    show "hs_inv (skynet_context_handle ?st) (sv_H ?st)" unfolding sel
      using one by (intro hs_inv_cong [OF sv_invD(2) [OF inv]]) (auto simp: skynet_context_handle_def context_dec_def)
    show "hs_names_inv (sv_H ?st)" using sv_invD(3) [OF inv] sel by simp
    show "hs_ctxs (sv_H ?st) \<subseteq> dom (sv_ctx ?st)" using sv_invD(4) [OF inv] one unfolding dom(1) sel(2) by blast
    show "inj_on (\<lambda>d. map_option ctx_queue (sv_ctx ?st d)) (dom (sv_ctx ?st))"
      using sv_invD(6) [OF inv] unfolding dom(1) sel(5) by (auto simp: inj_on_def)
    have "card (dom (sv_ctx st)) = Suc (card (dom (sv_ctx st) - {c}))"
      using x sv_invD(11) [OF inv] by (intro card.remove) auto
    then show "node_total (sv_node ?st) = int (card (dom (sv_ctx ?st))) - of_bool (sv_REMOTE ?st \<noteq> None)"
      using sv_invD(10) [OF inv] unfolding dom(1) sel(4,6) by simp
  next
    fix d y
    assume "sv_ctx ?st d = Some y"
    then have d: "d \<noteq> c" "sv_ctx st d = Some y" by (auto simp: sel split: if_splits)
    have "map_option ctx_queue (sv_ctx st d) \<noteq> map_option ctx_queue (sv_ctx st c)"
      using inj_onD [OF sv_invD(6) [OF inv], of d c] d x by auto
    then have "ctx_queue y \<noteq> ctx_queue x" using d x by simp
    with sv_inv_ctx [OF inv d(2)] d(1) mq'(3) show "ctx_ok ?st (refs(c := 0)) d y" by (auto simp: ctx_ok_def sel)
  next
    fix d
    assume "0 < (refs(c := 0)) d"
    then show "d \<in> dom (sv_ctx ?st)" using sv_invD(5) [OF inv, of d] unfolding dom by (auto split: if_splits)
  next
    fix a
    assume "a \<in> dom (sv_ctx ?st) \<union> dom (mq_view (sv_mq ?st))"
    then show "a < sv_brk ?st" using sv_invD(7,8) [OF inv, of a] dom sel by auto
  next
    fix d
    assume "sv_REMOTE ?st = Some d"
    then show "0 < (refs(c := 0)) d" using sv_invD(9) [OF inv, of d] one unfolding sel by auto
  qed
  have "refs(c := refs c - 1) = refs(c := 0)" using one by simp
  with inv' True x mq' v sel show ?thesis
    by (intro exI [of _ ?st] exI [of _ xs'])
      (simp add: skynet_context_release_def ctx_update_def delete_context_def context_dec_def)
qed

text \<open>A change of the queues that leaves the live ones live.\<close>

lemma sv_inv_mq:
  assumes inv: "sv_inv st refs xs held" and ok: "mq_ok mq xs' held'" and sub: "dom (mq_view mq) \<subseteq> dom (mq_view (sv_mq st))"
    and live: "\<And>p h ms. mq_view (sv_mq st) p = Some (h, False, ms) \<Longrightarrow> \<exists>ms'. mq_view mq p = Some (h, False, ms')"
  shows "sv_inv (st\<lparr>sv_mq := mq\<rparr>) refs xs' held'"
proof -
  have h: "skynet_context_handle (st\<lparr>sv_mq := mq\<rparr>) = skynet_context_handle st"
    by (simp add: skynet_context_handle_def fun_eq_iff)
  have "ctx_ok (st\<lparr>sv_mq := mq\<rparr>) refs d y" if "sv_ctx st d = Some y" for d y
    using sv_inv_ctx [OF inv that] live by (auto simp: ctx_ok_def)
  moreover have "a < sv_brk st" if "a \<in> dom (mq_view mq)" for a
    using sv_invD(8) [OF inv] sub that by blast
  ultimately show ?thesis using inv ok unfolding sv_inv_def h by simp
qed

lemma handle_grab_ok:
  assumes inv: "sv_inv st refs xs held"
  shows "case slot_of (skynet_context_handle st) (sv_H st) h of
      None \<Rightarrow> handle_grab h st = Some (None, st)
    | Some c \<Rightarrow> \<exists>x. sv_ctx st c = Some x \<and> ctx_handle x = h \<and> c \<in> hs_ctxs (sv_H st)
        \<and> handle_grab h st = Some (Some c, st\<lparr>sv_ctx := (sv_ctx st)(c \<mapsto> x\<lparr>ctx_ref := ctx_ref x + 1\<rparr>)\<rparr>)"
proof (cases "slot_of (skynet_context_handle st) (sv_H st) h")
  case None
  then show ?thesis by (simp add: handle_grab_def skynet_handle_grab_def)
next
  case (Some c)
  with slot_of_iff [OF sv_invD(2) [OF inv]] have c: "c \<in> hs_ctxs (sv_H st)" "skynet_context_handle st c = h" by auto
  with sv_invD(4) [OF inv] obtain x where "sv_ctx st c = Some x" by auto
  with c Some show ?thesis
    by (simp add: handle_grab_def skynet_handle_grab_def skynet_context_grab_def ctx_update_def skynet_context_handle_def)
qed

lemma context_push_ok:
  assumes inv: "sv_inv st refs xs held"
    and room: "\<And>p h ms. mq_view (sv_mq st) p = Some (h, False, ms) \<Longrightarrow> length ms + 1 < 2 ^ 30"
  shows "case slot_of (skynet_context_handle st) (sv_H st) h of
      None \<Rightarrow> skynet_context_push h m st = Some (- 1, st)
    | Some c \<Rightarrow> \<exists>x mq' xs' ms. sv_ctx st c = Some x \<and> mq_view (sv_mq st) (ctx_queue x) = Some (h, False, ms)
        \<and> skynet_context_push h m st = Some (0, st\<lparr>sv_mq := mq'\<rparr>) \<and> sv_inv (st\<lparr>sv_mq := mq'\<rparr>) refs xs' held
        \<and> mq_view mq' = (mq_view (sv_mq st))(ctx_queue x \<mapsto> (h, False, ms @ [m]))"
proof (cases "slot_of (skynet_context_handle st) (sv_H st) h")
  case None
  with handle_grab_ok [OF inv, of h] show ?thesis by (simp add: skynet_context_push_def)
next
  case (Some c)
  with handle_grab_ok [OF inv, of h] obtain x where x: "sv_ctx st c = Some x" "ctx_handle x = h" "c \<in> hs_ctxs (sv_H st)"
    and g: "handle_grab h st = Some (Some c, st\<lparr>sv_ctx := (sv_ctx st)(c \<mapsto> x\<lparr>ctx_ref := ctx_ref x + 1\<rparr>)\<rparr>)" by auto
  from sv_inv_ctx [OF inv x(1)] x obtain ms where v: "mq_view (sv_mq st) (ctx_queue x) = Some (h, False, ms)"
    and ref: "0 < ctx_ref x"
    by (auto simp: ctx_ok_def)
  from mq_view_push [OF sv_invD(1) [OF inv] v room [OF v], of m] obtain mq' xs' where
    mq': "skynet_mq_push (ctx_queue x) m (sv_mq st) = Some mq'" "mq_ok mq' xs' held"
      "mq_view mq' = (mq_view (sv_mq st))(ctx_queue x \<mapsto> (h, False, ms @ [m]))" by blast
  have inv': "sv_inv (st\<lparr>sv_mq := mq'\<rparr>) refs xs' held"
    by (rule sv_inv_mq [OF inv mq'(2)]) (use v mq'(3) in auto)
  have "skynet_context_push h m st = Some (0, st\<lparr>sv_mq := mq'\<rparr>)"
    using g mq' x ref by (simp add: skynet_context_push_def skynet_context_release_def ctx_update_def fun_upd_idem)
  with inv' x v mq'(3) Some show ?thesis by auto
qed

lemma hs_ctxs_retire:
  assumes inv: "hs_inv ch s" and ninv: "hs_names_inv s" and r: "skynet_handle_retire ch h s = Some (ret, r, s')"
  shows "r = slot_of ch s h" "hs_inv ch s'" "hs_names_inv s'"
    "hs_ctxs s' = hs_ctxs s - (case r of None \<Rightarrow> {} | Some c \<Rightarrow> {c})" "r = None \<Longrightarrow> s' = s"
    "ret = (if r = None then 0 else 1)"
proof -
  from handle_retire_ok [OF inv ninv, of h] r have
    a: "r = slot_of ch s h" "hs_inv ch s'" "hs_names_inv s'" "slot_of ch s' = (slot_of ch s)(h := None)"
      "r = None \<Longrightarrow> s' = s" "ret = (if r = None then 0 else 1)" by auto
  have "c \<in> hs_ctxs s' \<longleftrightarrow> c \<in> hs_ctxs s \<and> r \<noteq> Some c" for c
    using slot_of_iff [OF a(2), of "ch c" c] slot_of_iff [OF inv, of "ch c" c] slot_of_iff [OF inv, of h c] a(1,4)
    by (auto split: if_splits)
  then show "hs_ctxs s' = hs_ctxs s - (case r of None \<Rightarrow> {} | Some c \<Rightarrow> {c})" by (auto split: option.splits)
  from a show "r = slot_of ch s h" "hs_inv ch s'" "hs_names_inv s'" "r = None \<Longrightarrow> s' = s"
    "ret = (if r = None then 0 else 1)" by auto
qed

text \<open>Retiring a handle moves the reference of the storage to the thread, which then releases it.\<close>

lemma sv_inv_unregister:
  assumes inv: "sv_inv st refs xs held"
    and r: "skynet_handle_retire (skynet_context_handle st) h (sv_H st) = Some (ret, Some c, H)"
  shows "sv_inv (st\<lparr>sv_H := H\<rparr>) (refs(c := refs c + 1)) xs held"
proof -
  note u = hs_ctxs_retire [OF sv_invD(2,3) [OF inv] r]
  have c: "c \<in> hs_ctxs (sv_H st)" using slot_of_iff [OF sv_invD(2) [OF inv], of h c] u(1) by simp
  have "skynet_context_handle (st\<lparr>sv_H := H\<rparr>) = skynet_context_handle st"
    by (simp add: skynet_context_handle_def fun_eq_iff)
  moreover have "ctx_ok (st\<lparr>sv_H := H\<rparr>) (refs(c := refs c + 1)) d y" if "sv_ctx st d = Some y" for d y
    using sv_inv_ctx [OF inv that] u(4) c by (cases "d = c") (auto simp: ctx_ok_def)
  moreover have "d \<in> dom (sv_ctx st)" if "0 < (refs(c := refs c + 1)) d" for d
    using sv_invD(4) [OF inv] sv_invD(5) [OF inv, of d] c that by (auto split: if_splits)
  moreover have "0 < (refs(c := refs c + 1)) d" if "sv_REMOTE st = Some d" for d
    using sv_invD(9) [OF inv that] by simp
  moreover have "hs_ctxs H \<subseteq> dom (sv_ctx st)" using sv_invD(4) [OF inv] u(4) by auto
  ultimately show ?thesis
    using u(2,3) sv_invD [OF inv] unfolding sv_inv_def by simp
qed

lemma handle_retire_ok_sv:
  assumes inv: "sv_inv st refs xs held"
  shows "case slot_of (skynet_context_handle st) (sv_H st) h of
      None \<Rightarrow> handle_retire h st = Some (0, st)
    | Some c \<Rightarrow> \<exists>st' xs'. handle_retire h st = Some (1, st') \<and> sv_inv st' refs xs' held
        \<and> sv_data st' = sv_data st \<and> hs_ctxs (sv_H st') = hs_ctxs (sv_H st) - {c}
        \<and> hs_slot_size (sv_H st') = hs_slot_size (sv_H st)
        \<and> (\<forall>d. d \<noteq> c \<longrightarrow> sv_ctx st' d = sv_ctx st d) \<and> (sv_ctx st' c = None \<longleftrightarrow> refs c = 0)
        \<and> (\<forall>p k b ms. mq_view (sv_mq st) p = Some (k, b, ms) \<longrightarrow> (\<exists>b'. mq_view (sv_mq st') p = Some (k, b', ms)))"
proof -
  from handle_retire_ok [OF sv_invD(2,3) [OF inv], of h] obtain ret r H where
    ret: "skynet_handle_retire (skynet_context_handle st) h (sv_H st) = Some (ret, r, H)" by blast
  note u = hs_ctxs_retire [OF sv_invD(2,3) [OF inv] ret]
  show ?thesis
  proof (cases r)
    case None
    with u ret show ?thesis by (simp add: handle_retire_def)
  next
    case (Some c)
    with ret have ret: "skynet_handle_retire (skynet_context_handle st) h (sv_H st) = Some (ret, Some c, H)" by simp
    then have size: "hs_slot_size H = hs_slot_size (sv_H st)"
      by (auto simp: skynet_handle_retire_def split: option.splits bind_splits)
    note inv1 = sv_inv_unregister [OF inv ret]
    from slot_of_iff [OF sv_invD(2) [OF inv], of h c] u(1) Some have c: "c \<in> hs_ctxs (sv_H st)" by simp
    with sv_invD(4) [OF inv] obtain x where x: "sv_ctx (st\<lparr>sv_H := H\<rparr>) c = Some x" by auto
    then have one: "ctx_ref x = 1 \<longleftrightarrow> refs c = 0" using sv_inv_ctx [OF inv, of c x] c by (simp add: ctx_ok_def)
    have "of_bool (sv_REMOTE (st\<lparr>sv_H := H\<rparr>) = Some c) < (refs(c := refs c + 1)) c"
      using sv_invD(9) [OF inv, of c] by auto
    from sv_release_ok [OF inv1 x this] obtain r' st' xs' where
      st': "skynet_context_release c (st\<lparr>sv_H := H\<rparr>) = Some (r', st')"
        "sv_inv st' ((refs(c := refs c + 1))(c := (refs(c := refs c + 1)) c - 1)) xs' held"
        "sv_H st' = H" "sv_data st' = sv_data st"
        "sv_ctx st' = (sv_ctx st)(c := if ctx_ref x = 1 then None else Some (x\<lparr>ctx_ref := ctx_ref x - 1\<rparr>))"
        "\<exists>k ms. mq_view (sv_mq st) (ctx_queue x) = Some (k, False, ms) \<and>
           mq_view (sv_mq st') = (mq_view (sv_mq st))(ctx_queue x \<mapsto> (k, ctx_ref x = 1, ms))"
      by fastforce
    from st'(6) have "\<forall>p k b ms. mq_view (sv_mq st) p = Some (k, b, ms) \<longrightarrow> (\<exists>b'. mq_view (sv_mq st') p = Some (k, b', ms))"
      by auto
    with st'(1-5) have st': "skynet_context_release c (st\<lparr>sv_H := H\<rparr>) = Some (r', st')"
        "sv_inv st' ((refs(c := refs c + 1))(c := (refs(c := refs c + 1)) c - 1)) xs' held"
        "sv_H st' = H" "sv_data st' = sv_data st"
        "sv_ctx st' = (sv_ctx st)(c := if ctx_ref x = 1 then None else Some (x\<lparr>ctx_ref := ctx_ref x - 1\<rparr>))"
        "\<forall>p k b ms. mq_view (sv_mq st) p = Some (k, b, ms) \<longrightarrow> (\<exists>b'. mq_view (sv_mq st') p = Some (k, b', ms))"
      by auto
    moreover have "(refs(c := refs c + 1))(c := (refs(c := refs c + 1)) c - 1) = refs" by auto
    moreover have "slot_of (skynet_context_handle st) (sv_H st) h = Some c" using u(1) Some by simp
    ultimately show ?thesis using ret u(4,6) Some size one by (auto simp: handle_retire_def)
  qed
qed

lemma hs_register_ctxs:
  assumes inv: "hs_inv ch s" and inv': "hs_inv (ch(c := k)) s'" and new: "c \<notin> hs_ctxs s"
    and l: "slot_of (ch(c := k)) s' = (slot_of ch s)(k \<mapsto> c)" and free: "slot_of ch s k = None"
  shows "hs_ctxs s' = insert c (hs_ctxs s)"
proof -
  have "d \<in> hs_ctxs s' \<longleftrightarrow> d = c \<or> d \<in> hs_ctxs s" for d
    using slot_of_iff [OF inv', of "(ch(c := k)) d" d] slot_of_iff [OF inv, of "(ch(c := k)) d" d] l free new
      slot_of_iff [OF inv, of k d]
    by (cases "d = c") (auto split: if_splits)
  then show ?thesis by auto
qed

lemma context_register_ok:
  assumes inv: "sv_inv st refs xs held" and room: "0 < hs_room (sv_H st)" and two: "ctx_ref x = 2"
  shows "\<exists>c p st' k. context_register x st = Some (c, st') \<and> sv_ctx st c = None \<and> mq_view (sv_mq st) p = None
     \<and> sv_inv st' (refs(c := 1)) xs (insert p held)
     \<and> slot_of (skynet_context_handle st) (sv_H st) k = None
     \<and> slot_of (skynet_context_handle st') (sv_H st') = (slot_of (skynet_context_handle st) (sv_H st))(k \<mapsto> c)
     \<and> sv_ctx st' = (sv_ctx st)(c \<mapsto> x\<lparr>ctx_handle := k, ctx_queue := p\<rparr>)
     \<and> mq_view (sv_mq st') = (mq_view (sv_mq st))(p \<mapsto> (k, False, [])) \<and> sv_data st' = sv_data st
     \<and> sv_REMOTE st' = sv_REMOTE st"
proof -
  define c p where "c = sv_brk st" and "p = sv_brk st + 1"
  let ?st1 = "st\<lparr>sv_brk := c + 1, sv_ctx := (sv_ctx st)(c \<mapsto> x\<lparr>ctx_handle := 0\<rparr>)\<rparr>"
  have fresh: "sv_ctx st c = None" "mq_view (sv_mq st) p = None" "refs c = 0" "sv_ctx st p = None"
    using sv_invD(5,7) [OF inv, of c] sv_invD(7,8) [OF inv, of p] by (auto simp: c_def p_def)
  have notin: "c \<notin> hs_ctxs (sv_H st)" using sv_invD(4) [OF inv] fresh by auto
  let ?ch = "skynet_context_handle st"
  have ch1: "skynet_context_handle ?st1 = ?ch" using fresh by (auto simp: skynet_context_handle_def fun_eq_iff)
  from handle_register_ok [OF sv_invD(2) [OF inv] notin room] obtain k H where
    H: "skynet_handle_register ?ch c (sv_H st) = Some (k, H)" "hs_inv (?ch(c := k)) H" "slot_of ?ch (sv_H st) k = None"
      "slot_of (?ch(c := k)) H = (slot_of ?ch (sv_H st))(k \<mapsto> c)"
    and nm: "hs_name H = hs_name (sv_H st)" "hs_name_cap H = hs_name_cap (sv_H st)" "hs_name_count H = hs_name_count (sv_H st)"
    by blast
  define x' where "x' = x\<lparr>ctx_handle := k, ctx_queue := p\<rparr>"
  define mq where "mq = mq_update p (skynet_mq_create k) (sv_mq st)"
  define st' where "st' = context_inc (st\<lparr>sv_H := H, sv_brk := p + 1, sv_ctx := (sv_ctx st)(c \<mapsto> x'), sv_mq := mq\<rparr>)"
  have reg: "context_register x st = Some (c, st')"
    using H(1) ch1 by (simp add: context_register_def sv_alloc_def c_def [symmetric] p_def x'_def mq_def st'_def Let_def)
  have ctxs: "hs_ctxs H = insert c (hs_ctxs (sv_H st))"
    by (rule hs_register_ctxs [OF sv_invD(2) [OF inv] H(2) notin H(4,3)])
  have view: "mq_view mq = (mq_view (sv_mq st))(p \<mapsto> (k, False, []))"
    using mq_rep_contents [OF mq_create_rep [of k]]
    by (simp add: mq_def mq_view_update mq_box_def) (simp add: skynet_mq_create_def)
  have sel: "sv_mq st' = mq" "sv_H st' = H" "sv_brk st' = p + 1" "sv_REMOTE st' = sv_REMOTE st"
    "sv_ctx st' = (sv_ctx st)(c \<mapsto> x')" "node_total (sv_node st') = node_total (sv_node st) + 1" "sv_data st' = sv_data st"
    by (simp_all add: st'_def context_inc_def)
  have ch': "skynet_context_handle st' = ?ch(c := k)"
    by (auto simp: skynet_context_handle_def sel x'_def fun_eq_iff)
  have "sv_inv st' (refs(c := 1)) xs (insert p held)" unfolding sv_inv_def
  proof (intro conjI allI impI)
    have "mq_heap (sv_mq st) p = None" using fresh by (simp add: mq_view_def)
    then show "mq_ok (sv_mq st') xs (insert p held)"
      unfolding sel mq_def using sv_invD(1) [OF inv] by (intro mq_ok_create)
    show "hs_inv (skynet_context_handle st') (sv_H st')" using H(2) ch' sel by simp
    show "hs_names_inv (sv_H st')" using sv_invD(3) [OF inv] hs_names_inv_cong(1) [OF nm] sel by simp
    show "hs_ctxs (sv_H st') \<subseteq> dom (sv_ctx st')" using sv_invD(4) [OF inv] ctxs sel by auto
    show "inj_on (\<lambda>d. map_option ctx_queue (sv_ctx st' d)) (dom (sv_ctx st'))"
    proof -
      have "ctx_queue y \<noteq> p" if "sv_ctx st d = Some y" for d y
        using sv_inv_ctx [OF inv that] fresh(2) by (auto simp: ctx_ok_def)
      with sv_invD(6) [OF inv] show ?thesis by (auto simp: inj_on_def sel x'_def) blast+
    qed
    have "card (dom (sv_ctx st')) = Suc (card (dom (sv_ctx st)))"
      using sv_invD(11) [OF inv] fresh(1) by (simp add: sel domIff)
    then show "node_total (sv_node st') = int (card (dom (sv_ctx st'))) - of_bool (sv_REMOTE st' \<noteq> None)"
      using sv_invD(10) [OF inv] sel by simp
  next
    fix d y
    assume "sv_ctx st' d = Some y"
    then show "ctx_ok st' (refs(c := 1)) d y"
      using sv_inv_ctx [OF inv, of d y] two fresh ctxs view
      by (cases "d = c") (auto simp: ctx_ok_def sel x'_def)
  next
    fix d
    assume "0 < (refs(c := 1)) d"
    then show "d \<in> dom (sv_ctx st')" using sv_invD(5) [OF inv, of d] by (auto simp: sel split: if_splits)
  next
    fix a
    assume "a \<in> dom (sv_ctx st') \<union> dom (mq_view (sv_mq st'))"
    then have "a \<in> dom (sv_ctx st) \<or> a \<in> dom (mq_view (sv_mq st)) \<or> a = c \<or> a = p"
      unfolding sel view by (auto split: if_splits)
    then show "a < sv_brk st'"
      by (elim disjE) (use sv_invD(7,8) [OF inv, of a] in \<open>simp_all add: sel c_def p_def\<close>)
  next
    fix d
    assume "sv_REMOTE st' = Some d"
    then show "0 < (refs(c := 1)) d" using sv_invD(9) [OF inv, of d] by (simp add: sel)
  qed
  with reg fresh H(3,4) view show ?thesis unfolding sel ch' x'_def by (intro exI [of _ c] exI [of _ p] exI [of _ st'] exI [of _ k]) (simp add: sel ch' x'_def)
qed

lemma mq_view_give:
  assumes ok: "mq_ok mq xs held" and g: "skynet_globalmq_push p mq = Some mq'" and p: "p \<in> held"
  shows "\<exists>xs'. mq_ok mq' xs' (held - {p}) \<and> mq_view mq' = mq_view mq"
  using mq_ok_globalmq_push [OF ok p] globalmq_push_view [OF g] g by auto

lemma mq_view_get:
  assumes ok: "mq_ok mq xs held" and g: "skynet_globalmq_pop mq = Some (Some p, mq')"
  shows "\<exists>xs'. mq_ok mq' xs' (insert p held) \<and> mq_view mq' = mq_view mq"
proof -
  have "xs \<noteq> []" using ok g globalmq_pop_empty by (auto simp: mq_ok_def)
  then obtain a ys where "xs = a # ys" by (cases xs) auto
  with mq_ok_globalmq_pop [of mq a ys held] ok g globalmq_pop_view [OF g] show ?thesis by auto
qed

lemma mq_view_take:
  assumes ok: "mq_ok mq xs held" and v: "mq_view mq p = Some (h, False, ms)" and p: "p \<in> held"
    and q: "mq_heap mq p = Some q" and pop: "skynet_mq_pop q = Some (ret, r, q')"
  shows "mq_ok (mq_update p q' mq) xs (if r = None then held - {p} else held)"
    "mq_view (mq_update p q' mq) = (mq_view mq)(p \<mapsto> (h, False, tl ms))"
    "(ret, r) = (case ms of [] \<Rightarrow> (1, None) | m # _ \<Rightarrow> (0, Some m))"
proof -
  from v q have b: "mq_handle q = h" "mq_release q = 0" "mq_contents q = ms" by (auto simp: mq_view_def mq_box_def)
  have "mq_inv q" using mq_ok_node [OF ok q] by (simp add: mq_node_ok_def)
  note box = mq_pop_box [OF this pop]
  from mq_ok_pop [OF ok q b(2) p] pop b(3) show "mq_ok (mq_update p q' mq) xs (if r = None then held - {p} else held)"
    by (auto split: list.splits)
  show "mq_view (mq_update p q' mq) = (mq_view mq)(p \<mapsto> (h, False, tl ms))"
    using box b by (simp add: mq_view_update)
  show "(ret, r) = (case ms of [] \<Rightarrow> (1, None) | m # _ \<Rightarrow> (0, Some m))" using box b by auto
qed

lemma mq_view_drop:
  assumes ok: "mq_ok mq xs held" and p: "p \<in> held" and r: "skynet_mq_release p mq = Some (msgs, mq')"
  shows "\<exists>xs'. mq_ok mq' xs' (held - {p})"
    and "\<exists>h b ms. mq_view mq p = Some (h, b, ms) \<and> mq_view mq' = (mq_view mq)(p := if b then None else mq_view mq p)
      \<and> msgs = (if b then ms else [])"
proof -
  from ok p obtain q where q: "mq_heap mq p = Some q" by (auto simp: mq_ok_def)
  from mq_ok_release [OF ok q p] r show "\<exists>xs'. mq_ok mq' xs' (held - {p})" by (auto split: if_splits)
  from mq_ok_release [OF ok q p] r mq_release_view [OF r q] q
  show "\<exists>h b ms. mq_view mq p = Some (h, b, ms) \<and> mq_view mq' = (mq_view mq)(p := if b then None else mq_view mq p)
      \<and> msgs = (if b then ms else [])"
    by (auto simp: mq_view_def mq_box_def fun_upd_idem split: if_splits)
qed

section \<open>The threads of the node\<close>

text \<open>
  One step is one atomic section of some thread. \<open>refs\<close> are the references the threads
  hold, \<open>held\<close> the queues they hold. A thread uses only contexts it has a reference to,
  takes messages only from a queue it holds, and gives back only references it has;
  these are the rules the C functions follow. A registration includes the store of the
  handle it returns.
\<close>

inductive sv_step :: "server \<times> (addr \<Rightarrow> nat) \<times> addr set \<Rightarrow> server \<times> (addr \<Rightarrow> nat) \<times> addr set \<Rightarrow> bool" where
  sv_new: "context_register x st = Some (c, st') \<Longrightarrow> ctx_ref x = 2 \<Longrightarrow> 0 < hs_room (sv_H st) \<Longrightarrow> sv_ctx st' c = Some y \<Longrightarrow>
    sv_step (st, refs, held) (st', refs(c := 1), insert (ctx_queue y) held)"
| sv_grab: "handle_grab h st = Some (Some c, st') \<Longrightarrow> sv_step (st, refs, held) (st', refs(c := refs c + 1), held)"
| sv_push: "0 < refs c \<Longrightarrow> sv_ctx st c = Some x \<Longrightarrow> skynet_mq_push (ctx_queue x) m (sv_mq st) = Some mq \<Longrightarrow>
    sv_step (st, refs, held) (st\<lparr>sv_mq := mq\<rparr>, refs, held)"
| sv_release: "of_bool (sv_REMOTE st = Some c) < refs c \<Longrightarrow> skynet_context_release c st = Some (r, st') \<Longrightarrow>
    sv_step (st, refs, held) (st', refs(c := refs c - 1), held)"
| sv_retire: "skynet_handle_retire (skynet_context_handle st) h (sv_H st) = Some (ret, Some c, H) \<Longrightarrow>
    sv_step (st, refs, held) (st\<lparr>sv_H := H\<rparr>, refs(c := refs c + 1), held)"
| sv_name: "cstring name \<Longrightarrow> hs_name_cap (sv_H st) \<le> 2 ^ 29 \<Longrightarrow> skynet_handle_namehandle h name (sv_H st) = Some (r, H) \<Longrightarrow>
    sv_step (st, refs, held) (st\<lparr>sv_H := H\<rparr>, refs, held)"
| sv_field: "0 < refs c \<Longrightarrow> sv_ctx st c = Some x \<Longrightarrow> ctx_ref y = ctx_ref x \<Longrightarrow> ctx_handle y = ctx_handle x \<Longrightarrow>
    ctx_queue y = ctx_queue x \<Longrightarrow> sv_step (st, refs, held) (st\<lparr>sv_ctx := (sv_ctx st)(c \<mapsto> y)\<rparr>, refs, held)"
| sv_get: "skynet_globalmq_pop (sv_mq st) = Some (Some p, mq) \<Longrightarrow>
    sv_step (st, refs, held) (st\<lparr>sv_mq := mq\<rparr>, refs, insert p held)"
| sv_give: "p \<in> held \<Longrightarrow> skynet_globalmq_push p (sv_mq st) = Some mq \<Longrightarrow>
    sv_step (st, refs, held) (st\<lparr>sv_mq := mq\<rparr>, refs, held - {p})"
| sv_take: "0 < refs c \<Longrightarrow> sv_ctx st c = Some x \<Longrightarrow> ctx_queue x \<in> held \<Longrightarrow> mq_heap (sv_mq st) (ctx_queue x) = Some q \<Longrightarrow>
    skynet_mq_pop q = Some (ret, r, q') \<Longrightarrow>
    sv_step (st, refs, held) (st\<lparr>sv_mq := mq_update (ctx_queue x) q' (sv_mq st)\<rparr>, refs,
      if r = None then held - {ctx_queue x} else held)"
| sv_drop: "p \<in> held \<Longrightarrow> skynet_mq_release p (sv_mq st) = Some (msgs, mq) \<Longrightarrow>
    sv_step (st, refs, held) (st\<lparr>sv_mq := mq\<rparr>, refs, held - {p})"
| sv_reserve: "0 < refs c \<Longrightarrow> sv_REMOTE st = None \<Longrightarrow> skynet_context_reserve c st = Some st' \<Longrightarrow>
    sv_step (st, refs, held) (st'\<lparr>sv_REMOTE := Some c\<rparr>, refs(c := refs c + 1), held)"
| sv_mem: "sv_brk st \<le> n \<Longrightarrow> sv_step (st, refs, held) (st\<lparr>sv_data := d, sv_brk := n\<rparr>, refs, held)"

definition sv_good :: "server \<times> (addr \<Rightarrow> nat) \<times> addr set \<Rightarrow> bool" where
  "sv_good s = (case s of (st, refs, held) \<Rightarrow> \<exists>xs. sv_inv st refs xs held)"

lemma sv_goodI: "sv_inv st refs xs held \<Longrightarrow> sv_good (st, refs, held)"
  by (auto simp: sv_good_def)

lemma sv_inv_names:
  assumes inv: "sv_inv st refs xs held" and n: "cstring name" "hs_name_cap (sv_H st) \<le> 2 ^ 29"
    "skynet_handle_namehandle h name (sv_H st) = Some (r, H)"
  shows "sv_inv (st\<lparr>sv_H := H\<rparr>) refs xs held"
proof -
  from namehandle_ok [OF sv_invD(3) [OF inv] n(1,2), of h] n(3) have
    H: "hs_names_inv H" "hs_slot H = hs_slot (sv_H st)" "hs_slot_size H = hs_slot_size (sv_H st)"
      "hs_harbor H = hs_harbor (sv_H st)" by auto
  then have c: "hs_ctxs H = hs_ctxs (sv_H st)" by (simp add: hs_ctxs_def)
  have h: "skynet_context_handle (st\<lparr>sv_H := H\<rparr>) = skynet_context_handle st"
    by (simp add: skynet_context_handle_def fun_eq_iff)
  have "hs_inv ch H = hs_inv ch (sv_H st)" for ch using H by (simp add: hs_inv_def)
  moreover have o: "ctx_ok (st\<lparr>sv_H := H\<rparr>) = ctx_ok st" by (simp add: ctx_ok_def c fun_eq_iff)
  ultimately show ?thesis using inv H(1) unfolding sv_inv_def h o by (simp add: c)
qed

lemma sv_inv_reserve:
  assumes inv: "sv_inv st refs xs held" and c: "0 < refs c" and none: "sv_REMOTE st = None"
    and r: "skynet_context_reserve c st = Some st'"
  shows "sv_inv (st'\<lparr>sv_REMOTE := Some c\<rparr>) (refs(c := refs c + 1)) xs held"
proof -
  from sv_invD(5) [OF inv c] obtain x where x: "sv_ctx st c = Some x" by auto
  let ?st = "st\<lparr>sv_ctx := (sv_ctx st)(c \<mapsto> x\<lparr>ctx_ref := ctx_ref x + 1\<rparr>)\<rparr>"
  note g = sv_inv_grab [OF inv x]
  have st': "st' = context_dec ?st"
    using r x by (simp add: skynet_context_reserve_def skynet_context_grab_def ctx_update_def)
  have h: "skynet_context_handle (st'\<lparr>sv_REMOTE := Some c\<rparr>) = skynet_context_handle ?st"
    by (simp add: skynet_context_handle_def fun_eq_iff st' context_dec_def)
  have o: "ctx_ok (st'\<lparr>sv_REMOTE := Some c\<rparr>) = ctx_ok ?st"
    by (simp add: ctx_ok_def fun_eq_iff st' context_dec_def)
  show ?thesis using g none unfolding sv_inv_def h o by (simp add: st' context_dec_def)
qed

lemma sv_inv_data:
  assumes "sv_inv st refs xs held" "sv_brk st \<le> n"
  shows "sv_inv (st\<lparr>sv_data := d, sv_brk := n\<rparr>) refs xs held"
proof -
  have h: "skynet_context_handle (st\<lparr>sv_data := d, sv_brk := n\<rparr>) = skynet_context_handle st"
    by (simp add: skynet_context_handle_def fun_eq_iff)
  have o: "ctx_ok (st\<lparr>sv_data := d, sv_brk := n\<rparr>) = ctx_ok st" by (simp add: ctx_ok_def fun_eq_iff)
  show ?thesis using assms unfolding sv_inv_def h o by (auto intro: less_le_trans)
qed

lemma sv_step_good:
  assumes "sv_step s t" "sv_good s"
  shows "sv_good t"
  using assms
proof (induction rule: sv_step.induct)
  case (sv_new x st c st' y refs held)
  then obtain xs where inv: "sv_inv st refs xs held" by (auto simp: sv_good_def)
  from context_register_ok [OF inv sv_new(3,2)] sv_new(1,4) obtain p where
    "ctx_queue y = p" "sv_inv st' (refs(c := 1)) xs (insert p held)" by auto
  then show ?case by (metis sv_goodI)
next
  case (sv_grab h st c st' refs held)
  then obtain xs where inv: "sv_inv st refs xs held" by (auto simp: sv_good_def)
  from handle_grab_ok [OF inv, of h] sv_grab(1) obtain x where
    x: "sv_ctx st c = Some x" "st' = st\<lparr>sv_ctx := (sv_ctx st)(c \<mapsto> x\<lparr>ctx_ref := ctx_ref x + 1\<rparr>)\<rparr>"
    by (auto split: option.splits)
  show ?case unfolding x(2) by (rule sv_goodI [OF sv_inv_grab [OF inv x(1)]])
next
  case (sv_push refs c st x m mq held)
  then obtain xs where inv: "sv_inv st refs xs held" by (auto simp: sv_good_def)
  from sv_inv_ctx [OF inv sv_push(2)] obtain ms where
    v: "mq_view (sv_mq st) (ctx_queue x) = Some (ctx_handle x, False, ms)" by (auto simp: ctx_ok_def)
  then obtain q where q: "mq_heap (sv_mq st) (ctx_queue x) = Some q" "mq_release q = 0" "mq_contents q = ms"
    by (auto simp: mq_view_def mq_box_def)
  have "length ms + 1 < 2 ^ 30"
  proof (rule ccontr)
    assume "\<not> length ms + 1 < 2 ^ 30"
    then have "mq_put q m = None"
      using mq_put_full [OF mq_ok_rep [OF sv_invD(1) [OF inv] q(1)]] q(3) by (simp add: mq_limit_def)
    with sv_push(3) q(1) show False by (simp add: skynet_mq_push_def)
  qed
  from mq_view_push [OF sv_invD(1) [OF inv] v this, of m] sv_push(3) obtain xs' where
    mq: "mq_ok mq xs' held" "mq_view mq = (mq_view (sv_mq st))(ctx_queue x \<mapsto> (ctx_handle x, False, ms @ [m]))" by auto
  show ?case by (rule sv_goodI, rule sv_inv_mq [OF inv mq(1)]) (use mq(2) v in auto)
next
  case (sv_release st c refs r st' held)
  then obtain xs where inv: "sv_inv st refs xs held" by (auto simp: sv_good_def)
  from sv_release(1) sv_invD(5) [OF inv, of c] obtain x where "sv_ctx st c = Some x" by (cases "refs c") auto
  from sv_release_ok [OF inv this sv_release(1)] sv_release(2) show ?case by (auto intro: sv_goodI)
next
  case (sv_retire st h ret c H refs held)
  then obtain xs where inv: "sv_inv st refs xs held" by (auto simp: sv_good_def)
  show ?case by (rule sv_goodI [OF sv_inv_unregister [OF inv sv_retire(1)]])
next
  case (sv_name name st h r H refs held)
  then obtain xs where inv: "sv_inv st refs xs held" by (auto simp: sv_good_def)
  show ?case by (rule sv_goodI [OF sv_inv_names [OF inv sv_name(1-3)]])
next
  case (sv_field refs c st x y held)
  then obtain xs where inv: "sv_inv st refs xs held" by (auto simp: sv_good_def)
  show ?case by (rule sv_goodI [OF sv_inv_field [OF inv sv_field(2-5)]])
next
  case (sv_get st p mq refs held)
  then obtain xs where inv: "sv_inv st refs xs held" by (auto simp: sv_good_def)
  from mq_view_get [OF sv_invD(1) [OF inv] sv_get(1)] obtain xs' where
    mq: "mq_ok mq xs' (insert p held)" "mq_view mq = mq_view (sv_mq st)" by auto
  show ?case by (rule sv_goodI, rule sv_inv_mq [OF inv mq(1)]) (use mq(2) in auto)
next
  case (sv_give p held st mq refs)
  then obtain xs where inv: "sv_inv st refs xs held" by (auto simp: sv_good_def)
  from mq_view_give [OF sv_invD(1) [OF inv] sv_give(2,1)] obtain xs' where
    mq: "mq_ok mq xs' (held - {p})" "mq_view mq = mq_view (sv_mq st)" by auto
  show ?case by (rule sv_goodI, rule sv_inv_mq [OF inv mq(1)]) (use mq(2) in auto)
next
  case (sv_take refs c st x held q ret r q')
  then obtain xs where inv: "sv_inv st refs xs held" by (auto simp: sv_good_def)
  from sv_inv_ctx [OF inv sv_take(2)] obtain ms where
    v: "mq_view (sv_mq st) (ctx_queue x) = Some (ctx_handle x, False, ms)" by (auto simp: ctx_ok_def)
  note t = mq_view_take [OF sv_invD(1) [OF inv] v sv_take(3-5)]
  show ?case by (rule sv_goodI, rule sv_inv_mq [OF inv t(1)]) (use t(2) v in auto)
next
  case (sv_drop p held st msgs mq refs)
  then obtain xs where inv: "sv_inv st refs xs held" by (auto simp: sv_good_def)
  from mq_view_drop [OF sv_invD(1) [OF inv] sv_drop(1,2)] obtain xs' h b ms where
    d: "mq_ok mq xs' (held - {p})" "mq_view (sv_mq st) p = Some (h, b, ms)"
      "mq_view mq = (mq_view (sv_mq st))(p := if b then None else mq_view (sv_mq st) p)" by auto
  show ?case by (rule sv_goodI, rule sv_inv_mq [OF inv d(1)]) (use d(2,3) in \<open>auto split: if_splits\<close>)
next
  case (sv_reserve refs c st st' held)
  then obtain xs where inv: "sv_inv st refs xs held" by (auto simp: sv_good_def)
  show ?case by (rule sv_goodI [OF sv_inv_reserve [OF inv sv_reserve(1-3)]])
next
  case (sv_mem st n refs held d)
  then obtain xs where inv: "sv_inv st refs xs held" by (auto simp: sv_good_def)
  show ?case by (rule sv_goodI [OF sv_inv_data [OF inv sv_mem(1)]])
qed

text \<open>The initialisation in \<^verbatim>\<open>skynet_start\<close>: harbor, handle storage, message queues, node.\<close>

definition server_init :: "int \<Rightarrow> bool \<Rightarrow> server" where
  "server_init harbor profile =
     \<lparr> sv_mq = skynet_mq_init, sv_H = skynet_handle_init harbor, sv_ctx = Map.empty, sv_data = Map.empty,
       sv_brk = 1, sv_node = \<lparr>node_total = 0, node_monitor_exit = 0, node_profile = profile\<rparr>,
       sv_REMOTE = None, sv_HARBOR = push_bit HANDLE_REMOTE_SHIFT (of_int harbor), sv_logger = 0 \<rparr>"

definition sv_start :: "server \<times> (addr \<Rightarrow> nat) \<times> addr set \<Rightarrow> bool" where
  "sv_start s \<longleftrightarrow> (\<exists>harbor profile. s = (server_init harbor profile, \<lambda>_. 0, {}))"

lemma hs_ctxs_init: "hs_ctxs (skynet_handle_init harbor) = {}"
  by (auto simp: hs_ctxs_def skynet_handle_init_def)

lemma sv_inv_init: "sv_inv (server_init harbor profile) (\<lambda>_. 0) [] {}"
  using mq_ok_init handle_init_ok
  by (simp add: sv_inv_def server_init_def hs_ctxs_init mq_view_def skynet_mq_init_def domIff)

interpretation svi: invariant sv_start sv_step sv_good
  by unfold_locales (auto simp: sv_start_def intro: sv_goodI sv_inv_init sv_step_good)

lemma sv_reach_inv:
  assumes "reaches sv_start sv_step (st, refs, held)"
  obtains xs where "sv_inv st refs xs held"
  using svi.inv_reaches [OF assms] by (auto simp: sv_good_def)

section \<open>Properties\<close>


definition demo_context :: skynet_context where
  "demo_context = \<lparr> ctx_instance = 0, ctx_mod = 0, ctx_cb = None, ctx_queue = 0, ctx_logfile = None,
     ctx_cpu_cost = 0, ctx_cpu_start = 0, ctx_result = [], ctx_handle = 0, ctx_session_id = 0, ctx_ref = 2,
     ctx_message_count = 0, ctx_init = False, ctx_endless = False, ctx_profile = False \<rparr>"

text \<open>The node after its first service was registered.\<close>

definition demo_server :: server where
  "demo_server =
     \<lparr> sv_mq = mq_update 2 (skynet_mq_create 0x1000001) skynet_mq_init,
       sv_H = (skynet_handle_init 1)\<lparr>hs_slot := [None, Some 1, None, None], hs_handle_index := 2\<rparr>,
       sv_ctx = [1 \<mapsto> demo_context\<lparr>ctx_handle := 0x1000001, ctx_queue := 2\<rparr>], sv_data = Map.empty,
       sv_brk = 3, sv_node = \<lparr>node_total = 1, node_monitor_exit = 0, node_profile = False\<rparr>,
       sv_REMOTE = None, sv_HARBOR = 0x1000000, sv_logger = 0 \<rparr>"

lemma demo_register: "context_register demo_context (server_init 1 False) = Some (1, demo_server)"
proof -
  have f: "find_slot (skynet_handle_init 1) = Some 1" by code_simp
  have o: "1 OR hs_harbor (skynet_handle_init 1) = 0x1000001" by code_simp
  have l: "(hs_slot (skynet_handle_init 1))[slot_hash (hs_slot_size (skynet_handle_init 1)) 1 := Some (Suc 0)] =
      [None, Some (Suc 0), None, None]" by code_simp
  have h: "push_bit HANDLE_REMOTE_SHIFT (of_int 1) = (0x1000000 :: u32)" by code_simp
  have r: "skynet_handle_register ch 1 (skynet_handle_init 1) =
      Some (0x1000001, (skynet_handle_init 1)\<lparr>hs_slot := [None, Some 1, None, None], hs_handle_index := 2\<rparr>)" for ch
    by (subst skynet_handle_register.simps) (simp add: f o l)
  show ?thesis
    using r h by (simp add: context_register_def server_init_def sv_alloc_def context_inc_def demo_server_def Let_def numeral_2_eq_2)
qed

lemma demo_reaches: "reaches sv_start sv_step (demo_server, (\<lambda>_. 0)(1 := 1), {2})"
proof -
  have r: "reaches sv_start sv_step (server_init 1 False, \<lambda>_. 0, {})"
    by (rule reaches_start) (auto simp: sv_start_def)
  have room: "0 < hs_room (sv_H (server_init 1 False))"
    by (simp add: hs_room_def server_init_def skynet_handle_init_def DEFAULT_SLOT_SIZE_def)
  have two: "ctx_ref demo_context = 2" by (simp add: demo_context_def)
  have c: "sv_ctx demo_server 1 = Some (demo_context\<lparr>ctx_handle := 0x1000001, ctx_queue := 2\<rparr>)"
    by (simp add: demo_server_def)
  from reaches_step [OF r sv_new [OF demo_register two room c]] show ?thesis by simp
qed

lemma demo_slot: "slot_of (skynet_context_handle demo_server) (sv_H demo_server) 0x1000001 = Some 1"
proof -
  have "slot_hash 4 0x1000001 = 1" by code_simp
  then show ?thesis
    by (simp add: slot_of_def demo_server_def skynet_context_handle_def skynet_handle_init_def DEFAULT_SLOT_SIZE_def)
qed

lemma demo_view: "mq_view (sv_mq demo_server) = [2 \<mapsto> (0x1000001, False, [])]"
  by (auto simp: demo_server_def mq_view_def mq_update_def mq_box_def skynet_mq_init_def skynet_mq_create_def fun_eq_iff
      mq_contents_def skynet_mq_length_def Let_def)

lemma sv_reach_one:
  "\<exists>st c p x k. reaches sv_start sv_step (st, (\<lambda>_. 0)(c := 1), {p}) \<and> sv_ctx st c = Some x
     \<and> slot_of (skynet_context_handle st) (sv_H st) k = Some c \<and> mq_view (sv_mq st) = [p \<mapsto> (k, False, [])]
     \<and> sv_REMOTE st = None"
  using demo_reaches demo_slot demo_view
  by (intro exI [of _ demo_server] exI [of _ 1] exI [of _ 2] exI [of _ "demo_context\<lparr>ctx_handle := 0x1000001, ctx_queue := 2\<rparr>"]
      exI [of _ "0x1000001"]) (auto simp: demo_server_def)


text \<open>
  Sending by handle delivers: in every reachable state (with room in the queues), a push
  to a handle in use appends the message to the queue of exactly the context that has
  this handle, changes no other queue and no context, and returns 0; a push to any
  other handle returns -1 and changes nothing.
\<close>

theorem context_push_delivers:
  assumes "reaches sv_start sv_step (st, refs, held)"
    and "\<forall>p k ms. mq_view (sv_mq st) p = Some (k, False, ms) \<longrightarrow> length ms + 1 < 2 ^ 30"
  shows "case skynet_handle_grab (skynet_context_handle st) (sv_H st) h of
      None \<Rightarrow> skynet_context_push h m st = Some (- 1, st)
    | Some c \<Rightarrow> \<exists>x mq ms. sv_ctx st c = Some x \<and> ctx_handle x = h
        \<and> skynet_context_push h m st = Some (0, st\<lparr>sv_mq := mq\<rparr>)
        \<and> mq_view (sv_mq st) (ctx_queue x) = Some (h, False, ms)
        \<and> mq_view mq = (mq_view (sv_mq st))(ctx_queue x \<mapsto> (h, False, ms @ [m]))"
proof -
  from assms(1) obtain xs where inv: "sv_inv st refs xs held" by (rule sv_reach_inv)
  have "ctx_handle x = h" if "slot_of (skynet_context_handle st) (sv_H st) h = Some c" "sv_ctx st c = Some x" for c x
    using slot_of_iff [OF sv_invD(2) [OF inv], of h c] that by (simp add: skynet_context_handle_def)
  with context_push_ok [OF inv, of h m] assms(2) show ?thesis
    unfolding skynet_handle_grab_def by (fastforce split: option.splits)
qed

theorem context_push_delivers_witness:
  "\<exists>st h st' p. skynet_context_push h \<lparr>msg_source = 1, msg_session = 2, msg_data = 3, msg_sz = 4\<rparr> st = Some (0, st')
     \<and> mq_view (sv_mq st') = [p \<mapsto> (h, False, [\<lparr>msg_source = 1, msg_session = 2, msg_data = 3, msg_sz = 4\<rparr>])]"
proof -
  let ?m = "\<lparr>msg_source = 1, msg_session = 2, msg_data = 3, msg_sz = 4\<rparr>"
  from sv_reach_one obtain st c p k where r: "reaches sv_start sv_step (st, (\<lambda>_. 0)(c := 1), {p})"
    and k: "slot_of (skynet_context_handle st) (sv_H st) k = Some c" and v: "mq_view (sv_mq st) = [p \<mapsto> (k, False, [])]"
    by blast
  have "\<forall>a h ms. mq_view (sv_mq st) a = Some (h, False, ms) \<longrightarrow> length ms + 1 < 2 ^ 30"
    using v by (auto split: if_splits)
  from context_push_delivers [OF r this, of k ?m] k obtain x :: skynet_context and mq ms where
    "skynet_context_push k ?m st = Some (0, st\<lparr>sv_mq := mq\<rparr>)" "mq_view (sv_mq st) (ctx_queue x) = Some (k, False, ms)"
    "mq_view mq = (mq_view (sv_mq st))(ctx_queue x \<mapsto> (k, False, ms @ [?m]))"
    by (simp add: skynet_handle_grab_def) blast
  moreover from this(2) v have "ctx_queue x = p" "ms = []" by (auto split: if_splits)
  ultimately show ?thesis using v by (intro exI [of _ st] exI [of _ k] exI [of _ "st\<lparr>sv_mq := mq\<rparr>"] exI [of _ p]) simp
qed

text \<open>
  C12: A context dies with its last reference, and its mail with it: releasing a reference one
  holds never fails; it deletes the context exactly when the count was one, and then
  marks its queue for release with all its messages still in it; otherwise only the
  count changes. The node's count of live contexts stays right (the reserved harbor is not counted).
\<close>

theorem context_release_exact:
  assumes "reaches sv_start sv_step (st, refs, held)" "of_bool (sv_REMOTE st = Some c) < refs c" "sv_ctx st c = Some x"
  shows "\<exists>st' ms. skynet_context_release c st = Some (if ctx_ref x = 1 then None else Some c, st')
     \<and> sv_ctx st' = (sv_ctx st)(c := if ctx_ref x = 1 then None else Some (x\<lparr>ctx_ref := ctx_ref x - 1\<rparr>))
     \<and> mq_view (sv_mq st) (ctx_queue x) = Some (ctx_handle x, False, ms)
     \<and> mq_view (sv_mq st') = (mq_view (sv_mq st))(ctx_queue x \<mapsto> (ctx_handle x, ctx_ref x = 1, ms))
     \<and> skynet_context_total st' = int (card (dom (sv_ctx st'))) - of_bool (sv_REMOTE st' \<noteq> None)"
proof -
  from assms(1) obtain xs where inv: "sv_inv st refs xs held" by (rule sv_reach_inv)
  from sv_release_ok [OF inv assms(3,2)] obtain st' xs' h ms where
    st': "skynet_context_release c st = Some (if ctx_ref x = 1 then None else Some c, st')"
      "sv_inv st' (refs(c := refs c - 1)) xs' held"
      "sv_ctx st' = (sv_ctx st)(c := if ctx_ref x = 1 then None else Some (x\<lparr>ctx_ref := ctx_ref x - 1\<rparr>))"
      "mq_view (sv_mq st) (ctx_queue x) = Some (h, False, ms)"
      "mq_view (sv_mq st') = (mq_view (sv_mq st))(ctx_queue x \<mapsto> (h, ctx_ref x = 1, ms))" by blast
  have "h = ctx_handle x" using sv_inv_ctx [OF inv assms(3)] st'(4) by (auto simp: ctx_ok_def)
  with st' sv_invD(10) [OF st'(2)] show ?thesis unfolding skynet_context_total_def by blast
qed

theorem context_release_exact_witness:
  "\<exists>st c r st'. skynet_context_release c st = Some (r, st')
     \<and> skynet_context_total st' = int (card (dom (sv_ctx st'))) - of_bool (sv_REMOTE st' \<noteq> None)"
proof -
  from sv_reach_one obtain st c p x where r: "reaches sv_start sv_step (st, (\<lambda>_. 0)(c := 1), {p})" "sv_ctx st c = Some x"
    and n: "sv_REMOTE st = None"
    by blast
  from n have "of_bool (sv_REMOTE st = Some c) < ((\<lambda>_. 0)(c := 1 :: nat)) c" by simp
  from context_release_exact [OF r(1) this r(2)] show ?thesis by blast
qed

text \<open>
  Session numbers are always positive, also after the counter reaches \<^verbatim>\<open>INT_MAX\<close>, and
  two consecutive ones differ.
\<close>

theorem session_positive:
  assumes "- INT_MAX - 1 \<le> ctx_session_id x" "ctx_session_id x \<le> INT_MAX" "newsession x = (s, x')" "newsession x' = (s', x'')"
  shows "0 < s \<and> s \<le> INT_MAX \<and> ctx_session_id x' = s \<and> s' \<noteq> s"
  using assms by (auto simp: newsession_def int32_inc_def INT_MAX_def Let_def split: if_splits)

theorem session_positive_witness:
  "\<exists>x'. newsession (demo_context\<lparr>ctx_session_id := INT_MAX\<rparr>) = (1, x') \<and> 0 < (1 :: int) \<and> ctx_session_id x' = 1"
proof -
  let ?x = "demo_context\<lparr>ctx_session_id := INT_MAX\<rparr>"
  have n: "newsession ?x = (1, ?x\<lparr>ctx_session_id := 1\<rparr>)"
    by (simp add: newsession_def int32_inc_def INT_MAX_def)
  obtain s' x'' where "newsession (?x\<lparr>ctx_session_id := 1\<rparr>) = (s', x'')" by (cases "newsession (?x\<lparr>ctx_session_id := 1\<rparr>)")
  from session_positive [OF _ _ n this] n show ?thesis by (simp add: INT_MAX_def)
qed

end
