(* ===== verification/C_Text.thy ===== *)
theory C_Text
  imports Skynet_Prelude
begin

text \<open>
  The functions of the C library that turn numbers into text and back, as the sources
  use them: \<^verbatim>\<open>strtoul\<close> and \<^verbatim>\<open>strtol\<close> with base 16 and 10, and the conversions
  \<^verbatim>\<open>%x\<close>, \<^verbatim>\<open>%d\<close> and \<^verbatim>\<open>%u\<close> of \<^verbatim>\<open>sprintf\<close>. A C string is the list of its characters
  without the terminator.
\<close>

definition c_isspace :: "char \<Rightarrow> bool" where
  "c_isspace c \<longleftrightarrow> (let n = of_char c :: nat in n = 32 \<or> 9 \<le> n \<and> n \<le> 13)"

definition digit_val :: "nat \<Rightarrow> char \<Rightarrow> nat option" where
  "digit_val base c =
     (let n = of_char c :: nat;
          d = (if 48 \<le> n \<and> n \<le> 57 then n - 48
               else if 97 \<le> n \<and> n \<le> 122 then n - 87
               else if 65 \<le> n \<and> n \<le> 90 then n - 55 else 99)
      in if d < base then Some d else None)"

text \<open>The value of the longest prefix of digits.\<close>

fun read_digits :: "nat \<Rightarrow> nat \<Rightarrow> string \<Rightarrow> nat" where
  "read_digits base acc [] = acc"
| "read_digits base acc (c # cs) =
     (case digit_val base c of None \<Rightarrow> acc | Some d \<Rightarrow> read_digits base (acc * base + d) cs)"

definition read_sign :: "string \<Rightarrow> bool \<times> string" where
  "read_sign s =
     (case s of
        [] \<Rightarrow> (False, s)
      | c # cs \<Rightarrow> if c = CHR ''-'' then (True, cs) else if c = CHR ''+'' then (False, cs) else (False, s))"

definition skip_0x :: "string \<Rightarrow> string" where
  "skip_0x s =
     (case s of
        a # b # c # cs \<Rightarrow>
          if a = CHR ''0'' \<and> (b = CHR ''x'' \<or> b = CHR ''X'') \<and> digit_val 16 c \<noteq> None then c # cs else s
      | _ \<Rightarrow> s)"

definition strtoul :: "nat \<Rightarrow> string \<Rightarrow> u64" where
  "strtoul base s =
     (let (neg, s) = read_sign (dropWhile c_isspace s);
          n = read_digits base 0 (if base = 16 then skip_0x s else s)
      in if n \<ge> 2 ^ 64 then - 1 else if neg then - of_nat n else of_nat n)"

definition strtol :: "nat \<Rightarrow> string \<Rightarrow> int" where
  "strtol base s =
     (let (neg, s) = read_sign (dropWhile c_isspace s);
          n = int (read_digits base 0 (if base = 16 then skip_0x s else s))
      in if neg then max (- (2 ^ 63)) (- n) else min (2 ^ 63 - 1) n)"

text \<open>The conversion of a \<^verbatim>\<open>long\<close> to an \<^verbatim>\<open>int\<close>.\<close>

definition to_int32 :: "int \<Rightarrow> int" where
  "to_int32 n = signed_take_bit 31 n"

section \<open>Printing\<close>

definition digit_char :: "nat \<Rightarrow> char" where
  "digit_char d = (if d < 10 then char_of (48 + d) else char_of (87 + d))"

fun print_base :: "nat \<Rightarrow> nat \<Rightarrow> string" where
  "print_base base n =
     (if base < 2 \<or> n < base then [digit_char n]
      else print_base base (n div base) @ [digit_char (n mod base)])"

declare print_base.simps [simp del]

definition print_hex :: "nat \<Rightarrow> string" where
  "print_hex n = print_base 16 n"

definition print_int :: "int \<Rightarrow> string" where
  "print_int i = (if i < 0 then CHR ''-'' # print_base 10 (nat (- i)) else print_base 10 (nat i))"

section \<open>What is printed is read back\<close>

lemma digit_val_char: "d < base \<Longrightarrow> base \<le> 36 \<Longrightarrow> digit_val base (digit_char d) = Some d"
  by (auto simp: digit_val_def digit_char_def of_char_of Let_def)

lemma read_digits_append:
  assumes "\<And>c. c \<in> set xs \<Longrightarrow> digit_val base c \<noteq> None"
  shows "read_digits base acc (xs @ ys) = read_digits base (read_digits base acc xs) ys"
  using assms by (induction xs arbitrary: acc) (fastforce split: option.splits)+

lemma print_base_digits:
  assumes "2 \<le> base" "base \<le> 36" "c \<in> set (print_base base n)"
  shows "\<exists>d < base. c = digit_char d"
  using assms
proof (induction base n rule: print_base.induct)
  case (1 base n)
  have "n mod base < base" using 1(2) by simp
  with 1 show ?case by (subst (asm) (2) print_base.simps) (fastforce split: if_splits)
qed

lemma read_print:
  assumes "2 \<le> base" "base \<le> 36"
  shows "read_digits base 0 (print_base base n) = n"
  using assms
proof (induction base n rule: print_base.induct)
  case (1 base n)
  show ?case
  proof (cases "n < base")
    case True
    then show ?thesis using 1 by (simp add: print_base.simps digit_val_char)
  next
    case False
    have "digit_val base c \<noteq> None" if "c \<in> set (print_base base (n div base))" for c
      using print_base_digits [OF 1(2,3) that] digit_val_char 1(3) by auto
    moreover have "n mod base < base" using 1(2) by simp
    ultimately show ?thesis
      using False 1 by (subst print_base.simps) (simp add: read_digits_append digit_val_char)
  qed
qed

lemma print_base_Cons:
  assumes "2 \<le> base" "base \<le> 36"
  obtains d cs where "d < base" "print_base base n = digit_char d # cs" "d = 0 \<Longrightarrow> n = 0"
proof -
  have "\<exists>d cs. d < base \<and> print_base base n = digit_char d # cs \<and> (d = 0 \<longrightarrow> n = 0)"
    using assms
  proof (induction base n rule: print_base.induct)
    case (1 base n)
    show ?case
    proof (cases "n < base")
      case True
      then show ?thesis by (intro exI [of _ n]) (simp add: print_base.simps)
    next
      case False
      with 1 obtain d cs where "d < base" "print_base base (n div base) = digit_char d # cs" "d = 0 \<longrightarrow> n div base = 0"
        by auto
      with False 1(2) show ?thesis by (subst print_base.simps) (auto simp: div_eq_0_iff)
    qed
  qed
  with that show ?thesis by blast
qed

lemma of_char_digit: "d < 36 \<Longrightarrow> of_char (digit_char d) = (if d < 10 then 48 + d else 87 + d)"
  by (simp add: digit_char_def of_char_of)

lemma digit_char_plain:
  assumes "d < 36"
  shows "\<not> c_isspace (digit_char d)" "digit_char d \<noteq> CHR ''-''" "digit_char d \<noteq> CHR ''+''"
    "digit_char d = CHR ''0'' \<longleftrightarrow> d = 0" "d < 16 \<Longrightarrow> digit_char d \<noteq> CHR ''x'' \<and> digit_char d \<noteq> CHR ''X''"
proof -
  have eq: "digit_char d = c \<longleftrightarrow> (if d < 10 then 48 + d else 87 + d) = of_char c" for c
    using of_char_digit [OF assms] of_char_eq_iff [of "digit_char d" c, where ?'a = nat] by simp
  show "\<not> c_isspace (digit_char d)" using of_char_digit [OF assms] by (simp add: c_isspace_def Let_def)
  show "digit_char d \<noteq> CHR ''-''" "digit_char d \<noteq> CHR ''+''" "digit_char d = CHR ''0'' \<longleftrightarrow> d = 0"
    "d < 16 \<Longrightarrow> digit_char d \<noteq> CHR ''x'' \<and> digit_char d \<noteq> CHR ''X''"
    unfolding eq by auto
qed

text \<open>A printed number has no white space, sign or \<^verbatim>\<open>0x\<close> in front of its digits.\<close>

lemma strtoul_hex:
  assumes "n < 2 ^ 64"
  shows "strtoul 16 (print_hex n) = of_nat n"
proof -
  obtain d cs where d: "d < 16" "print_hex n = digit_char d # cs" "d = 0 \<Longrightarrow> n = 0"
    unfolding print_hex_def by (rule print_base_Cons [of 16 n]) auto
  have "skip_0x (print_hex n) = print_hex n"
  proof (cases cs)
    case (Cons e es)
    then have "e \<in> set (print_base 16 n)" using d(2) by (simp add: print_hex_def)
    then obtain b where "b < 16" "e = digit_char b" using print_base_digits [of 16 e n] by auto
    then show ?thesis using d(2) Cons digit_char_plain(5) [of b] by (auto simp: skip_0x_def split: list.splits)
  qed (simp add: skip_0x_def d(2))
  moreover have "dropWhile c_isspace (print_hex n) = print_hex n" "read_sign (print_hex n) = (False, print_hex n)"
    using d digit_char_plain [of d] by (auto simp: read_sign_def)
  ultimately show ?thesis
    using assms read_print [of 16 n] by (simp add: strtoul_def print_hex_def)
qed

lemma strtol_dec:
  assumes "n < 2 ^ 63"
  shows "strtol 10 (print_base 10 n) = int n"
proof -
  obtain d cs where d: "d < 10" "print_base 10 n = digit_char d # cs"
    by (rule print_base_Cons [of 10 n]) auto
  then have "dropWhile c_isspace (print_base 10 n) = print_base 10 n" "read_sign (print_base 10 n) = (False, print_base 10 n)"
    using digit_char_plain [of d] by (auto simp: read_sign_def)
  then show ?thesis using assms read_print [of 10 n] by (simp add: strtol_def)
qed

end
