(* ===== verification/Server_Send.thy ===== *)
theory Server_Send
  imports Server_Context Timer_Wheel C_Text
begin

text \<open>
  Sending: \<^verbatim>\<open>skynet_send\<close>, \<^verbatim>\<open>skynet_sendname\<close> and what they call in
  \<^verbatim>\<open>skynet_server.c\<close>, the hand-over of remote messages in \<^verbatim>\<open>skynet_harbor.c\<close>, the log
  line of \<^verbatim>\<open>skynet_error.c\<close>, and the text form of handles. The lemmas follow the
  ownership of message data: who frees the block that a message carries.

  A pointer to message data is an address of \<^term>\<open>sv_data\<close>, 0 for \<^verbatim>\<open>NULL\<close>; the memory of a caller
  that asks for a copy is such a block too. A \<^verbatim>\<open>NULL\<close> context is \<^term>\<open>None\<close>.
\<close>

section \<open>Message types\<close>

definition PTYPE_TEXT :: int where
  "PTYPE_TEXT = 0"

definition PTYPE_CLIENT :: int where
  "PTYPE_CLIENT = 3"

definition PTYPE_SYSTEM :: int where
  "PTYPE_SYSTEM = 4"

definition PTYPE_HARBOR :: int where
  "PTYPE_HARBOR = 5"

definition PTYPE_ERROR :: int where
  "PTYPE_ERROR = 7"

definition PTYPE_TAG_DONTCOPY :: int where
  "PTYPE_TAG_DONTCOPY = 0x10000"

definition PTYPE_TAG_ALLOCSESSION :: int where
  "PTYPE_TAG_ALLOCSESSION = 0x20000"

definition MESSAGE_TYPE_MASK :: u64 where
  "MESSAGE_TYPE_MASK = drop_bit 8 0xFFFFFFFFFFFFFFFF"

text \<open>\<^verbatim>\<open>sz | (size_t)type << MESSAGE_TYPE_SHIFT\<close>, and the two parts of it.\<close>

definition with_type :: "u64 \<Rightarrow> int \<Rightarrow> u64" where
  "with_type sz type = sz OR push_bit MESSAGE_TYPE_SHIFT (of_int type)"

definition size_of :: "u64 \<Rightarrow> u64" where
  "size_of sz = sz AND MESSAGE_TYPE_MASK"

definition type_of :: "u64 \<Rightarrow> int" where
  "type_of sz = int (unat (drop_bit MESSAGE_TYPE_SHIFT sz))"

definition GLOBALNAME_LENGTH :: nat where
  "GLOBALNAME_LENGTH = 16"

definition LOG_MESSAGE_SIZE :: nat where
  "LOG_MESSAGE_SIZE = 256"

text \<open>\<^verbatim>\<open>sizeof(struct remote_message)\<close> on a 64-bit machine: a name of 16 bytes, a handle, a pointer, a size and a type.\<close>

definition REMOTE_MESSAGE_SIZE :: u64 where
  "REMOTE_MESSAGE_SIZE = 48"

section \<open>The log\<close>

text \<open>
  \<^verbatim>\<open>skynet_error\<close> with the formatted text as its argument. A text that does not fit the
  buffer of the stack is formatted into heap blocks of doubled size until one is large enough;
  the blocks that were too small are freed.
\<close>

function error_grow :: "string \<Rightarrow> nat \<Rightarrow> server \<Rightarrow> (addr \<times> server) option" where
  "error_grow txt max_size st =
     (if max_size = 0 then None
      else let max_size = max_size * 2;
               (data, st) = data_alloc (Bytes (map of_char txt)) st
           in if length txt < max_size then Some (data, st)
              else do { st \<leftarrow> data_free data st; error_grow txt max_size st })"
  by pat_completeness auto
termination
  by (relation "measure (\<lambda>(txt, max_size, st). length txt - max_size)") auto

declare error_grow.simps [simp del]

definition skynet_error :: "addr option \<Rightarrow> string \<Rightarrow> server \<Rightarrow> server option" where
  "skynet_error context txt st = do {
     logger \<leftarrow> (if sv_logger st = 0 then skynet_handle_findname (sv_H st) ''logger'' else Some (sv_logger st));
     let st = st\<lparr>sv_logger := logger\<rparr>;
     if logger = 0 then Some st
     else do {
       (data, st) \<leftarrow> (if length txt < LOG_MESSAGE_SIZE then Some (data_alloc (Bytes (map of_char txt)) st)
                      else error_grow txt LOG_MESSAGE_SIZE st);
       source \<leftarrow> (case context of None \<Rightarrow> Some 0 | Some c \<Rightarrow> map_option ctx_handle (sv_ctx st c));
       (_, st) \<leftarrow> skynet_context_push logger
         \<lparr>msg_source = source, msg_session = 0, msg_data = data, msg_sz = with_type (of_nat (length txt)) PTYPE_TEXT\<rparr> st;
       Some st
     }
   }"

section \<open>The harbor\<close>

definition invalid_type :: "int \<Rightarrow> bool" where
  "invalid_type type \<longleftrightarrow> type \<noteq> PTYPE_SYSTEM \<and> type \<noteq> PTYPE_HARBOR"

definition skynet_context_send :: "addr \<Rightarrow> addr \<Rightarrow> u64 \<Rightarrow> u32 \<Rightarrow> int \<Rightarrow> int \<Rightarrow> server \<Rightarrow> server option" where
  "skynet_context_send c msg sz source type session st = do {
     x \<leftarrow> sv_ctx st c;
     mq \<leftarrow> skynet_mq_push (ctx_queue x)
       \<lparr>msg_source = source, msg_session = session, msg_data = msg, msg_sz = with_type sz type\<rparr> (sv_mq st);
     Some (st\<lparr>sv_mq := mq\<rparr>)
   }"

definition skynet_harbor_send :: "addr \<Rightarrow> u32 \<Rightarrow> int \<Rightarrow> server \<Rightarrow> server option" where
  "skynet_harbor_send rmsg source session st =
     (case sv_data st rmsg of
        Some (Remote r) \<Rightarrow>
          if invalid_type (rm_type r) then do {
            remote \<leftarrow> sv_REMOTE st;
            skynet_context_send remote rmsg REMOTE_MESSAGE_SIZE source PTYPE_SYSTEM session st
          } else None
      | _ \<Rightarrow> None)"

definition skynet_harbor_message_isremote :: "u32 \<Rightarrow> server \<Rightarrow> bool option" where
  "skynet_harbor_message_isremote handle st =
     (if sv_HARBOR st = - 1 then None
      else let h = handle AND NOT HANDLE_MASK in Some (h \<noteq> sv_HARBOR st \<and> h \<noteq> 0))"

definition skynet_harbor_init :: "int \<Rightarrow> server \<Rightarrow> server" where
  "skynet_harbor_init harbor st = st\<lparr>sv_HARBOR := push_bit HANDLE_REMOTE_SHIFT (of_int harbor)\<rparr>"

definition skynet_harbor_start :: "addr \<Rightarrow> server \<Rightarrow> server option" where
  "skynet_harbor_start ctx st = map_option (\<lambda>st. st\<lparr>sv_REMOTE := Some ctx\<rparr>) (skynet_context_reserve ctx st)"

definition skynet_harbor_exit :: "server \<Rightarrow> server option" where
  "skynet_harbor_exit st =
     (let ctx = sv_REMOTE st; st = st\<lparr>sv_REMOTE := None\<rparr> in
      case ctx of None \<Rightarrow> Some st | Some c \<Rightarrow> map_option snd (skynet_context_release c st))"

definition skynet_isremote :: "u32 \<Rightarrow> server \<Rightarrow> (bool \<times> int) option" where
  "skynet_isremote handle st =
     map_option (\<lambda>ret. (ret, int (unat (drop_bit HANDLE_REMOTE_SHIFT handle)))) (skynet_harbor_message_isremote handle st)"

section \<open>Sending\<close>

text \<open>\<^verbatim>\<open>memcpy\<close> out of a block of bytes: it must hold as many.\<close>

definition data_read :: "addr \<Rightarrow> u64 \<Rightarrow> server \<Rightarrow> u8 list option" where
  "data_read data sz st =
     (case sv_data st data of
        Some (Bytes bs) \<Rightarrow> if unat sz \<le> length bs then Some (take (unat sz) bs) else None
      | _ \<Rightarrow> None)"

definition filter_args ::
  "addr option \<Rightarrow> int \<Rightarrow> int \<Rightarrow> addr \<Rightarrow> u64 \<Rightarrow> server \<Rightarrow> (int \<times> addr \<times> u64 \<times> server) option" where
  "filter_args context type session data sz st = do {
     let needcopy = (type AND PTYPE_TAG_DONTCOPY = 0);
     let allocsession = (type AND PTYPE_TAG_ALLOCSESSION \<noteq> 0);
     let type = type AND 0xff;
     (session, st) \<leftarrow> (if allocsession
        then (if session = 0 then do { c \<leftarrow> context; skynet_context_newsession c st } else None)
        else Some (session, st));
     (data, st) \<leftarrow> (if needcopy \<and> data \<noteq> 0
        then do { bs \<leftarrow> data_read data sz st; Some (data_alloc (Bytes (bs @ [0])) st) }
        else Some (data, st));
     Some (session, data, with_type sz type, st)
   }"

definition context_source :: "addr option \<Rightarrow> u32 \<Rightarrow> server \<Rightarrow> u32 option" where
  "context_source context source st =
     (if source = 0 then do { c \<leftarrow> context; map_option ctx_handle (sv_ctx st c) } else Some source)"

definition dontcopy_free :: "int \<Rightarrow> addr \<Rightarrow> server \<Rightarrow> server option" where
  "dontcopy_free type data st = (if type AND PTYPE_TAG_DONTCOPY \<noteq> 0 then data_free data st else Some st)"

definition skynet_send ::
  "addr option \<Rightarrow> u32 \<Rightarrow> u32 \<Rightarrow> int \<Rightarrow> int \<Rightarrow> addr \<Rightarrow> u64 \<Rightarrow> server \<Rightarrow> (int \<times> server) option" where
  "skynet_send context source destination type session data sz st =
     (if size_of sz \<noteq> sz
      then do {
        st \<leftarrow> skynet_error context (''The message to '' @ print_hex (unat destination) @ '' is too large'') st;
        st \<leftarrow> dontcopy_free type data st;
        Some (- 1, st)
      }
      else do {
        (session, data, sz, st) \<leftarrow> filter_args context type session data sz st;
        source \<leftarrow> context_source context source st;
        if destination = 0 then Some (session, st)
        else do {
          remote \<leftarrow> skynet_harbor_message_isremote destination st;
          if remote then do {
            let (rmsg, st) = data_alloc (Remote \<lparr>rm_name = '''', rm_handle = destination, rm_message = data,
              rm_sz = size_of sz, rm_type = type_of sz\<rparr>) st;
            st \<leftarrow> skynet_harbor_send rmsg source session st;
            Some (session, st)
          } else do {
            (r, st) \<leftarrow> skynet_context_push destination
              \<lparr>msg_source = source, msg_session = session, msg_data = data, msg_sz = sz\<rparr> st;
            if r \<noteq> 0 then map_option (Pair (- 1)) (data_free data st) else Some (session, st)
          }
        }
      })"

text \<open>The first sixteen characters of a name; the rest of the field is zero.\<close>

definition copy_name :: "string \<Rightarrow> string" where
  "copy_name addr = take GLOBALNAME_LENGTH addr"

definition skynet_sendname ::
  "addr option \<Rightarrow> u32 \<Rightarrow> string \<Rightarrow> int \<Rightarrow> int \<Rightarrow> addr \<Rightarrow> u64 \<Rightarrow> server \<Rightarrow> (int \<times> server) option" where
  "skynet_sendname context source addr type session data sz st = do {
     source \<leftarrow> context_source context source st;
     if take 1 addr = '':'' then
       skynet_send context source (ucast (strtoul 16 (drop 1 addr))) type session data sz st
     else if take 1 addr = ''.'' then do {
       des \<leftarrow> skynet_handle_findname (sv_H st) (drop 1 addr);
       if des = 0 then map_option (Pair (- 1)) (dontcopy_free type data st)
       else skynet_send context source des type session data sz st
     } else do {
       (session, data, sz, st) \<leftarrow> filter_args context type session data sz st;
       let (rmsg, st) = data_alloc (Remote \<lparr>rm_name = copy_name addr, rm_handle = 0, rm_message = data,
         rm_sz = size_of sz, rm_type = type_of sz\<rparr>) st;
       st \<leftarrow> skynet_harbor_send rmsg source session st;
       Some (session, st)
     }
   }"

section \<open>The type in the top byte\<close>

lemma MESSAGE_TYPE_MASK_56: "MESSAGE_TYPE_MASK = mask 56"
  by (simp add: MESSAGE_TYPE_MASK_def) code_simp

lemma size_of_take: "size_of sz = take_bit 56 sz"
  by (simp add: size_of_def MESSAGE_TYPE_MASK_56 take_bit_eq_mask)

lemma with_type_parts:
  assumes "size_of sz = sz" "0 \<le> t" "t < 256"
  shows "size_of (with_type sz t) = sz" "type_of (with_type sz t) = t"
proof -
  have out: "\<not> bit sz n" if "56 \<le> n" for n
    using that assms(1) by (metis size_of_take bit_take_bit_iff linorder_not_less)
  show "size_of (with_type sz t) = sz"
    unfolding size_of_take with_type_def MESSAGE_TYPE_SHIFT_def by (rule bit_eqI) (auto simp: bit_simps out)
  have "of_int t = (of_nat (nat t) :: u64)" using assms(2) by simp
  moreover have "nat t < 2 ^ 64" using assms by simp
  ultimately have u: "unat (of_int t :: u64) = nat t" by (simp only: unat_of_nat) simp
  have "take_bit 8 t = t" using assms by (simp add: take_bit_int_eq_self)
  then have out': "n < 8" if "bit t n" for n using that by (metis bit_take_bit_iff)
  have "drop_bit 56 (with_type sz t) = of_int t"
    unfolding with_type_def MESSAGE_TYPE_SHIFT_def by (rule bit_eqI) (auto simp: bit_simps out dest: out')
  with u assms(2) show "type_of (with_type sz t) = t" by (simp add: type_of_def MESSAGE_TYPE_SHIFT_def)
qed

lemma low_byte: "0 \<le> (t :: int) AND 0xff \<and> t AND 0xff < 256"
proof -
  have "t AND 0xff = take_bit 8 t" by (simp add: take_bit_eq_mask mask_eq_exp_minus_1)
  then show ?thesis by (simp add: take_bit_eq_mod)
qed

section \<open>Allocation keeps the invariant of the node\<close>

definition data_ok :: "server \<Rightarrow> bool" where
  "data_ok st \<longleftrightarrow> 0 < sv_brk st \<and> sv_data st 0 = None \<and> (\<forall>a. sv_brk st \<le> a \<longrightarrow> sv_data st a = None)"

lemma data_alloc_eq: "data_alloc b st = (sv_brk st, st\<lparr>sv_data := (sv_data st)(sv_brk st \<mapsto> b), sv_brk := Suc (sv_brk st)\<rparr>)"
  by (simp add: data_alloc_def sv_alloc_def)

text \<open>What \<^verbatim>\<open>_filter_args\<close> makes of the session and of the data.\<close>

definition sent_session :: "skynet_context \<Rightarrow> int \<Rightarrow> int \<Rightarrow> int" where
  "sent_session x type session = (if type AND PTYPE_TAG_ALLOCSESSION \<noteq> 0 then fst (newsession x) else session)"

definition copies :: "int \<Rightarrow> addr \<Rightarrow> bool" where
  "copies type data \<longleftrightarrow> type AND PTYPE_TAG_DONTCOPY = 0 \<and> data \<noteq> 0"

definition sent_data :: "server \<Rightarrow> int \<Rightarrow> addr \<Rightarrow> addr" where
  "sent_data st type data = (if copies type data then sv_brk st else data)"

definition sent_store :: "server \<Rightarrow> int \<Rightarrow> addr \<Rightarrow> u8 list \<Rightarrow> addr \<rightharpoonup> block" where
  "sent_store st type data bs =
     (if copies type data then (sv_data st)(sv_brk st \<mapsto> Bytes (bs @ [0])) else sv_data st)"

lemma filter_args_ok:
  assumes inv: "sv_inv st refs xs held" and x: "sv_ctx st c = Some x"
    and alloc: "type AND PTYPE_TAG_ALLOCSESSION \<noteq> 0 \<Longrightarrow> session = 0"
    and data: "copies type data \<Longrightarrow> data_read data sz st = Some bs"
    and ok: "data_ok st"
  obtains st' where "filter_args (Some c) type session data sz st =
      Some (sent_session x type session, sent_data st type data, with_type sz (type AND 0xff), st')"
    and "sv_inv st' refs xs held" "data_ok st'" "sv_data st' = sent_store st type data bs"
    and "sv_mq st' = sv_mq st" "sv_H st' = sv_H st" "sv_HARBOR st' = sv_HARBOR st" "sv_REMOTE st' = sv_REMOTE st"
    and "sv_node st' = sv_node st" "sv_logger st' = sv_logger st"
    and "skynet_context_handle st' = skynet_context_handle st"
    and "\<forall>d y. sv_ctx st d = Some y \<longrightarrow> (\<exists>y'. sv_ctx st' d = Some y' \<and> ctx_queue y' = ctx_queue y \<and> ctx_handle y' = ctx_handle y)"
proof -
  define y where "y = (if type AND PTYPE_TAG_ALLOCSESSION \<noteq> 0 then snd (newsession x) else x)"
  have y: "ctx_ref y = ctx_ref x" "ctx_handle y = ctx_handle x" "ctx_queue y = ctx_queue x"
    by (simp_all add: y_def newsession_def Let_def)
  define st1 where "st1 = st\<lparr>sv_ctx := (sv_ctx st)(c \<mapsto> y)\<rparr>"
  have st1: "(if type AND PTYPE_TAG_ALLOCSESSION \<noteq> 0
        then (if session = 0 then do { c \<leftarrow> Some c; skynet_context_newsession c st } else None)
        else Some (session, st)) = Some (sent_session x type session, st1)"
    using alloc x by (auto simp: st1_def y_def sent_session_def skynet_context_newsession_def fun_upd_idem split: prod.split)
  have inv1: "sv_inv st1 refs xs held" unfolding st1_def by (rule sv_inv_field [OF inv x y])
  have h1: "skynet_context_handle st1 = skynet_context_handle st"
    using x y by (simp add: st1_def skynet_context_handle_def fun_eq_iff)
  define st2 where "st2 = (if copies type data
     then st1\<lparr>sv_data := (sv_data st)(sv_brk st \<mapsto> Bytes (bs @ [0])), sv_brk := Suc (sv_brk st)\<rparr> else st1)"
  have rd: "data_read data sz st1 = data_read data sz st" by (simp add: st1_def data_read_def)
  have st2: "(if type AND PTYPE_TAG_DONTCOPY = 0 \<and> data \<noteq> 0
        then do { bs \<leftarrow> data_read data sz st1; Some (data_alloc (Bytes (bs @ [0])) st1) }
        else Some (data, st1)) = Some (sent_data st type data, st2)"
    using data rd by (auto simp: st2_def copies_def sent_data_def data_alloc_eq st1_def)
  have "sv_inv st2 refs xs held"
    using sv_inv_data [OF inv1, of "Suc (sv_brk st)"] inv1 by (simp add: st2_def st1_def)
  moreover have "data_ok st2" using ok by (auto simp: data_ok_def st2_def st1_def)
  moreover have "skynet_context_handle st2 = skynet_context_handle st"
    using h1 by (simp add: st2_def skynet_context_handle_def fun_eq_iff)
  moreover have "\<exists>z. sv_ctx st2 d = Some z \<and> ctx_queue z = ctx_queue w \<and> ctx_handle z = ctx_handle w"
    if "sv_ctx st d = Some w" for d w
    using that x y by (auto simp: st2_def st1_def)
  moreover have "filter_args (Some c) type session data sz st =
      Some (sent_session x type session, sent_data st type data, with_type sz (type AND 0xff), st2)"
    unfolding filter_args_def Let_def st1 by (simp only: bind.bind_lunit prod.case st2)
  ultimately show thesis
    by (intro that [of st2]) (auto simp: st2_def st1_def sent_store_def)
qed

section \<open>Results\<close>

lemma data_free_ok: "data \<noteq> 0 \<Longrightarrow> sv_data st data \<noteq> None \<Longrightarrow> data_free data st = Some (st\<lparr>sv_data := (sv_data st)(data := None)\<rparr>)"
  by (auto simp: data_free_def)

lemma data_free_null: "data_ok st \<Longrightarrow> data_free 0 st = Some (st\<lparr>sv_data := (sv_data st)(0 := None)\<rparr>)"
  by (auto simp: data_free_def data_ok_def fun_upd_idem)

lemma sent_store_data:
  assumes "data_ok st" "data \<noteq> 0 \<Longrightarrow> sv_data st data \<noteq> None"
  shows "sent_data st type data \<noteq> 0 \<Longrightarrow> sent_store st type data bs (sent_data st type data) \<noteq> None"
    and "(sent_store st type data bs)(sent_data st type data := None) =
      (if copies type data then sv_data st else (sv_data st)(data := None))"
  using assms by (auto simp: sent_store_def sent_data_def copies_def data_ok_def)

text \<open>
  C14: who owns the data of a message sent to a service of this node. If the handle is live, the
  message is appended to that service's queue and nothing else changes in any queue: it carries the
  caller's block, or a fresh copy with a zero byte behind it; the caller's session is returned, or a
  fresh one. If the handle is not live the result is -1, no queue changes, and the block is freed:
  the copy when a copy was made (the caller keeps its own), the caller's block when it was handed over.
\<close>

theorem send_ownership:
  assumes "reaches sv_start sv_step (st, refs, held)" "data_ok st"
    and "\<forall>p h ms. mq_view (sv_mq st) p = Some (h, False, ms) \<longrightarrow> length ms + 1 < 2 ^ 30"
    and "sv_ctx st c = Some x" "source \<noteq> 0" "size_of sz = sz" "destination \<noteq> 0"
    and "skynet_harbor_message_isremote destination st = Some False"
    and "type AND PTYPE_TAG_ALLOCSESSION \<noteq> 0 \<longrightarrow> session = 0"
    and "data \<noteq> 0 \<longrightarrow> data_read data sz st = Some bs"
  shows "\<exists>r st' xs. skynet_send (Some c) source destination type session data sz st = Some (r, st')
    \<and> sv_inv st' refs xs held \<and>
    (case skynet_handle_grab (skynet_context_handle st) (sv_H st) destination of
       None \<Rightarrow> r = - 1 \<and> sv_mq st' = sv_mq st
         \<and> sv_data st' = (if copies type data then sv_data st else (sv_data st)(data := None))
     | Some e \<Rightarrow> r = sent_session x type session \<and> sv_data st' = sent_store st type data bs
         \<and> (\<exists>y ms. sv_ctx st e = Some y \<and> ctx_handle y = destination
              \<and> mq_view (sv_mq st) (ctx_queue y) = Some (destination, False, ms)
              \<and> mq_view (sv_mq st') = (mq_view (sv_mq st))(ctx_queue y \<mapsto> (destination, False, ms @
                  [\<lparr>msg_source = source, msg_session = sent_session x type session,
                    msg_data = sent_data st type data, msg_sz = with_type sz (type AND 0xff)\<rparr>]))))"
proof -
  from sv_reach_inv [OF assms(1)] obtain xs where inv: "sv_inv st refs xs held" by blast
  have rd: "data_read data sz st = Some bs" if "copies type data" using that assms(10) by (simp add: copies_def)
  have live: "sv_data st data \<noteq> None" if "data \<noteq> 0"
    using that assms(10) by (auto simp: data_read_def split: option.splits)
  have al: "session = 0" if "type AND PTYPE_TAG_ALLOCSESSION \<noteq> 0" using that assms(9) by blast
  obtain st1 where
    f: "filter_args (Some c) type session data sz st =
      Some (sent_session x type session, sent_data st type data, with_type sz (type AND 0xff), st1)"
    and st1: "sv_inv st1 refs xs held" "data_ok st1" "sv_data st1 = sent_store st type data bs"
      "sv_mq st1 = sv_mq st" "sv_H st1 = sv_H st" "sv_HARBOR st1 = sv_HARBOR st"
      "sv_REMOTE st1 = sv_REMOTE st" "sv_node st1 = sv_node st" "sv_logger st1 = sv_logger st"
      "skynet_context_handle st1 = skynet_context_handle st"
    and f_ctx: "\<forall>d y. sv_ctx st d = Some y \<longrightarrow>
      (\<exists>y'. sv_ctx st1 d = Some y' \<and> ctx_queue y' = ctx_queue y \<and> ctx_handle y' = ctx_handle y)"
    by (rule filter_args_ok [OF inv assms(4) al rd assms(2)])
  let ?m = "\<lparr>msg_source = source, msg_session = sent_session x type session,
    msg_data = sent_data st type data, msg_sz = with_type sz (type AND 0xff)\<rparr>"
  have rem: "skynet_harbor_message_isremote destination st1 = Some False"
    using assms(8) by (simp only: skynet_harbor_message_isremote_def st1(6))
  have send: "skynet_send (Some c) source destination type session data sz st = do {
      (r, st2) \<leftarrow> skynet_context_push destination ?m st1;
      if r \<noteq> 0 then map_option (Pair (- 1)) (data_free (sent_data st type data) st2) else Some (sent_session x type session, st2)
    }"
    using assms(5-7) f rem by (simp add: skynet_send_def context_source_def)
  have room: "\<And>p h ms. mq_view (sv_mq st1) p = Some (h, False, ms) \<Longrightarrow> length ms + 1 < 2 ^ 30"
    using assms(3) st1(4) by auto
  have push: "case slot_of (skynet_context_handle st1) (sv_H st1) destination of
      None \<Rightarrow> skynet_context_push destination ?m st1 = Some (- 1, st1)
    | Some e \<Rightarrow> \<exists>y mq' xs' ms. sv_ctx st1 e = Some y \<and> mq_view (sv_mq st1) (ctx_queue y) = Some (destination, False, ms)
        \<and> skynet_context_push destination ?m st1 = Some (0, st1\<lparr>sv_mq := mq'\<rparr>) \<and> sv_inv (st1\<lparr>sv_mq := mq'\<rparr>) refs xs' held
        \<and> mq_view mq' = (mq_view (sv_mq st1))(ctx_queue y \<mapsto> (destination, False, ms @ [?m]))"
    by (rule context_push_ok [OF st1(1) room])
  show ?thesis
  proof (cases "slot_of (skynet_context_handle st) (sv_H st) destination")
    case None
    with push st1 have
      "skynet_context_push destination ?m st1 = Some (- 1, st1)" by simp
    moreover have "data_free (sent_data st type data) st1 = Some (st1\<lparr>sv_data :=
        (if copies type data then sv_data st else (sv_data st)(data := None))\<rparr>)"
      using data_free_ok [of "sent_data st type data" st1] data_free_null [OF st1(2)]
        sent_store_data [OF assms(2) live, of type bs] st1(3) by (cases "sent_data st type data = 0") auto
    ultimately show ?thesis
      using send None st1 sv_inv_data [OF st1(1) order.refl] by (auto simp: skynet_handle_grab_def)
  next
    case (Some e)
    with push st1 obtain y mq' xs' ms where
      e: "sv_ctx st1 e = Some y" "mq_view (sv_mq st) (ctx_queue y) = Some (destination, False, ms)"
        "skynet_context_push destination ?m st1 = Some (0, st1\<lparr>sv_mq := mq'\<rparr>)" "sv_inv (st1\<lparr>sv_mq := mq'\<rparr>) refs xs' held"
        "mq_view mq' = (mq_view (sv_mq st))(ctx_queue y \<mapsto> (destination, False, ms @ [?m]))" by auto
    from handle_grab_ok [OF inv, of destination] Some obtain z where
      z: "sv_ctx st e = Some z" "ctx_handle z = destination" by auto
    from f_ctx [rule_format, OF z(1)] e(1) have "ctx_queue z = ctx_queue y" by auto
    with send e z Some st1(3) show ?thesis
      by (intro exI [of _ "sent_session x type session"] exI [of _ "st1\<lparr>sv_mq := mq'\<rparr>"] exI [of _ xs'])
        (auto simp: skynet_handle_grab_def)
  qed
qed

theorem send_ownership_witness:
  "\<exists>st st' p m. st = demo_server\<lparr>sv_data := [3 \<mapsto> Bytes [7, 8]], sv_brk := 4\<rparr>
     \<and> skynet_send (Some 1) 9 0x1000001 0x20000 0 3 2 st = Some (1, st')
     \<and> sv_data st' = [3 \<mapsto> Bytes [7, 8], 4 \<mapsto> Bytes [7, 8, 0]]
     \<and> mq_view (sv_mq st') p = Some (0x1000001, False, [m]) \<and> msg_data m = 4 \<and> msg_session m = 1"
proof -
  let ?st = "demo_server\<lparr>sv_data := [3 \<mapsto> Bytes [7, 8]], sv_brk := 4\<rparr>"
  let ?x = "demo_context\<lparr>ctx_handle := 0x1000001, ctx_queue := 2\<rparr>"
  have "reaches sv_start sv_step (?st, (\<lambda>_. 0)(1 := 1), {2})"
    by (rule reaches_step [OF demo_reaches sv_mem]) (simp add: demo_server_def)
  moreover have "data_ok ?st" by (simp add: data_ok_def)
  moreover have v: "mq_view (sv_mq ?st) = [2 \<mapsto> (0x1000001, False, [])]" using demo_view by simp
  then have "\<forall>p h ms. mq_view (sv_mq ?st) p = Some (h, False, ms) \<longrightarrow> length ms + 1 < 2 ^ 30"
    by (auto split: if_splits)
  moreover have "sv_ctx ?st 1 = Some ?x" by (simp add: demo_server_def)
  moreover have "size_of 2 = 2" by code_simp
  moreover have "skynet_harbor_message_isremote 0x1000001 ?st = Some False"
  proof -
    have "0x1000001 AND NOT HANDLE_MASK = (0x1000000 :: u32)" by code_simp
    then show ?thesis by (simp add: skynet_harbor_message_isremote_def demo_server_def)
  qed
  moreover have "data_read 3 2 ?st = Some [7, 8]" by (simp add: data_read_def)
  ultimately obtain r st' where s: "skynet_send (Some 1) 9 0x1000001 0x20000 0 3 2 ?st = Some (r, st')"
    and c: "case skynet_handle_grab (skynet_context_handle ?st) (sv_H ?st) 0x1000001 of
       None \<Rightarrow> r = - 1 \<and> sv_mq st' = sv_mq ?st
         \<and> sv_data st' = (if copies 0x20000 3 then sv_data ?st else (sv_data ?st)(3 := None))
     | Some e \<Rightarrow> r = sent_session ?x 0x20000 0 \<and> sv_data st' = sent_store ?st 0x20000 3 [7, 8]
         \<and> (\<exists>y ms. sv_ctx ?st e = Some y \<and> ctx_handle y = 0x1000001
              \<and> mq_view (sv_mq ?st) (ctx_queue y) = Some (0x1000001, False, ms)
              \<and> mq_view (sv_mq st') = (mq_view (sv_mq ?st))(ctx_queue y \<mapsto> (0x1000001, False, ms @
                  [\<lparr>msg_source = 9, msg_session = sent_session ?x 0x20000 0,
                    msg_data = sent_data ?st 0x20000 3, msg_sz = with_type 2 (0x20000 AND 0xff)\<rparr>])))"
    using send_ownership [where st = ?st and refs = "(\<lambda>_. 0)(1 := 1)" and held = "{2}" and c = 1 and x = ?x and source = 9
        and sz = 2 and destination = "0x1000001" and type = "0x20000" and session = 0 and data = 3 and bs = "[7, 8]"] by auto
  have g: "skynet_handle_grab (skynet_context_handle ?st) (sv_H ?st) 0x1000001 = Some 1"
    using demo_slot by (simp add: skynet_handle_grab_def skynet_context_handle_def [abs_def])
  have t: "copies 0x20000 3" "sent_session ?x 0x20000 0 = 1"
    by (simp_all add: copies_def sent_session_def PTYPE_TAG_DONTCOPY_def PTYPE_TAG_ALLOCSESSION_def newsession_def
        int32_inc_def INT_MAX_def demo_context_def)
  from c g t s v show ?thesis
    by (auto simp: sent_store_def sent_data_def split: if_splits)
qed

text \<open>
  C15: a message to a handle of another node reaches the harbor service of this one: its queue, and
  no other, gets one message of the system type whose block names the destination and carries the
  data, its size and its type, unpacked from the word they travel in.
\<close>

theorem send_remote:
  assumes "reaches sv_start sv_step (st, refs, held)" "data_ok st"
    and "\<forall>p h ms. mq_view (sv_mq st) p = Some (h, False, ms) \<longrightarrow> length ms + 1 < 2 ^ 30"
    and "sv_ctx st c = Some x" "source \<noteq> 0" "size_of sz = sz" "destination \<noteq> 0"
    and "skynet_harbor_message_isremote destination st = Some True" "sv_REMOTE st = Some e"
    and "type AND 0xff \<noteq> PTYPE_SYSTEM" "type AND 0xff \<noteq> PTYPE_HARBOR"
    and "type AND PTYPE_TAG_ALLOCSESSION \<noteq> 0 \<longrightarrow> session = 0"
    and "data \<noteq> 0 \<longrightarrow> data_read data sz st = Some bs"
  shows "\<exists>st' xs y ms rmsg. skynet_send (Some c) source destination type session data sz st = Some (sent_session x type session, st')
    \<and> sv_inv st' refs xs held \<and> sv_ctx st e = Some y \<and> mq_view (sv_mq st) (ctx_queue y) = Some (ctx_handle y, False, ms)
    \<and> mq_view (sv_mq st') = (mq_view (sv_mq st))(ctx_queue y \<mapsto> (ctx_handle y, False, ms @
        [\<lparr>msg_source = source, msg_session = sent_session x type session, msg_data = rmsg,
          msg_sz = with_type REMOTE_MESSAGE_SIZE PTYPE_SYSTEM\<rparr>]))
    \<and> sv_data st' = (sent_store st type data bs)(rmsg \<mapsto> Remote \<lparr>rm_name = [], rm_handle = destination,
        rm_message = sent_data st type data, rm_sz = sz, rm_type = type AND 0xff\<rparr>)"
proof -
  from sv_reach_inv [OF assms(1)] obtain xs where inv: "sv_inv st refs xs held" by blast
  have rd: "data_read data sz st = Some bs" if "copies type data" using that assms(13) by (simp add: copies_def)
  have al: "session = 0" if "type AND PTYPE_TAG_ALLOCSESSION \<noteq> 0" using that assms(12) by blast
  obtain st1 where
    f: "filter_args (Some c) type session data sz st =
      Some (sent_session x type session, sent_data st type data, with_type sz (type AND 0xff), st1)"
    and st1: "sv_inv st1 refs xs held" "data_ok st1" "sv_data st1 = sent_store st type data bs"
      "sv_mq st1 = sv_mq st" "sv_H st1 = sv_H st" "sv_HARBOR st1 = sv_HARBOR st"
      "sv_REMOTE st1 = sv_REMOTE st" "sv_node st1 = sv_node st" "sv_logger st1 = sv_logger st"
      "skynet_context_handle st1 = skynet_context_handle st"
    and f_ctx: "\<forall>d y. sv_ctx st d = Some y \<longrightarrow>
      (\<exists>y'. sv_ctx st1 d = Some y' \<and> ctx_queue y' = ctx_queue y \<and> ctx_handle y' = ctx_handle y)"
    by (rule filter_args_ok [OF inv assms(4) al rd assms(2)])
  have rem: "skynet_harbor_message_isremote destination st1 = Some True"
    using assms(8) by (simp only: skynet_harbor_message_isremote_def st1(6))
  let ?r = "\<lparr>rm_name = [], rm_handle = destination, rm_message = sent_data st type data, rm_sz = sz, rm_type = type AND 0xff\<rparr>"
  let ?st2 = "st1\<lparr>sv_data := (sv_data st1)(sv_brk st1 \<mapsto> Remote ?r), sv_brk := Suc (sv_brk st1)\<rparr>"
  have inv2: "sv_inv ?st2 refs xs held" using sv_inv_data [OF st1(1), of "Suc (sv_brk st1)"] by simp
  from sv_invD(5,9) [OF inv] assms(9) obtain y where y: "sv_ctx st e = Some y" by blast
  from sv_inv_ctx [OF inv y] obtain ms where v: "mq_view (sv_mq st) (ctx_queue y) = Some (ctx_handle y, False, ms)"
    by (auto simp: ctx_ok_def)
  let ?m = "\<lparr>msg_source = source, msg_session = sent_session x type session, msg_data = sv_brk st1,
    msg_sz = with_type REMOTE_MESSAGE_SIZE PTYPE_SYSTEM\<rparr>"
  have "length ms + 1 < 2 ^ 30" using v assms(3) by blast
  from mq_view_push [OF sv_invD(1) [OF inv] v this, of ?m] obtain mq' xs' where
    mq: "skynet_mq_push (ctx_queue y) ?m (sv_mq st) = Some mq'" "mq_ok mq' xs' held"
      "mq_view mq' = (mq_view (sv_mq st))(ctx_queue y \<mapsto> (ctx_handle y, False, ms @ [?m]))" by blast
  from f_ctx y obtain y' where y': "sv_ctx st1 e = Some y'" "ctx_queue y' = ctx_queue y" by blast
  have "skynet_harbor_send (sv_brk st1) source (sent_session x type session) ?st2 = Some (?st2\<lparr>sv_mq := mq'\<rparr>)"
    using assms(9-11) st1 y' mq(1) by (simp add: skynet_harbor_send_def invalid_type_def skynet_context_send_def)
  then have "skynet_send (Some c) source destination type session data sz st =
      Some (sent_session x type session, ?st2\<lparr>sv_mq := mq'\<rparr>)"
    using assms(5-7) f rem with_type_parts [OF assms(6), of "type AND 0xff"] low_byte [of type]
    by (simp add: skynet_send_def context_source_def data_alloc_eq)
  moreover have "sv_inv (?st2\<lparr>sv_mq := mq'\<rparr>) refs xs' held"
    by (rule sv_inv_mq [OF inv2 mq(2)]) (use mq(3) v st1(4) in auto)
  ultimately show ?thesis using y v mq(3) st1(3)
    by (intro exI [of _ "?st2\<lparr>sv_mq := mq'\<rparr>"] exI [of _ xs'] exI [of _ y] exI [of _ ms] exI [of _ "sv_brk st1"]) simp
qed

text \<open>
  data sent to the destination 0 is leaked: the call returns a session as if it had succeeded,
  no queue has changed, and the block, the copy or the one handed over, is still allocated.
\<close>

theorem send_zero_leaks:
  assumes "sv_inv st refs xs held" "data_ok st" "sv_ctx st c = Some x" "source \<noteq> 0" "size_of sz = sz"
    and "type AND PTYPE_TAG_ALLOCSESSION \<noteq> 0 \<longrightarrow> session = 0"
    and "data_read data sz st = Some bs"
  shows "\<exists>st'. skynet_send (Some c) source 0 type session data sz st = Some (sent_session x type session, st')
    \<and> sv_mq st' = sv_mq st \<and> sv_data st' = sent_store st type data bs \<and> sv_data st' (sent_data st type data) \<noteq> None"
proof -
  have al: "session = 0" if "type AND PTYPE_TAG_ALLOCSESSION \<noteq> 0" using that assms(6) by blast
  have "sv_data st data \<noteq> None" using assms(7) by (auto simp: data_read_def split: option.splits)
  then have "sent_data st type data \<noteq> 0"
    using assms(2) by (cases "data = 0") (auto simp: sent_data_def copies_def data_ok_def)
  with sent_store_data(1) [OF assms(2)] \<open>sv_data st data \<noteq> None\<close> have
    "sent_store st type data bs (sent_data st type data) \<noteq> None" by blast
  moreover obtain st1 where "filter_args (Some c) type session data sz st =
      Some (sent_session x type session, sent_data st type data, with_type sz (type AND 0xff), st1)"
    "sv_data st1 = sent_store st type data bs" "sv_mq st1 = sv_mq st"
    using filter_args_ok [OF assms(1,3) al assms(7) assms(2)] by metis
  ultimately show ?thesis using assms(4,5) by (simp add: skynet_send_def context_source_def)
qed

theorem send_zero_leaks_witness:
  "\<exists>st'. skynet_send (Some 1) 9 0 0 5 3 2 (demo_server\<lparr>sv_data := [3 \<mapsto> Bytes [7, 8]], sv_brk := 4\<rparr>) = Some (5, st')
    \<and> sv_mq st' = sv_mq demo_server \<and> sv_data st' = [3 \<mapsto> Bytes [7, 8], 4 \<mapsto> Bytes [7, 8, 0]]"
proof -
  let ?st = "demo_server\<lparr>sv_data := [3 \<mapsto> Bytes [7, 8]], sv_brk := 4\<rparr>"
  let ?x = "demo_context\<lparr>ctx_handle := 0x1000001, ctx_queue := 2\<rparr>"
  have "reaches sv_start sv_step (?st, (\<lambda>_. 0)(1 := 1), {2})"
    by (rule reaches_step [OF demo_reaches sv_mem]) (simp add: demo_server_def)
  then obtain xs where inv: "sv_inv ?st ((\<lambda>_. 0)(1 := 1)) xs {2}" by (rule sv_reach_inv)
  have ok: "data_ok ?st" "sv_ctx ?st 1 = Some ?x" "data_read 3 2 ?st = Some [7, 8]"
    by (simp_all add: data_ok_def demo_server_def data_read_def)
  have "size_of 2 = 2" by code_simp
  with send_zero_leaks [OF inv ok(1,2), where source = 9 and sz = 2 and type = 0 and session = 5
      and data = 3 and bs = "[7, 8]"] ok(3)
  show ?thesis
    by (auto simp: sent_session_def sent_store_def copies_def)
qed

definition demo_remote :: server where
  "demo_remote = demo_server\<lparr>sv_ctx := [1 \<mapsto> demo_context\<lparr>ctx_handle := 0x1000001, ctx_queue := 2, ctx_ref := 3\<rparr>],
     sv_node := \<lparr>node_total = 0, node_monitor_exit = 0, node_profile = False\<rparr>, sv_REMOTE := Some 1\<rparr>"

lemma demo_remote_reaches: "reaches sv_start sv_step (demo_remote, (\<lambda>_. 0)(1 := 2), {2})"
proof -
  let ?st = "demo_server\<lparr>sv_ctx := [1 \<mapsto> demo_context\<lparr>ctx_handle := 0x1000001, ctx_queue := 2, ctx_ref := 3\<rparr>],
     sv_node := \<lparr>node_total = 0, node_monitor_exit = 0, node_profile = False\<rparr>\<rparr>"
  have r: "skynet_context_reserve 1 demo_server = Some ?st"
    by (simp add: skynet_context_reserve_def skynet_context_grab_def ctx_update_def context_dec_def demo_server_def
        demo_context_def)
  let ?r = "(\<lambda>_. 0)(1 := 1) :: addr \<Rightarrow> nat"
  have n: "sv_REMOTE demo_server = None" "0 < ?r 1" by (simp_all add: demo_server_def)
  have e: "?r(1 := ?r 1 + 1) = (\<lambda>_. 0)(1 := 2)" by auto
  have "sv_step (demo_server, ?r, {2}) (?st\<lparr>sv_REMOTE := Some 1\<rparr>, ?r(1 := ?r 1 + 1), {2})"
    by (rule sv_step.sv_reserve [of ?r 1, OF n(2,1) r])
  then have "reaches sv_start sv_step (?st\<lparr>sv_REMOTE := Some 1\<rparr>, (\<lambda>_. 0)(1 := 2), {2})"
    unfolding e by (rule reaches_step [OF demo_reaches])
  then show ?thesis by (simp add: demo_remote_def)
qed

theorem send_remote_witness:
  "\<exists>st' rmsg m. skynet_send (Some 1) 9 0x5000007 0 6 0 0 demo_remote = Some (6, st')
    \<and> mq_view (sv_mq st') = [2 \<mapsto> (0x1000001, False, [m])] \<and> msg_data m = rmsg
    \<and> sv_data st' = [rmsg \<mapsto> Remote \<lparr>rm_name = [], rm_handle = 0x5000007, rm_message = 0, rm_sz = 0, rm_type = 0\<rparr>]"
proof -
  let ?x = "demo_context\<lparr>ctx_handle := 0x1000001, ctx_queue := 2, ctx_ref := 3\<rparr>"
  have v: "mq_view (sv_mq demo_remote) = [2 \<mapsto> (0x1000001, False, [])]" using demo_view by (simp add: demo_remote_def)
  then have room: "\<forall>p h ms. mq_view (sv_mq demo_remote) p = Some (h, False, ms) \<longrightarrow> length ms + 1 < 2 ^ 30"
    by (auto split: if_splits)
  have h: "0x5000007 AND NOT HANDLE_MASK = (0x5000000 :: u32)" by code_simp
  have ok: "data_ok demo_remote" "sv_ctx demo_remote 1 = Some ?x" "sv_REMOTE demo_remote = Some 1"
    "skynet_harbor_message_isremote 0x5000007 demo_remote = Some True"
    using h by (simp_all add: data_ok_def demo_remote_def demo_server_def skynet_harbor_message_isremote_def)
  have t: "size_of 0 = 0" "(0 :: int) AND 0xff \<noteq> PTYPE_SYSTEM" "(0 :: int) AND 0xff \<noteq> PTYPE_HARBOR"
    by (simp_all add: size_of_def PTYPE_SYSTEM_def PTYPE_HARBOR_def)
  have d: "sv_data demo_remote = Map.empty" by (simp add: demo_remote_def demo_server_def)
  from send_remote [OF demo_remote_reaches ok(1) room ok(2), where source = 9 and sz = 0 and destination = "0x5000007"
      and type = 0 and session = 6 and data = 0 and e = 1 and bs = "[]"] ok t
  obtain st' y ms rmsg where s: "skynet_send (Some 1) 9 0x5000007 0 6 0 0 demo_remote = Some (sent_session ?x 0 6, st')"
    and y: "sv_ctx demo_remote 1 = Some y"
      "mq_view (sv_mq st') = (mq_view (sv_mq demo_remote))(ctx_queue y \<mapsto> (ctx_handle y, False, ms @
        [\<lparr>msg_source = 9, msg_session = sent_session ?x 0 6, msg_data = rmsg, msg_sz = with_type REMOTE_MESSAGE_SIZE PTYPE_SYSTEM\<rparr>]))"
      "mq_view (sv_mq demo_remote) (ctx_queue y) = Some (ctx_handle y, False, ms)"
    and w: "sv_data st' = (sent_store demo_remote 0 0 [])(rmsg \<mapsto> Remote \<lparr>rm_name = [], rm_handle = 0x5000007,
        rm_message = sent_data demo_remote 0 0, rm_sz = 0, rm_type = 0 AND 0xff\<rparr>)" by auto
  have "sent_session ?x 0 6 = 6" by (simp add: sent_session_def)
  moreover have "ms = []" using y v ok(2) by (auto simp: demo_context_def)
  ultimately show ?thesis using s y v w ok(2) d
    by (auto simp: sent_store_def sent_data_def copies_def)
qed

end
