(* ===== verification/Server_Dispatch.thy ===== *)
theory Server_Dispatch
  imports Server_Send
begin

text \<open>
  The work of the threads on the contexts, from \<^verbatim>\<open>skynet-src/skynet_server.c\<close>,
  \<^verbatim>\<open>skynet_monitor.c\<close> and \<^verbatim>\<open>skynet_handle.c\<close>: launching a service, dispatching the messages of a queue to it, dropping the
  messages of a dead one, and retiring all services. The modules are not part of the
  repository's C core: what \<^verbatim>\<open>skynet_module_query\<close> and \<^verbatim>\<open>skynet_module_instance_create\<close> return
  and what the functions of a module do to the node is given by a record of functions.
  The readings of the thread clock are arguments.
\<close>

section \<open>Services\<close>

record services =
  md_query :: "string \<Rightarrow> nat option"
  md_create :: "nat \<Rightarrow> addr option"
  md_init :: "nat \<Rightarrow> addr \<Rightarrow> addr \<Rightarrow> string option \<Rightarrow> server \<Rightarrow> (int \<times> server) option"
  md_callback :: "nat \<Rightarrow> addr \<Rightarrow> int \<Rightarrow> int \<Rightarrow> u32 \<Rightarrow> addr \<Rightarrow> u64 \<Rightarrow> server \<Rightarrow> (int \<times> server) option"
  md_signal :: "nat \<Rightarrow> addr \<Rightarrow> int \<Rightarrow> server \<Rightarrow> server option"

section \<open>The monitor of a worker\<close>

record skynet_monitor =
  sm_version :: int
  sm_check_version :: int
  sm_source :: u32
  sm_destination :: u32

definition skynet_monitor_new :: skynet_monitor where
  "skynet_monitor_new = \<lparr>sm_version = 0, sm_check_version = 0, sm_source = 0, sm_destination = 0\<rparr>"

definition skynet_monitor_trigger :: "u32 \<Rightarrow> u32 \<Rightarrow> skynet_monitor \<Rightarrow> skynet_monitor" where
  "skynet_monitor_trigger source destination sm =
     sm\<lparr>sm_source := source, sm_destination := destination, sm_version := int32_inc (sm_version sm)\<rparr>"

text \<open>The conversion \<^verbatim>\<open>%08x\<close>.\<close>

definition print_hex8 :: "u32 \<Rightarrow> string" where
  "print_hex8 n = (let s = print_hex (unat n) in replicate (8 - length s) (CHR ''0'') @ s)"

definition skynet_monitor_check :: "skynet_monitor \<Rightarrow> server \<Rightarrow> (skynet_monitor \<times> server) option" where
  "skynet_monitor_check sm st =
     (if sm_version sm = sm_check_version sm then
        if sm_destination sm \<noteq> 0 then do {
          st \<leftarrow> skynet_context_endless (sm_destination sm) st;
          st \<leftarrow> skynet_error None (''A message from [ :'' @ print_hex8 (sm_source sm) @ '' ] to [ :'' @
            print_hex8 (sm_destination sm) @ '' ] maybe in an endless loop (version = '' @ print_int (sm_version sm) @ '')'') st;
          Some (sm, st)
        }
        else Some (sm, st)
      else Some (sm\<lparr>sm_check_version := sm_version sm\<rparr>, st))"

section \<open>Dropping messages\<close>

definition drop_message :: "u32 \<Rightarrow> skynet_message \<Rightarrow> server \<Rightarrow> server option" where
  "drop_message source msg st = do {
     st \<leftarrow> data_free (msg_data msg) st;
     if source = 0 then None
     else map_option snd (skynet_send None source (msg_source msg) PTYPE_ERROR 0 0 0 st)
   }"

fun drop_messages :: "u32 \<Rightarrow> skynet_message list \<Rightarrow> server \<Rightarrow> server option" where
  "drop_messages source [] st = Some st"
| "drop_messages source (m # ms) st = do { st \<leftarrow> drop_message source m st; drop_messages source ms st }"

text \<open>
  \<^verbatim>\<open>skynet_mq_release\<close> with \<^verbatim>\<open>drop_message\<close>. The messages are dropped in the order in which they leave the
  queue; a drop does not touch the queue they come from, which no handle leads to.
\<close>

definition release_queue :: "u32 \<Rightarrow> addr \<Rightarrow> server \<Rightarrow> server option" where
  "release_queue handle q st = do {
     (msgs, mq) \<leftarrow> skynet_mq_release q (sv_mq st);
     drop_messages handle msgs (st\<lparr>sv_mq := mq\<rparr>)
   }"

section \<open>Launching a service\<close>

definition new_context :: "nat \<Rightarrow> addr \<Rightarrow> server \<Rightarrow> skynet_context" where
  "new_context md inst st =
     \<lparr>ctx_instance = inst, ctx_mod = md, ctx_cb = None, ctx_queue = 0, ctx_logfile = None, ctx_cpu_cost = 0,
      ctx_cpu_start = 0, ctx_result = [], ctx_handle = 0, ctx_session_id = 0, ctx_ref = 2, ctx_message_count = 0,
      ctx_init = False, ctx_endless = False, ctx_profile = node_profile (sv_node st)\<rparr>"

definition skynet_context_new :: "services \<Rightarrow> string \<Rightarrow> string option \<Rightarrow> server \<Rightarrow> (addr option \<times> server) option" where
  "skynet_context_new sv name param st =
     (case md_query sv name of
        None \<Rightarrow> Some (None, st)
      | Some md \<Rightarrow> (case md_create sv md of
          None \<Rightarrow> Some (None, st)
        | Some inst \<Rightarrow> do {
            (ctx, st) \<leftarrow> context_register (new_context md inst st) st;
            x \<leftarrow> sv_ctx st ctx;
            let queue = ctx_queue x;
            (r, st) \<leftarrow> md_init sv md inst ctx param st;
            if r = 0 then do {
              (ret, st) \<leftarrow> skynet_context_release ctx st;
              st \<leftarrow> (if ret \<noteq> None then ctx_update ctx (\<lambda>x. x\<lparr>ctx_init := True\<rparr>) st else Some st);
              mq \<leftarrow> skynet_globalmq_push queue (sv_mq st);
              let st = st\<lparr>sv_mq := mq\<rparr>;
              st \<leftarrow> (if ret \<noteq> None then skynet_error ret (''LAUNCH '' @ name @ '' '' @ (case param of None \<Rightarrow> [] | Some p \<Rightarrow> p)) st else Some st);
              Some (ret, st)
            } else do {
              st \<leftarrow> skynet_error (Some ctx) (''FAILED launch '' @ name) st;
              x \<leftarrow> sv_ctx st ctx;
              let handle = ctx_handle x;
              (_, st) \<leftarrow> skynet_context_release ctx st;
              (_, st) \<leftarrow> handle_retire handle st;
              st \<leftarrow> release_queue handle queue st;
              Some (None, st)
            }
          }))"

section \<open>Dispatching\<close>

definition dispatch_message :: "services \<Rightarrow> u64 \<times> u64 \<Rightarrow> addr \<Rightarrow> skynet_message \<Rightarrow> server \<Rightarrow> server option" where
  "dispatch_message sv clock ctx msg st = do {
     x \<leftarrow> sv_ctx st ctx;
     if \<not> ctx_init x then None
     else do {
       let type = type_of (msg_sz msg);
       let sz = size_of (msg_sz msg);
       st \<leftarrow> ctx_update ctx (\<lambda>x. x\<lparr>ctx_message_count := int32_inc (ctx_message_count x)\<rparr>) st;
       st \<leftarrow> (if ctx_profile x then ctx_update ctx (\<lambda>x. x\<lparr>ctx_cpu_start := fst clock\<rparr>) st else Some st);
       cb \<leftarrow> ctx_cb x;
       (reserve_msg, st) \<leftarrow> md_callback sv cb ctx type (msg_session msg) (msg_source msg) (msg_data msg) sz st;
       st \<leftarrow> (if ctx_profile x
              then ctx_update ctx (\<lambda>x. x\<lparr>ctx_cpu_cost := ctx_cpu_cost x + (snd clock - ctx_cpu_start x)\<rparr>) st
              else Some st);
       if reserve_msg = 0 then data_free (msg_data msg) st else Some st
     }
   }"

text \<open>\<^verbatim>\<open>skynet_mq_pop\<close> and \<^verbatim>\<open>skynet_mq_overload\<close> on a queue of the node.\<close>

definition queue_pop :: "addr \<Rightarrow> server \<Rightarrow> (skynet_message option \<times> server) option" where
  "queue_pop p st = do {
     q \<leftarrow> mq_heap (sv_mq st) p;
     (ret, m, q) \<leftarrow> skynet_mq_pop q;
     Some (m, st\<lparr>sv_mq := mq_update p q (sv_mq st)\<rparr>)
   }"

definition queue_overload :: "addr \<Rightarrow> server \<Rightarrow> (int \<times> server) option" where
  "queue_overload p st = do {
     q \<leftarrow> mq_heap (sv_mq st) p;
     let (overload, q) = skynet_mq_overload q;
     Some (overload, st\<lparr>sv_mq := mq_update p q (sv_mq st)\<rparr>)
   }"

definition queue_next :: "server \<Rightarrow> (addr option \<times> server) option" where
  "queue_next st = map_option (\<lambda>(q, mq). (q, st\<lparr>sv_mq := mq\<rparr>)) (skynet_globalmq_pop (sv_mq st))"

text \<open>The loop of \<^verbatim>\<open>skynet_context_dispatchall\<close>; it need not end when the service sends to itself.\<close>

partial_function (option) skynet_context_dispatchall :: "services \<Rightarrow> (nat \<Rightarrow> u64 \<times> u64) \<Rightarrow> nat \<Rightarrow> addr \<Rightarrow> addr \<Rightarrow> server \<Rightarrow> server option" where
  "skynet_context_dispatchall sv clock i ctx q st =
     Option.bind (queue_pop q st) (\<lambda>(m, st).
       case m of
         None \<Rightarrow> Some st
       | Some msg \<Rightarrow> Option.bind (dispatch_message sv (clock i) ctx msg st) (skynet_context_dispatchall sv clock (i + 1) ctx q))"

text \<open>One message of \<^verbatim>\<open>skynet_context_message_dispatch\<close>, after it has been taken from the queue.\<close>

definition dispatch_round :: "services \<Rightarrow> u64 \<times> u64 \<Rightarrow> u32 \<Rightarrow> addr \<Rightarrow> addr \<Rightarrow> skynet_message \<Rightarrow> skynet_monitor \<Rightarrow> server
    \<Rightarrow> (skynet_monitor \<times> server) option" where
  "dispatch_round sv clock handle ctx q msg sm st = do {
     (overload, st) \<leftarrow> queue_overload q st;
     st \<leftarrow> (if overload \<noteq> 0 then skynet_error (Some ctx) (''May overload, message queue length = '' @ print_int overload) st
            else Some st);
     let sm = skynet_monitor_trigger (msg_source msg) handle sm;
     x \<leftarrow> sv_ctx st ctx;
     st \<leftarrow> (if ctx_cb x = None then data_free (msg_data msg) st else dispatch_message sv clock ctx msg st);
     Some (skynet_monitor_trigger 0 0 sm, st)
   }"

text \<open>
  The loop: after the first message the bound becomes the number of messages left, shifted by
  the weight of the worker. The result says whether the queue was found empty.
\<close>

function dispatch_loop :: "services \<Rightarrow> (nat \<Rightarrow> u64 \<times> u64) \<Rightarrow> int \<Rightarrow> u32 \<Rightarrow> addr \<Rightarrow> addr \<Rightarrow> nat \<Rightarrow> nat \<Rightarrow> skynet_monitor \<Rightarrow> server
    \<Rightarrow> (bool \<times> skynet_monitor \<times> server) option" where
  "dispatch_loop sv clock weight handle ctx q i n sm st =
     (if n \<le> i then Some (False, sm, st)
      else do {
        (m, st) \<leftarrow> queue_pop q st;
        case m of
          None \<Rightarrow> Some (True, sm, st)
        | Some msg \<Rightarrow> do {
            mq \<leftarrow> mq_heap (sv_mq st) q;
            let n = (if i = 0 \<and> 0 \<le> weight then nat (drop_bit (nat weight) (skynet_mq_length mq)) else n);
            (sm, st) \<leftarrow> dispatch_round sv (clock i) handle ctx q msg sm st;
            dispatch_loop sv clock weight handle ctx q (i + 1) n sm st
          }
      })"
  by pat_completeness auto

termination
  by (relation "measures [\<lambda>(sv, clock, weight, handle, ctx, q, i, n, sm, st). of_bool (i = 0),
      \<lambda>(sv, clock, weight, handle, ctx, q, i, n, sm, st). n - i]") auto

declare dispatch_loop.simps [simp del]

definition skynet_context_message_dispatch :: "services \<Rightarrow> (nat \<Rightarrow> u64 \<times> u64) \<Rightarrow> skynet_monitor \<Rightarrow> addr option \<Rightarrow> int \<Rightarrow> server
    \<Rightarrow> (addr option \<times> skynet_monitor \<times> server) option" where
  "skynet_context_message_dispatch sv clock sm q weight st = do {
     (q, st) \<leftarrow> (if q = None then queue_next st else Some (q, st));
     case q of
       None \<Rightarrow> Some (None, sm, st)
     | Some q \<Rightarrow> do {
         mq \<leftarrow> mq_heap (sv_mq st) q;
         let handle = skynet_mq_handle mq;
         (ctx, st) \<leftarrow> handle_grab handle st;
         case ctx of
           None \<Rightarrow> do {
             st \<leftarrow> release_queue handle q st;
             (nq, st) \<leftarrow> queue_next st;
             Some (nq, sm, st)
           }
         | Some ctx \<Rightarrow> do {
             (empty, sm, st) \<leftarrow> dispatch_loop sv clock weight handle ctx q 0 1 sm st;
             if empty then do {
               (_, st) \<leftarrow> skynet_context_release ctx st;
               (nq, st) \<leftarrow> queue_next st;
               Some (nq, sm, st)
             } else do {
               x \<leftarrow> sv_ctx st ctx;
               if ctx_queue x \<noteq> q then None
               else do {
                 (nq, st) \<leftarrow> queue_next st;
                 (nq, st) \<leftarrow> (case nq of
                     None \<Rightarrow> Some (Some q, st)
                   | Some nq \<Rightarrow> map_option (\<lambda>mq. (Some nq, st\<lparr>sv_mq := mq\<rparr>)) (skynet_globalmq_push q (sv_mq st)));
                 (_, st) \<leftarrow> skynet_context_release ctx st;
                 Some (nq, sm, st)
               }
             }
           }
       }
   }"

section \<open>Retiring all services\<close>

definition retire_slot :: "nat \<Rightarrow> nat \<times> server \<Rightarrow> (nat \<times> server) option" where
  "retire_slot i = (\<lambda>(n, st).
     let handle = (case hs_slot (sv_H st) ! i of None \<Rightarrow> 0 | Some c \<Rightarrow> skynet_context_handle st c) in
     if handle \<noteq> 0 then map_option (\<lambda>(ret, st). (if ret \<noteq> 0 then n + 1 else n, st)) (handle_retire handle st)
     else Some (n, st))"

fun retire_slots :: "nat list \<Rightarrow> nat \<times> server \<Rightarrow> (nat \<times> server) option" where
  "retire_slots [] s = Some s"
| "retire_slots (i # is) s = Option.bind (retire_slot i s) (retire_slots is)"

partial_function (option) skynet_handle_retireall :: "server \<Rightarrow> server option" where
  "skynet_handle_retireall st =
     Option.bind (retire_slots [0..<hs_slot_size (sv_H st)] (0, st)) (\<lambda>(n, st).
       if n = 0 then Some st else skynet_handle_retireall st)"

section \<open>Retiring all services ends\<close>

text \<open>
  What retiring some services with handles other than 0 leaves: the contexts that were only
  registered are gone.
\<close>

definition retired :: "(addr \<Rightarrow> nat) \<Rightarrow> server \<Rightarrow> server \<Rightarrow> bool" where
  "retired refs st st' \<longleftrightarrow> sv_data st' = sv_data st \<and> hs_slot_size (sv_H st') = hs_slot_size (sv_H st) \<and>
     hs_ctxs (sv_H st') \<subseteq> hs_ctxs (sv_H st) \<and>
     (\<forall>c \<in> hs_ctxs (sv_H st'). skynet_context_handle st' c = skynet_context_handle st c) \<and>
     (\<forall>c \<in> hs_ctxs (sv_H st) - hs_ctxs (sv_H st'). skynet_context_handle st c \<noteq> 0) \<and>
     dom (sv_ctx st') = dom (sv_ctx st) - {c \<in> hs_ctxs (sv_H st) - hs_ctxs (sv_H st'). refs c = 0}"

lemma retired_refl: "retired refs st st"
  by (auto simp: retired_def)

lemma retired_trans:
  assumes "retired refs a b" "retired refs b c"
  shows "retired refs a c"
proof -
  have ab: "hs_ctxs (sv_H b) \<subseteq> hs_ctxs (sv_H a)" "hs_ctxs (sv_H c) \<subseteq> hs_ctxs (sv_H b)"
    "dom (sv_ctx b) = dom (sv_ctx a) - {d \<in> hs_ctxs (sv_H a) - hs_ctxs (sv_H b). refs d = 0}"
    "dom (sv_ctx c) = dom (sv_ctx b) - {d \<in> hs_ctxs (sv_H b) - hs_ctxs (sv_H c). refs d = 0}"
    using assms by (simp_all add: retired_def)
  have "dom (sv_ctx c) = dom (sv_ctx a) - {d \<in> hs_ctxs (sv_H a) - hs_ctxs (sv_H c). refs d = 0}"
    unfolding ab(3,4) using ab(1,2) by blast
  moreover have "skynet_context_handle a d \<noteq> 0" if "d \<in> hs_ctxs (sv_H a) - hs_ctxs (sv_H c)" for d
    using assms that by (cases "d \<in> hs_ctxs (sv_H b)") (simp_all add: retired_def)
  moreover have "skynet_context_handle c d = skynet_context_handle a d" if "d \<in> hs_ctxs (sv_H c)" for d
    using assms that ab(2) by (auto simp: retired_def)
  ultimately show ?thesis using assms ab(1,2) by (simp add: retired_def)
qed

lemma retired_one:
  assumes inv: "sv_inv st refs xs held" and c: "c \<in> hs_ctxs (sv_H st)" "skynet_context_handle st c \<noteq> 0"
  obtains st' xs' where "handle_retire (skynet_context_handle st c) st = Some (1, st')" "sv_inv st' refs xs' held"
    "retired refs st st'" "c \<notin> hs_ctxs (sv_H st')"
proof -
  have "slot_of (skynet_context_handle st) (sv_H st) (skynet_context_handle st c) = Some c"
    using slot_of_iff [OF sv_invD(2) [OF inv]] c by simp
  with handle_retire_ok_sv [OF inv, of "skynet_context_handle st c"] obtain st' xs' where
    st': "handle_retire (skynet_context_handle st c) st = Some (1, st')" "sv_inv st' refs xs' held" "sv_data st' = sv_data st"
      "hs_ctxs (sv_H st') = hs_ctxs (sv_H st) - {c}" "hs_slot_size (sv_H st') = hs_slot_size (sv_H st)"
      "\<And>d. d \<noteq> c \<Longrightarrow> sv_ctx st' d = sv_ctx st d" "sv_ctx st' c = None \<longleftrightarrow> refs c = 0" by auto
  have "sv_ctx st c \<noteq> None" using sv_invD(4) [OF inv] c(1) by blast
  then have d: "d \<in> dom (sv_ctx st') \<longleftrightarrow> d \<in> dom (sv_ctx st) \<and> \<not> (d = c \<and> refs c = 0)" for d
    using st'(6) [of d] st'(7) by (cases "d = c") (auto simp: domIff)
  have "dom (sv_ctx st') = dom (sv_ctx st) - {d \<in> hs_ctxs (sv_H st) - hs_ctxs (sv_H st'). refs d = 0}"
    by (rule set_eqI) (simp only: d st'(4), use c(1) in blast)
  moreover have "skynet_context_handle st' d = skynet_context_handle st d" if "d \<noteq> c" for d
    using st'(6) [OF that] by (simp add: skynet_context_handle_def)
  ultimately have "retired refs st st'" unfolding retired_def
    by (intro conjI st'(3) st'(5)) (use st'(4) c(2) in auto)
  with st'(1,2,4) show thesis by (intro that [of st' xs']) auto
qed

text \<open>A pass over the slots retires what it finds; the count is 0 only when it found nothing.\<close>

lemma retire_slots_ok:
  assumes "sv_inv st refs xs held" "set is \<subseteq> {..<hs_slot_size (sv_H st)}"
  shows "\<exists>m st' xs'. retire_slots is (n, st) = Some (n + m, st') \<and> sv_inv st' refs xs' held \<and> retired refs st st'
     \<and> (\<forall>c \<in> hs_ctxs (sv_H st'). skynet_context_handle st' c \<noteq> 0 \<longrightarrow>
          slot_hash (hs_slot_size (sv_H st)) (skynet_context_handle st' c) \<notin> set is)
     \<and> (m = 0 \<longrightarrow> st' = st)"
  using assms
proof (induction "is" arbitrary: n st xs)
  case Nil
  then show ?case using retired_refl by auto
next
  case (Cons i "is")
  let ?ch = "skynet_context_handle st"
  note H = sv_invD(2) [OF Cons.prems(1)]
  have at: "hs_slot (sv_H st) ! i = Some c" if "c \<in> hs_ctxs (sv_H st)" "slot_hash (hs_slot_size (sv_H st)) (?ch c) = i" for c
  proof -
    from that(1) obtain j where "j < hs_slot_size (sv_H st)" "hs_slot (sv_H st) ! j = Some c"
      using H by (auto simp: hs_ctxs_def in_set_conv_nth hs_inv_def)
    with H that(2) show ?thesis by (auto simp: hs_inv_def)
  qed
  obtain m1 st1 xs1 where st1: "retire_slot i (n, st) = Some (n + m1, st1)" "sv_inv st1 refs xs1 held" "retired refs st st1"
    "\<And>c. c \<in> hs_ctxs (sv_H st1) \<Longrightarrow> ?ch c \<noteq> 0 \<Longrightarrow> slot_hash (hs_slot_size (sv_H st)) (?ch c) \<noteq> i" "m1 = 0 \<longrightarrow> st1 = st"
  proof (cases "\<exists>c. hs_slot (sv_H st) ! i = Some c \<and> ?ch c \<noteq> 0")
    case False
    then have "retire_slot i (n, st) = Some (n, st)" by (auto simp: retire_slot_def split: option.splits)
    moreover have "slot_hash (hs_slot_size (sv_H st)) (?ch c) \<noteq> i" if "c \<in> hs_ctxs (sv_H st)" "?ch c \<noteq> 0" for c
      using False at [OF that(1)] that(2) by auto
    ultimately show ?thesis using that [of 0 st xs] Cons.prems(1) retired_refl by auto
  next
    case True
    then obtain c where c: "hs_slot (sv_H st) ! i = Some c" "?ch c \<noteq> 0" by blast
    then have "c \<in> hs_ctxs (sv_H st)" using H Cons.prems(2) by (auto simp: hs_ctxs_def hs_inv_def in_set_conv_nth)
    from retired_one [OF Cons.prems(1) this c(2)] obtain st' xs' where
      st': "handle_retire (?ch c) st = Some (1, st')" "sv_inv st' refs xs' held" "retired refs st st'" "c \<notin> hs_ctxs (sv_H st')" .
    have "slot_hash (hs_slot_size (sv_H st)) (?ch d) \<noteq> i" if "d \<in> hs_ctxs (sv_H st')" for d
      using that at [of d] c(1) st'(3,4) by (auto simp: retired_def)
    moreover have "retire_slot i (n, st) = Some (n + 1, st')" using c st'(1) by (simp add: retire_slot_def)
    ultimately show ?thesis using that [of 1 st' xs'] st'(2,3) by auto
  qed
  have "set is \<subseteq> {..<hs_slot_size (sv_H st1)}" using Cons.prems(2) st1(3) by (auto simp: retired_def)
  from Cons.IH [OF st1(2) this, of "n + m1"] obtain m2 st2 xs2 where
    st2: "retire_slots is (n + m1, st1) = Some (n + m1 + m2, st2)" "sv_inv st2 refs xs2 held" "retired refs st1 st2"
      "\<forall>c \<in> hs_ctxs (sv_H st2). skynet_context_handle st2 c \<noteq> 0 \<longrightarrow>
          slot_hash (hs_slot_size (sv_H st1)) (skynet_context_handle st2 c) \<notin> set is" "m2 = 0 \<longrightarrow> st2 = st1" by blast
  have same: "hs_slot_size (sv_H st1) = hs_slot_size (sv_H st)"
    "\<And>c. c \<in> hs_ctxs (sv_H st2) \<Longrightarrow> c \<in> hs_ctxs (sv_H st1) \<and> skynet_context_handle st2 c = ?ch c"
    using st1(3) st2(3) by (auto simp: retired_def)
  have "slot_hash (hs_slot_size (sv_H st)) (skynet_context_handle st2 c) \<notin> set (i # is)"
    if "c \<in> hs_ctxs (sv_H st2)" "skynet_context_handle st2 c \<noteq> 0" for c
    using same(2) [OF that(1)] st1(4) [of c] st2(4) that same(1) by auto
  moreover have "retire_slots (i # is) (n, st) = Some (n + (m1 + m2), st2)" using st1(1) st2(1) by (simp add: add.assoc)
  moreover have "m1 + m2 = 0 \<longrightarrow> st2 = st" using st1(5) st2(5) by auto
  ultimately show ?case using st2(2) retired_trans [OF st1(3) st2(3)] by blast
qed

lemma retire_pass:
  assumes inv: "sv_inv st refs xs held"
  obtains m st' xs' where "retire_slots [0..<hs_slot_size (sv_H st)] (0, st) = Some (m, st')" "sv_inv st' refs xs' held"
    "retired refs st st'" "hs_ctxs (sv_H st') = {c \<in> hs_ctxs (sv_H st). skynet_context_handle st c = 0}" "m = 0 \<longrightarrow> st' = st"
proof -
  have "set [0..<hs_slot_size (sv_H st)] \<subseteq> {..<hs_slot_size (sv_H st)}" by auto
  from retire_slots_ok [OF inv this, of 0] obtain m st' xs' where
    st': "retire_slots [0..<hs_slot_size (sv_H st)] (0, st) = Some (m, st')" "sv_inv st' refs xs' held" "retired refs st st'"
      "\<forall>c \<in> hs_ctxs (sv_H st'). skynet_context_handle st' c \<noteq> 0 \<longrightarrow>
          slot_hash (hs_slot_size (sv_H st)) (skynet_context_handle st' c) \<notin> set [0..<hs_slot_size (sv_H st)]"
      "m = 0 \<longrightarrow> st' = st" unfolding add_0 by blast
  obtain k where "hs_slot_size (sv_H st) = 2 ^ k" using hs_inv_size [OF sv_invD(2) [OF inv]] by blast
  then have "skynet_context_handle st' c = 0" if "c \<in> hs_ctxs (sv_H st')" for c
    using st'(4) that slot_hash_less [of "hs_slot_size (sv_H st)" k] by auto
  with st'(3) have "hs_ctxs (sv_H st') = {c \<in> hs_ctxs (sv_H st). skynet_context_handle st c = 0}"
    unfolding retired_def by (metis (mono_tags, lifting) Collect_cong DiffI mem_Collect_eq subsetD subset_antisym subsetI)
  with st'(1,2,3,5) show thesis by (intro that [of m st' xs'])
qed

text \<open>
  C17: \<^verbatim>\<open>ABORT\<close> ends, however many services there are: afterwards no service with a handle other than
  0 is registered, and exactly those services are left that were not registered, are used by a thread
  at this moment, or have the handle 0.
\<close>

theorem retireall_ends:
  assumes "reaches sv_start sv_step (st, refs, held)"
  shows "\<exists>st'. skynet_handle_retireall st = Some st' \<and> sv_good (st', refs, held) \<and>
    hs_ctxs (sv_H st') = {c \<in> hs_ctxs (sv_H st). skynet_context_handle st c = 0} \<and>
    dom (sv_ctx st') = {c \<in> dom (sv_ctx st). 0 < refs c \<or> c \<notin> hs_ctxs (sv_H st) \<or> skynet_context_handle st c = 0}"
proof -
  obtain xs where inv: "sv_inv st refs xs held" using svi.inv_reaches [OF assms] by (auto simp: sv_good_def)
  obtain m st1 xs1 where st1: "retire_slots [0..<hs_slot_size (sv_H st)] (0, st) = Some (m, st1)" "sv_inv st1 refs xs1 held"
    "retired refs st st1" "hs_ctxs (sv_H st1) = {c \<in> hs_ctxs (sv_H st). skynet_context_handle st c = 0}" "m = 0 \<longrightarrow> st1 = st"
    by (rule retire_pass [OF inv])
  obtain m2 st2 xs2 where st2: "retire_slots [0..<hs_slot_size (sv_H st1)] (0, st1) = Some (m2, st2)" "sv_inv st2 refs xs2 held"
    "retired refs st1 st2" "hs_ctxs (sv_H st2) = {c \<in> hs_ctxs (sv_H st1). skynet_context_handle st1 c = 0}" "m2 = 0 \<longrightarrow> st2 = st1"
    by (rule retire_pass [OF st1(2)])
  have z: "skynet_context_handle st1 c = 0" if "c \<in> hs_ctxs (sv_H st1)" for c
    using that st1(3,4) by (auto simp: retired_def)
  have "m2 = 0"
  proof (rule ccontr)
    assume "m2 \<noteq> 0"
    have none: "retire_slot i (0, st1) = Some (0, st1)" if "i < hs_slot_size (sv_H st1)" for i
    proof (cases "hs_slot (sv_H st1) ! i")
      case (Some c)
      with that sv_invD(2) [OF st1(2)] have "c \<in> hs_ctxs (sv_H st1)" by (auto simp: hs_ctxs_def hs_inv_def in_set_conv_nth)
      with Some z show ?thesis by (simp add: retire_slot_def)
    qed (simp add: retire_slot_def)
    have "retire_slots is (0, st1) = Some (0, st1)" if "set is \<subseteq> {..<hs_slot_size (sv_H st1)}" for "is"
      using that by (induction "is") (auto simp: none)
    moreover have "set [0..<hs_slot_size (sv_H st1)] \<subseteq> {..<hs_slot_size (sv_H st1)}" by auto
    ultimately have "retire_slots [0..<hs_slot_size (sv_H st1)] (0, st1) = Some (0, st1)" by blast
    with \<open>m2 \<noteq> 0\<close> st2(1) show False by simp
  qed
  then have end2: "skynet_handle_retireall st1 = Some st1"
    using st2(1,5) by (subst skynet_handle_retireall.simps) simp
  have "skynet_handle_retireall st = Some st1"
    using st1(1,5) end2 by (subst skynet_handle_retireall.simps) auto
  moreover have "dom (sv_ctx st1) = {c \<in> dom (sv_ctx st). 0 < refs c \<or> c \<notin> hs_ctxs (sv_H st) \<or> skynet_context_handle st c = 0}"
    using st1(3,4) by (auto simp: retired_def)
  ultimately show ?thesis using st1(4) sv_goodI [OF st1(2)] by blast
qed

theorem retireall_ends_witness:
  "\<exists>st'. skynet_handle_retireall demo_server = Some st' \<and> hs_ctxs (sv_H st') = {} \<and> dom (sv_ctx st') = {1}"
proof -
  have c: "hs_ctxs (sv_H demo_server) = {1}" by (auto simp: hs_ctxs_def demo_server_def)
  have h: "skynet_context_handle demo_server 1 = 0x1000001" "dom (sv_ctx demo_server) = {1}"
    by (auto simp: skynet_context_handle_def demo_server_def split: if_splits)
  from retireall_ends [OF demo_reaches] obtain st' where
    "skynet_handle_retireall demo_server = Some st'"
    "hs_ctxs (sv_H st') = {c \<in> hs_ctxs (sv_H demo_server). skynet_context_handle demo_server c = 0}"
    "dom (sv_ctx st') = {c \<in> dom (sv_ctx demo_server). 0 < ((\<lambda>_. 0 :: nat)(1 := 1)) c \<or> c \<notin> hs_ctxs (sv_H demo_server) \<or>
      skynet_context_handle demo_server c = 0}" by blast
  with c h show ?thesis by auto
qed

end
