(* ===== verification/Server_Mail.thy ===== *)
theory Server_Mail
  imports Server_Send
begin

text \<open>
  What the messages that the server writes on its own do to the node: the lines of \<^verbatim>\<open>skynet_error\<close> and
  the messages without data of \<^verbatim>\<open>skynet_send\<close>. They add to queues and change nothing else.
\<close>

section \<open>Room in the queues\<close>

definition room :: "nat \<Rightarrow> server \<Rightarrow> bool" where
  "room n st \<longleftrightarrow> (\<forall>p h ms. mq_view (sv_mq st) p = Some (h, False, ms) \<longrightarrow> length ms + n < 2 ^ 30)"

lemma push_slot:
  assumes inv: "sv_inv st refs xs held" and room: "room (Suc n) st" and c: "slot_of (skynet_context_handle st) (sv_H st) h = Some c"
  shows "\<exists>p ms mq xs'. map_option ctx_queue (sv_ctx st c) = Some p \<and> mq_view (sv_mq st) p = Some (h, False, ms) \<and> skynet_context_push h m st = Some (0, st\<lparr>sv_mq := mq\<rparr>) \<and>
       sv_inv (st\<lparr>sv_mq := mq\<rparr>) refs xs' held \<and> mq_view mq = (mq_view (sv_mq st))(p \<mapsto> (h, False, ms @ [m])) \<and>
       room n (st\<lparr>sv_mq := mq\<rparr>)"
proof -
  have push: "case slot_of (skynet_context_handle st) (sv_H st) h of
      None \<Rightarrow> skynet_context_push h m st = Some (- 1, st)
    | Some c \<Rightarrow> \<exists>x mq xs' ms. sv_ctx st c = Some x \<and> mq_view (sv_mq st) (ctx_queue x) = Some (h, False, ms)
        \<and> skynet_context_push h m st = Some (0, st\<lparr>sv_mq := mq\<rparr>) \<and> sv_inv (st\<lparr>sv_mq := mq\<rparr>) refs xs' held
        \<and> mq_view mq = (mq_view (sv_mq st))(ctx_queue x \<mapsto> (h, False, ms @ [m]))"
    by (rule context_push_ok [OF inv]) (use room in \<open>unfold room_def, fastforce\<close>)
  then obtain x :: skynet_context and mq xs' ms where x: "sv_ctx st c = Some x" and p: "mq_view (sv_mq st) (ctx_queue x) = Some (h, False, ms)"
      "skynet_context_push h m st = Some (0, st\<lparr>sv_mq := mq\<rparr>)" "sv_inv (st\<lparr>sv_mq := mq\<rparr>) refs xs' held"
      "mq_view mq = (mq_view (sv_mq st))(ctx_queue x \<mapsto> (h, False, ms @ [m]))" unfolding c option.case by blast
  have "room n (st\<lparr>sv_mq := mq\<rparr>)"
    using room p(1) unfolding room_def by (fastforce simp: p(4) split: if_splits)
  with p x show ?thesis by (intro exI [of _ "ctx_queue x"]) auto
qed

lemma push_room:
  assumes inv: "sv_inv st refs xs held" and room: "room (Suc n) st"
  shows "skynet_context_push h m st = Some (- 1, st) \<or>
    (\<exists>p ms mq xs'. mq_view (sv_mq st) p = Some (h, False, ms) \<and> skynet_context_push h m st = Some (0, st\<lparr>sv_mq := mq\<rparr>) \<and>
       sv_inv (st\<lparr>sv_mq := mq\<rparr>) refs xs' held \<and> mq_view mq = (mq_view (sv_mq st))(p \<mapsto> (h, False, ms @ [m])) \<and>
       room n (st\<lparr>sv_mq := mq\<rparr>))"
proof (cases "slot_of (skynet_context_handle st) (sv_H st) h")
  case None
  with handle_grab_ok [OF inv, of h] show ?thesis by (simp add: skynet_context_push_def)
next
  case (Some c)
  from push_slot [OF inv room this] show ?thesis by blast
qed

section \<open>A line of the log\<close>

lemma sv_inv_logger: "sv_inv (st\<lparr>sv_logger := l\<rparr>) refs xs held = sv_inv st refs xs held"
proof -
  have "skynet_context_handle (st\<lparr>sv_logger := l\<rparr>) = skynet_context_handle st" "ctx_ok (st\<lparr>sv_logger := l\<rparr>) = ctx_ok st"
    by (simp_all add: skynet_context_handle_def ctx_ok_def fun_eq_iff)
  then show ?thesis by (simp add: sv_inv_def)
qed

text \<open>The buffer of a log line is one new block, however often it had to grow.\<close>

lemma error_grow_ok:
  assumes "data_ok st" "0 < m"
  shows "\<exists>d \<ge> sv_brk st. error_grow txt m st = Some (d, st\<lparr>sv_data := (sv_data st)(d \<mapsto> Bytes (map of_char txt)), sv_brk := Suc d\<rparr>)"
  using assms
proof (induction "length txt - m" arbitrary: m st rule: less_induct)
  case (less m st)
  show ?case
  proof (cases "length txt < m * 2")
    case True
    with less.prems show ?thesis by (subst error_grow.simps) (auto simp: data_alloc_eq)
  next
    case False
    let ?st = "st\<lparr>sv_brk := Suc (sv_brk st)\<rparr>"
    have [simp]: "(sv_data st)(sv_brk st := None) = sv_data st" using less.prems by (auto simp: data_ok_def)
    have "data_ok ?st" "sv_brk st \<noteq> 0" using less.prems(1) by (auto simp: data_ok_def)
    with less.hyps [of "m * 2" ?st] less.prems False have "\<exists>d \<ge> sv_brk ?st. error_grow txt (m * 2) ?st =
        Some (d, ?st\<lparr>sv_data := (sv_data ?st)(d \<mapsto> Bytes (map of_char txt)), sv_brk := Suc d\<rparr>)"
      by auto
    with \<open>sv_brk st \<noteq> 0\<close> less.prems(2) False show ?thesis
      by (subst error_grow.simps) (auto simp: data_alloc_eq data_free_def)
  qed
qed

text \<open>
  The three outcomes of \<^verbatim>\<open>skynet_error\<close>: there is no logger; the logger is gone and the line, which
  nobody frees, is lost; or the line is sent to the logger.
\<close>

definition error_source :: "addr option \<Rightarrow> server \<Rightarrow> u32 option" where
  "error_source context st = (case context of None \<Rightarrow> Some 0 | Some c \<Rightarrow> map_option ctx_handle (sv_ctx st c))"

definition error_message :: "u32 \<Rightarrow> addr \<Rightarrow> string \<Rightarrow> skynet_message" where
  "error_message source d txt =
     \<lparr>msg_source = source, msg_session = 0, msg_data = d, msg_sz = with_type (of_nat (length txt)) PTYPE_TEXT\<rparr>"

lemma error_ok:
  assumes inv: "sv_inv st refs xs held" "data_ok st" "room (Suc n) st" and src: "error_source context st = Some source"
  obtains (quiet) l where "skynet_error context txt st = Some (st\<lparr>sv_logger := l\<rparr>)" "sv_inv (st\<lparr>sv_logger := l\<rparr>) refs xs held"
  | (lost) l d where "skynet_error context txt st =
        Some (st\<lparr>sv_logger := l, sv_data := (sv_data st)(d \<mapsto> Bytes (map of_char txt)), sv_brk := Suc d\<rparr>)" "sv_brk st \<le> d"
      "data_ok (st\<lparr>sv_logger := l, sv_data := (sv_data st)(d \<mapsto> Bytes (map of_char txt)), sv_brk := Suc d\<rparr>)"
      "sv_inv (st\<lparr>sv_logger := l, sv_data := (sv_data st)(d \<mapsto> Bytes (map of_char txt)), sv_brk := Suc d\<rparr>) refs xs held"
  | (sent) l d p ms mq xs' where "skynet_error context txt st =
        Some (st\<lparr>sv_logger := l, sv_data := (sv_data st)(d \<mapsto> Bytes (map of_char txt)), sv_brk := Suc d, sv_mq := mq\<rparr>)"
      "sv_brk st \<le> d"
      "data_ok (st\<lparr>sv_logger := l, sv_data := (sv_data st)(d \<mapsto> Bytes (map of_char txt)), sv_brk := Suc d, sv_mq := mq\<rparr>)"
      "sv_inv (st\<lparr>sv_logger := l, sv_data := (sv_data st)(d \<mapsto> Bytes (map of_char txt)), sv_brk := Suc d, sv_mq := mq\<rparr>) refs xs' held"
      "mq_view (sv_mq st) p = Some (l, False, ms)"
      "mq_view mq = (mq_view (sv_mq st))(p \<mapsto> (l, False, ms @ [error_message source d txt]))"
      "room n (st\<lparr>sv_logger := l, sv_data := (sv_data st)(d \<mapsto> Bytes (map of_char txt)), sv_brk := Suc d, sv_mq := mq\<rparr>)"
proof -
  obtain logger where l: "(if sv_logger st = 0 then skynet_handle_findname (sv_H st) ''logger'' else Some (sv_logger st)) = Some logger"
  proof (cases "sv_logger st = 0")
    case True
    moreover obtain l where "skynet_handle_findname (sv_H st) ''logger'' = Some l"
      using findname_ok [OF sv_invD(3) [OF inv(1)], of "''logger''"] by (auto simp: cstring_def)
    ultimately show ?thesis by (intro that [of l]) simp
  next
    case False
    then show ?thesis by (intro that [of "sv_logger st"]) simp
  qed
  let ?st1 = "st\<lparr>sv_logger := logger\<rparr>"
  let ?b = "Bytes (map of_char txt)"
  have "data_ok ?st1" using inv(2) by (simp add: data_ok_def)
  obtain d where
    d: "(if length txt < LOG_MESSAGE_SIZE then Some (data_alloc ?b ?st1) else error_grow txt LOG_MESSAGE_SIZE ?st1) =
      Some (d, ?st1\<lparr>sv_data := (sv_data st)(d \<mapsto> ?b), sv_brk := Suc d\<rparr>)" "sv_brk st \<le> d"
  proof (cases "length txt < LOG_MESSAGE_SIZE")
    case True
    then show ?thesis by (intro that [of "sv_brk st"]) (simp_all add: data_alloc_eq)
  next
    case False
    have "0 < LOG_MESSAGE_SIZE" by (simp add: LOG_MESSAGE_SIZE_def)
    from error_grow_ok [OF \<open>data_ok ?st1\<close> this, of "txt"] False that show ?thesis by auto
  qed
  let ?st2 = "?st1\<lparr>sv_data := (sv_data st)(d \<mapsto> ?b), sv_brk := Suc d\<rparr>"
  let ?m = "error_message source d txt"
  have e: "skynet_error context txt st = (if logger = 0 then Some ?st1 else map_option snd (skynet_context_push logger ?m ?st2))"
    unfolding skynet_error_def l bind.bind_lunit Let_def d(1) using src
    by (auto simp: error_message_def error_source_def map_option_case split: option.splits)
  have inv1: "sv_inv ?st1 refs xs held" using inv(1) by (simp add: sv_inv_logger)
  have inv2: "sv_inv ?st2 refs xs held" using sv_inv_data [OF inv1, of "Suc d"] d(2) by simp
  have d2: "data_ok ?st2" using inv(2) d(2) by (fastforce simp: data_ok_def)
  have room2: "room (Suc n) ?st2" using inv(3) by (simp add: room_def)
  show thesis
  proof (cases "logger = 0")
    case True
    with e inv1 quiet show ?thesis by simp
  next
    case False
    from push_room [OF inv2 room2, of logger ?m] consider
        (none) "skynet_context_push logger ?m ?st2 = Some (- 1, ?st2)"
      | (some) p ms mq xs' where "mq_view (sv_mq st) p = Some (logger, False, ms)"
          "skynet_context_push logger ?m ?st2 = Some (0, ?st2\<lparr>sv_mq := mq\<rparr>)" "sv_inv (?st2\<lparr>sv_mq := mq\<rparr>) refs xs' held"
          "mq_view mq = (mq_view (sv_mq st))(p \<mapsto> (logger, False, ms @ [?m]))" "room n (?st2\<lparr>sv_mq := mq\<rparr>)" by auto
    then show ?thesis
    proof cases
      case none
      with e False d(2) d2 inv2 lost [where l = logger and d = d] show ?thesis by simp
    next
      case some
      have "data_ok (?st2\<lparr>sv_mq := mq\<rparr>)" using d2 by (simp add: data_ok_def)
      with e False d(2) some sent [where l = logger and d = d and mq = mq and xs' = xs' and p = p and ms = ms] show ?thesis by simp
    qed
  qed
qed

section \<open>Mail adds to queues\<close>

text \<open>Only messages were added to queues, and data allocated.\<close>

definition posted :: "server \<Rightarrow> server \<Rightarrow> bool" where
  "posted st st' \<longleftrightarrow> sv_H st' = sv_H st \<and> sv_ctx st' = sv_ctx st \<and> sv_node st' = sv_node st \<and> sv_REMOTE st' = sv_REMOTE st \<and>
     sv_HARBOR st' = sv_HARBOR st \<and> (\<forall>p h r ms. mq_view (sv_mq st) p = Some (h, r, ms) \<longrightarrow>
       (\<exists>new. mq_view (sv_mq st') p = Some (h, r, ms @ new)))"

lemma posted_handles: "posted st st' \<Longrightarrow> skynet_context_handle st' = skynet_context_handle st"
  by (simp add: posted_def skynet_context_handle_def fun_eq_iff)

lemma posted_trans:
  assumes "posted a b" "posted b c"
  shows "posted a c"
proof -
  have "\<exists>new. mq_view (sv_mq c) p = Some (h, r, ms @ new)" if "mq_view (sv_mq a) p = Some (h, r, ms)" for p h r ms
  proof -
    from assms(1) that obtain new where "mq_view (sv_mq b) p = Some (h, r, ms @ new)" unfolding posted_def by blast
    with assms(2) obtain new' where "mq_view (sv_mq c) p = Some (h, r, (ms @ new) @ new')" unfolding posted_def by blast
    then show ?thesis by auto
  qed
  with assms show ?thesis unfolding posted_def by simp
qed

lemma posted_push:
  assumes "mq_view (sv_mq st) p = Some (h, r, ms)" "mq_view mq = (mq_view (sv_mq st))(p \<mapsto> (h, r, ms @ new))"
    "sv_H st' = sv_H st" "sv_ctx st' = sv_ctx st" "sv_node st' = sv_node st" "sv_REMOTE st' = sv_REMOTE st"
    "sv_HARBOR st' = sv_HARBOR st" "sv_mq st' = mq"
  shows "posted st st'"
proof -
  have "\<exists>more. mq_view mq a = Some (k, b, ns @ more)" if "mq_view (sv_mq st) a = Some (k, b, ns)" for a k b ns
    using that assms(1,2) by (cases "a = p") auto
  with assms show ?thesis by (simp add: posted_def)
qed

lemma posted_same: "sv_mq st' = sv_mq st \<Longrightarrow> sv_H st' = sv_H st \<Longrightarrow> sv_ctx st' = sv_ctx st \<Longrightarrow> sv_node st' = sv_node st \<Longrightarrow>
    sv_REMOTE st' = sv_REMOTE st \<Longrightarrow> sv_HARBOR st' = sv_HARBOR st \<Longrightarrow> posted st st'"
  by (simp add: posted_def)

lemma error_posts:
  assumes inv: "sv_inv st refs xs held" "data_ok st" "room (Suc n) st" and src: "error_source context st = Some source"
  obtains st' xs' where "skynet_error context txt st = Some st'" "sv_inv st' refs xs' held" "data_ok st'" "room n st'" "posted st st'"
proof -
  show thesis
  proof (rule error_ok [OF inv src, of "txt"], goal_cases)
    case (1 l)
    have "room n (st\<lparr>sv_logger := l\<rparr>)" using inv(3) unfolding room_def by fastforce
    with 1 inv(2) show ?case by (intro that) (auto simp: data_ok_def intro: posted_same)
  next
    case (2 l d)
    have "room n (st\<lparr>sv_logger := l, sv_data := (sv_data st)(d \<mapsto> Bytes (map of_char txt)), sv_brk := Suc d\<rparr>)"
      using inv(3) unfolding room_def by fastforce
    with 2 show ?case by (intro that) (auto intro: posted_same)
  next
    case (3 l d p ms mq xs')
    then show ?case by (intro that) (auto intro!: posted_push [OF 3(5,6)])
  qed
qed

text \<open>A message without data for a service of this node.\<close>

lemma send_null:
  assumes inv: "sv_inv st refs xs held" "room (Suc n) st" and dst: "dst \<noteq> 0" "skynet_harbor_message_isremote dst st = Some False"
    and type: "type AND PTYPE_TAG_ALLOCSESSION = 0" and src: "src \<noteq> 0"
  obtains (gone) "skynet_send context src dst type session 0 0 st = Some (- 1, st)"
      "slot_of (skynet_context_handle st) (sv_H st) dst = None"
  | (sent) c p ms mq xs' where "slot_of (skynet_context_handle st) (sv_H st) dst = Some c"
      "map_option ctx_queue (sv_ctx st c) = Some p" "skynet_send context src dst type session 0 0 st = Some (session, st\<lparr>sv_mq := mq\<rparr>)"
      "sv_inv (st\<lparr>sv_mq := mq\<rparr>) refs xs' held" "mq_view (sv_mq st) p = Some (dst, False, ms)"
      "mq_view mq = (mq_view (sv_mq st))(p \<mapsto> (dst, False, ms @ [\<lparr>msg_source = src, msg_session = session, msg_data = 0,
         msg_sz = with_type 0 (type AND 0xff)\<rparr>]))" "room n (st\<lparr>sv_mq := mq\<rparr>)"
proof -
  have f: "filter_args context type session 0 0 st = Some (session, 0, with_type 0 (type AND 0xff), st)"
    using type by (simp add: filter_args_def Let_def)
  let ?m = "\<lparr>msg_source = src, msg_session = session, msg_data = 0, msg_sz = with_type 0 (type AND 0xff)\<rparr>"
  have s: "skynet_send context src dst type session 0 0 st = Option.bind (skynet_context_push dst ?m st)
      (\<lambda>(r, st). if r \<noteq> 0 then map_option (Pair (- 1)) (data_free 0 st) else Some (session, st))"
    using dst src by (simp add: skynet_send_def size_of_def f context_source_def)
  show thesis
  proof (cases "slot_of (skynet_context_handle st) (sv_H st) dst")
    case None
    with handle_grab_ok [OF inv(1), of dst] have "skynet_context_push dst ?m st = Some (- 1, st)"
      by (simp add: skynet_context_push_def)
    with s None gone show ?thesis by (simp add: data_free_def)
  next
    case (Some c)
    from push_slot [OF inv Some, of ?m] obtain p ms mq xs' where
      p: "map_option ctx_queue (sv_ctx st c) = Some p" "mq_view (sv_mq st) p = Some (dst, False, ms)" "skynet_context_push dst ?m st = Some (0, st\<lparr>sv_mq := mq\<rparr>)"
        "sv_inv (st\<lparr>sv_mq := mq\<rparr>) refs xs' held" "mq_view mq = (mq_view (sv_mq st))(p \<mapsto> (dst, False, ms @ [?m]))"
        "room n (st\<lparr>sv_mq := mq\<rparr>)" by blast
    with s Some sent [where c = c and mq = mq and xs' = xs' and p = p and ms = ms] show ?thesis by simp
  qed
qed

end
