(* ===== verification/Server_Worker.thy ===== *)
theory Server_Worker
  imports Server_Dispatch Server_Mail
begin

text \<open>
  What one call of \<^verbatim>\<open>skynet_context_message_dispatch\<close> does for the service whose queue the worker
  holds: how many messages it handles, in which order, and what happens to their data. The services
  are arbitrary, under a contract that says what a callback may do to the node.
\<close>

section \<open>A worker that serves a queue\<close>

text \<open>The data of some messages are different allocated blocks, or null.\<close>

definition owns :: "(addr \<rightharpoonup> block) \<Rightarrow> skynet_message list \<Rightarrow> bool" where
  "owns d ms \<longleftrightarrow> distinct (filter (\<lambda>a. a \<noteq> 0) (map msg_data ms)) \<and> (\<forall>m \<in> set ms. msg_data m \<noteq> 0 \<longrightarrow> d (msg_data m) \<noteq> None)"

text \<open>
  The worker has a reference to the context and holds its queue, which contains some messages.
\<close>

definition serving :: "nat \<Rightarrow> (addr \<Rightarrow> nat) \<Rightarrow> addr set \<Rightarrow> addr \<Rightarrow> addr \<Rightarrow> server \<Rightarrow> skynet_context \<Rightarrow> skynet_message list \<Rightarrow> bool" where
  "serving n refs held c q st x ms \<longleftrightarrow> sv_good (st, refs, held) \<and> data_ok st \<and> room n st \<and> of_bool (sv_REMOTE st = Some c) < refs c \<and> q \<in> held \<and>
     sv_ctx st c = Some x \<and> ctx_queue x = q \<and> mq_view (sv_mq st) q = Some (ctx_handle x, False, ms)"

text \<open>
  The contract of a callback: called for a message that has left the queue, it returns; the worker
  still serves the queue, to which at most \<open>b\<close> messages were added, as to every other one; the data of
  the waiting messages is intact, and that of the message itself unless the callback has taken it
  over. The callback of the context and its flags stay.
\<close>

definition service_ok :: "services \<Rightarrow> nat \<Rightarrow> bool" where
  "service_ok sv b \<longleftrightarrow> (\<forall>n refs held c q st x ms cb m.
     serving (n + b) refs held c q st x ms \<and> owns (sv_data st) (m # ms) \<longrightarrow>
     (\<exists>r st' x' new. md_callback sv cb c (type_of (msg_sz m)) (msg_session m) (msg_source m) (msg_data m) (size_of (msg_sz m)) st = Some (r, st') \<and>
       serving n refs held c q st' x' (ms @ new) \<and> owns (sv_data st') ((if r = 0 then [m] else []) @ ms @ new) \<and>
       ctx_handle x' = ctx_handle x \<and> ctx_init x' = ctx_init x \<and> (ctx_cb x \<noteq> None \<longrightarrow> ctx_cb x' \<noteq> None) \<and> ctx_message_count x' = ctx_message_count x))"

lemma owns_mono: "owns d ms \<Longrightarrow> (\<And>a. d a \<noteq> None \<Longrightarrow> d' a \<noteq> None) \<Longrightarrow> owns d' ms"
  unfolding owns_def by blast

lemma serving_less: "serving n refs held c q st x ms \<Longrightarrow> k \<le> n \<Longrightarrow> serving k refs held c q st x ms"
  unfolding serving_def room_def by fastforce

lemma servingD:
  assumes "serving n refs held c q st x ms"
  obtains xs where "sv_inv st refs xs held" "data_ok st" "room n st" "of_bool (sv_REMOTE st = Some c) < refs c" "q \<in> held" "sv_ctx st c = Some x"
    "ctx_queue x = q" "mq_view (sv_mq st) q = Some (ctx_handle x, False, ms)"
  using assms by (auto simp: serving_def sv_good_def)

lemma serving_length:
  assumes "serving n refs held c q st x ms" "mq_heap (sv_mq st) q = Some mq"
  shows "skynet_mq_length mq = int (length ms)"
proof -
  obtain xs where inv: "sv_inv st refs xs held" and v: "mq_view (sv_mq st) q = Some (ctx_handle x, False, ms)"
    using assms(1) by (rule servingD)
  from v assms(2) have "mq_contents mq = ms" by (simp add: mq_view_def mq_box_def)
  with mq_rep_length [OF mq_ok_rep [OF sv_invD(1) [OF inv] assms(2)]] show ?thesis by simp
qed

text \<open>A change of the queues that keeps the view of all but some messages taken away.\<close>

lemma serving_mq:
  assumes s: "serving n refs held c q st x ms" and ok: "mq_ok mq xs' held"
    and v: "mq_view mq = (mq_view (sv_mq st))(q \<mapsto> (ctx_handle x, False, ms'))" and len: "length ms' \<le> length ms"
  shows "serving n refs held c q (st\<lparr>sv_mq := mq\<rparr>) x ms'"
proof -
  obtain xs where inv: "sv_inv st refs xs held" "data_ok st" "room n st" "of_bool (sv_REMOTE st = Some c) < refs c" "q \<in> held" "sv_ctx st c = Some x"
    "ctx_queue x = q" "mq_view (sv_mq st) q = Some (ctx_handle x, False, ms)"
    using s by (rule servingD)
  have "sv_inv (st\<lparr>sv_mq := mq\<rparr>) refs xs' held"
    by (rule sv_inv_mq [OF inv(1) ok]) (use v inv(8) in \<open>auto split: if_splits\<close>)
  moreover have "room n (st\<lparr>sv_mq := mq\<rparr>)"
    using inv(3,8) len unfolding room_def by (auto simp: v split: if_splits) fastforce
  moreover have "data_ok (st\<lparr>sv_mq := mq\<rparr>)" using inv(2) by (simp add: data_ok_def)
  ultimately show ?thesis using inv v by (auto simp: serving_def intro: sv_goodI)
qed

lemma serving_pop:
  assumes s: "serving n refs held c q st x (m # ms)"
  obtains st' where "queue_pop q st = Some (Some m, st')" "serving n refs held c q st' x ms" "sv_data st' = sv_data st"
proof -
  obtain xs where inv: "sv_inv st refs xs held" "q \<in> held" "mq_view (sv_mq st) q = Some (ctx_handle x, False, m # ms)"
    using s by (rule servingD)
  then obtain mq where mq: "mq_heap (sv_mq st) q = Some mq" "mq_release mq = 0" by (auto simp: mq_view_def mq_box_def)
  obtain ret r mq' where pop: "skynet_mq_pop mq = Some (ret, r, mq')"
    using mq_ok_pop [OF sv_invD(1) [OF inv(1)] mq inv(2)] by blast
  note t = mq_view_take [OF sv_invD(1) [OF inv(1)] inv(3,2) mq(1) pop]
  have r: "r = Some m" using t(3) by simp
  have "serving n refs held c q (st\<lparr>sv_mq := mq_update q mq' (sv_mq st)\<rparr>) x ms"
    by (rule serving_mq [OF s, of _ xs]) (use t(1,2) r in simp_all)
  then show thesis by (rule that [rotated]) (simp_all add: queue_pop_def mq(1) pop r)
qed

lemma mq_overload_irrelevant: "mq_box (q\<lparr>mq_overload := v\<rparr>) = mq_box q" "mq_node_ok b (q\<lparr>mq_overload := v\<rparr>) = mq_node_ok b q"
  by (simp_all add: mq_box_def mq_node_ok_def mq_inv_def mq_contents_def mq_cell_def mq_shape_def skynet_mq_length_def)

lemma serving_overload:
  assumes s: "serving n refs held c q st x ms"
  obtains v st' where "queue_overload q st = Some (v, st')" "serving n refs held c q st' x ms" "sv_data st' = sv_data st"
proof -
  obtain xs where inv: "sv_inv st refs xs held" "mq_view (sv_mq st) q = Some (ctx_handle x, False, ms)"
    using s by (rule servingD)
  then obtain mq where mq: "mq_heap (sv_mq st) q = Some mq" "mq_box mq = (ctx_handle x, False, ms)" by (auto simp: mq_view_def)
  obtain v mq' where o: "skynet_mq_overload mq = (v, mq')" by (cases "skynet_mq_overload mq")
  then have mq': "mq' = mq \<or> mq' = mq\<lparr>mq_overload := 0\<rparr>" by (auto simp: skynet_mq_overload_def split: if_splits)
  have "mq_ok (mq_update q mq' (sv_mq st)) xs held"
    by (rule mq_ok_update [OF sv_invD(1) [OF inv(1)] mq(1)])
      (use mq' mq_ok_node [OF sv_invD(1) [OF inv(1)] mq(1)] in \<open>auto simp: mq_overload_irrelevant\<close>)
  then have "serving n refs held c q (st\<lparr>sv_mq := mq_update q mq' (sv_mq st)\<rparr>) x ms"
    by (rule serving_mq [OF s]) (use mq(2) mq' in \<open>auto simp: mq_view_update mq_overload_irrelevant\<close>)
  then show thesis by (rule that [rotated]) (simp_all add: queue_overload_def mq(1) o)
qed

lemma serving_field:
  assumes s: "serving n refs held c q st x ms"
    and same: "ctx_ref (f x) = ctx_ref x" "ctx_handle (f x) = ctx_handle x" "ctx_queue (f x) = ctx_queue x"
  obtains st' where "ctx_update c f st = Some st'" "serving n refs held c q st' (f x) ms" "sv_data st' = sv_data st"
proof -
  obtain xs where inv: "sv_inv st refs xs held" "data_ok st" "room n st" "of_bool (sv_REMOTE st = Some c) < refs c" "q \<in> held" "sv_ctx st c = Some x"
    "ctx_queue x = q" "mq_view (sv_mq st) q = Some (ctx_handle x, False, ms)"
    using s by (rule servingD)
  let ?st = "st\<lparr>sv_ctx := (sv_ctx st)(c \<mapsto> f x)\<rparr>"
  have "sv_inv ?st refs xs held" by (rule sv_inv_field [OF inv(1,6) same])
  then have "serving n refs held c q ?st (f x) ms"
    using inv same by (auto simp: serving_def data_ok_def room_def intro: sv_goodI)
  then show thesis by (rule that [rotated]) (simp_all add: ctx_update_def inv(6))
qed

lemma serving_free:
  assumes s: "serving n refs held c q st x ms" and o: "owns (sv_data st) (m # us)"
  obtains st' where "data_free (msg_data m) st = Some st'" "serving n refs held c q st' x ms" "owns (sv_data st') us"
proof (cases "msg_data m = 0")
  case True
  with o s show thesis by (intro that [of st]) (auto simp: data_free_def owns_def)
next
  case False
  let ?st = "st\<lparr>sv_data := (sv_data st)(msg_data m := None)\<rparr>"
  obtain xs where inv: "sv_inv st refs xs held" "data_ok st" "room n st" "of_bool (sv_REMOTE st = Some c) < refs c" "q \<in> held" "sv_ctx st c = Some x"
    "ctx_queue x = q" "mq_view (sv_mq st) q = Some (ctx_handle x, False, ms)"
    using s by (rule servingD)
  have "sv_inv ?st refs xs held" using sv_inv_data [OF inv(1), of "sv_brk st"] by simp
  then have "serving n refs held c q ?st x ms"
    using inv by (auto simp: serving_def data_ok_def room_def intro: sv_goodI)
  moreover have "owns (sv_data ?st) us" using o False by (auto simp: owns_def) (metis image_eqI)
  moreover have "data_free (msg_data m) st = Some ?st" using o False by (auto simp: data_free_def owns_def)
  ultimately show thesis by (intro that)
qed

section \<open>The log\<close>

lemma serving_error:
  assumes s: "serving (Suc n) refs held c q st x ms" and o: "owns (sv_data st) us"
  obtains st' new where "skynet_error (Some c) txt st = Some st'" "serving n refs held c q st' x (ms @ new)"
    "owns (sv_data st') (us @ new)"
proof -
  obtain xs where inv: "sv_inv st refs xs held" "data_ok st" "room (Suc n) st" "of_bool (sv_REMOTE st = Some c) < refs c" "q \<in> held"
    "sv_ctx st c = Some x" "ctx_queue x = q" "mq_view (sv_mq st) q = Some (ctx_handle x, False, ms)"
    using s by (rule servingD)
  note less = serving_less [OF s, of n]
  have src: "error_source (Some c) st = Some (ctx_handle x)" by (simp add: error_source_def inv(6))
  show thesis
  proof (rule error_ok [OF inv(1-3) src, of "txt"], goal_cases)
    case (1 l)
    with less that [of _ "[]"] o show ?case
      by (auto simp: serving_def data_ok_def room_def intro: sv_goodI)
  next
    case (2 l d)
    have "owns ((sv_data st)(d \<mapsto> Bytes (map of_char txt))) us" by (rule owns_mono [OF o]) simp
    moreover note sv_goodI [OF 2(4)]
    ultimately show ?case using 2 less that [of _ "[]"] by (auto simp: serving_def room_def)
  next
    case (3 l d p ms' mq xs')
    let ?m = "error_message (ctx_handle x) d txt"
    define new where "new = (if p = q then [?m] else [])"
    have "mq_view mq q = Some (ctx_handle x, False, ms @ new)" using 3(5,6) inv(8) by (auto simp: new_def)
    with 3 inv have "serving n refs held c q (st\<lparr>sv_logger := l, sv_data := (sv_data st)(d \<mapsto> Bytes (map of_char txt)),
        sv_brk := Suc d, sv_mq := mq\<rparr>) x (ms @ new)"
      by (auto simp: serving_def intro: sv_goodI)
    moreover have "owns ((sv_data st)(d \<mapsto> Bytes (map of_char txt))) (us @ new)"
      using o 3(2,3) inv(2) by (fastforce simp: owns_def new_def error_message_def data_ok_def)
    ultimately show ?case using 3(1) by (intro that) auto
  qed
qed

section \<open>One message\<close>

text \<open>A dispatched message reaches the callback once, and its data is freed unless it was taken over.\<close>

lemma service_okD:
  assumes "service_ok sv b" "serving (n + b) refs held c q st x ms" "owns (sv_data st) (m # ms)" "ctx_cb x \<noteq> None"
  obtains r st' x' new where "md_callback sv cb c (type_of (msg_sz m)) (msg_session m) (msg_source m) (msg_data m)
      (size_of (msg_sz m)) st = Some (r, st')" "serving n refs held c q st' x' (ms @ new)"
    "owns (sv_data st') ((if r = 0 then [m] else []) @ ms @ new)" "ctx_init x' = ctx_init x" "ctx_cb x' \<noteq> None"
    "ctx_message_count x' = ctx_message_count x" "ctx_handle x' = ctx_handle x"
proof -
  have "\<exists>r st' x' new. md_callback sv cb c (type_of (msg_sz m)) (msg_session m) (msg_source m) (msg_data m) (size_of (msg_sz m)) st = Some (r, st') \<and>
       serving n refs held c q st' x' (ms @ new) \<and> owns (sv_data st') ((if r = 0 then [m] else []) @ ms @ new) \<and>
       ctx_handle x' = ctx_handle x \<and> ctx_init x' = ctx_init x \<and> (ctx_cb x \<noteq> None \<longrightarrow> ctx_cb x' \<noteq> None) \<and> ctx_message_count x' = ctx_message_count x"
    by (rule assms(1) [unfolded service_ok_def, rule_format, OF conjI [OF assms(2,3)]])
  then show thesis using assms(4) that by (elim exE conjE) blast
qed

lemma serving_dispatch:
  assumes sv: "service_ok sv b" and s: "serving (n + b) refs held c q st x ms" and o: "owns (sv_data st) (m # ms)"
    and x: "ctx_init x" "ctx_cb x \<noteq> None"
  obtains st' x' new where "dispatch_message sv clock c m st = Some st'" "serving n refs held c q st' x' (ms @ new)"
    "owns (sv_data st') (ms @ new)" "ctx_init x'" "ctx_cb x' \<noteq> None" "ctx_message_count x' = int32_inc (ctx_message_count x)"
    "ctx_handle x' = ctx_handle x"
proof -
  obtain cb where cb: "ctx_cb x = Some cb" using x(2) by blast
  let ?x1 = "x\<lparr>ctx_message_count := int32_inc (ctx_message_count x)\<rparr>"
  obtain st1 where st1: "ctx_update c (\<lambda>x. x\<lparr>ctx_message_count := int32_inc (ctx_message_count x)\<rparr>) st = Some st1"
    "serving (n + b) refs held c q st1 ?x1 ms" "sv_data st1 = sv_data st"
    by (rule serving_field [OF s, of "\<lambda>x. x\<lparr>ctx_message_count := int32_inc (ctx_message_count x)\<rparr>"]) simp_all
  obtain st2 x2 where st2: "(if ctx_profile x then ctx_update c (\<lambda>x. x\<lparr>ctx_cpu_start := fst clock\<rparr>) st1 else Some st1) = Some st2"
    "serving (n + b) refs held c q st2 x2 ms" "sv_data st2 = sv_data st" "ctx_init x2 = ctx_init x" "ctx_cb x2 \<noteq> None"
    "ctx_message_count x2 = int32_inc (ctx_message_count x)" "ctx_handle x2 = ctx_handle x"
  proof (cases "ctx_profile x")
    case True
    obtain st' where "ctx_update c (\<lambda>x. x\<lparr>ctx_cpu_start := fst clock\<rparr>) st1 = Some st'"
      "serving (n + b) refs held c q st' (?x1\<lparr>ctx_cpu_start := fst clock\<rparr>) ms" "sv_data st' = sv_data st1"
      by (rule serving_field [OF st1(2), of "\<lambda>x. x\<lparr>ctx_cpu_start := fst clock\<rparr>"]) simp_all
    with True that [of st' "?x1\<lparr>ctx_cpu_start := fst clock\<rparr>"] st1(3) x(2) show ?thesis by simp
  next
    case False
    with that [of st1 ?x1] st1 x(2) show ?thesis by simp
  qed
  have o2: "owns (sv_data st2) (m # ms)" using o st2(3) by simp
  obtain r st3 x3 new where cbr: "md_callback sv cb c (type_of (msg_sz m)) (msg_session m) (msg_source m) (msg_data m)
      (size_of (msg_sz m)) st2 = Some (r, st3)" "serving n refs held c q st3 x3 (ms @ new)"
    "owns (sv_data st3) ((if r = 0 then [m] else []) @ ms @ new)" "ctx_init x3 = ctx_init x2" "ctx_cb x3 \<noteq> None"
    "ctx_message_count x3 = ctx_message_count x2" "ctx_handle x3 = ctx_handle x2"
    by (rule service_okD [OF sv st2(2) o2 st2(5)])
  let ?f4 = "\<lambda>x. x\<lparr>ctx_cpu_cost := ctx_cpu_cost x + (snd clock - ctx_cpu_start x)\<rparr>"
  obtain st4 x4 where st4: "(if ctx_profile x then ctx_update c ?f4 st3 else Some st3) = Some st4"
    "serving n refs held c q st4 x4 (ms @ new)" "sv_data st4 = sv_data st3" "ctx_init x4 = ctx_init x3" "ctx_cb x4 = ctx_cb x3"
    "ctx_message_count x4 = ctx_message_count x3" "ctx_handle x4 = ctx_handle x3"
  proof (cases "ctx_profile x")
    case True
    obtain st' where "ctx_update c ?f4 st3 = Some st'" "serving n refs held c q st' (?f4 x3) (ms @ new)" "sv_data st' = sv_data st3"
      by (rule serving_field [OF cbr(2), of ?f4]) simp_all
    with True that [of st' "?f4 x3"] show ?thesis by simp
  next
    case False
    with that [of st3 x3] cbr show ?thesis by simp
  qed
  obtain st5 where st5: "(if r = 0 then data_free (msg_data m) st4 else Some st4) = Some st5"
    "serving n refs held c q st5 x4 (ms @ new)" "owns (sv_data st5) (ms @ new)"
  proof (cases "r = 0")
    case True
    with cbr(3) st4(3) have "owns (sv_data st4) (m # ms @ new)" by simp
    from serving_free [OF st4(2) this] True that show ?thesis by auto
  next
    case False
    with that [of st4] cbr(3) st4(2,3) show ?thesis by simp
  qed
  have cx: "sv_ctx st c = Some x" using s by (simp add: serving_def)
  have "dispatch_message sv clock c m st = Some st5"
    by (simp add: dispatch_message_def cx x(1) st1(1) st2(1) cb cbr(1) st4(1) st5(1) Let_def)
  moreover have "ctx_init x4" "ctx_cb x4 \<noteq> None" "ctx_message_count x4 = int32_inc (ctx_message_count x)" "ctx_handle x4 = ctx_handle x"
    using cbr(4-7) st4(4-7) st2(4,6,7) x by auto
  ultimately show thesis using st5(2,3) by (intro that)
qed

lemma serving_round:
  assumes sv: "service_ok sv b" and s: "serving (Suc (n + b)) refs held c q st x ms" and o: "owns (sv_data st) (m # ms)"
    and x: "ctx_init x" "ctx_cb x \<noteq> None"
  obtains st' x' new sm' where "dispatch_round sv clock h c q m sm st = Some (sm', st')" "serving n refs held c q st' x' (ms @ new)"
    "owns (sv_data st') (ms @ new)" "ctx_init x'" "ctx_cb x' \<noteq> None" "ctx_message_count x' = int32_inc (ctx_message_count x)"
    "ctx_handle x' = ctx_handle x"
proof -
  obtain v st1 where st1: "queue_overload q st = Some (v, st1)" "serving (Suc (n + b)) refs held c q st1 x ms"
    "sv_data st1 = sv_data st"
    using s by (rule serving_overload)
  let ?txt = "''May overload, message queue length = '' @ print_int v"
  obtain st2 new1 where st2: "(if v \<noteq> 0 then skynet_error (Some c) ?txt st1 else Some st1) = Some st2"
    "serving (n + b) refs held c q st2 x (ms @ new1)" "owns (sv_data st2) (m # ms @ new1)"
  proof (cases "v = 0")
    case True
    with that [of st1 "[]"] st1 o serving_less [OF st1(2), of "n + b"] show ?thesis by simp
  next
    case False
    have "owns (sv_data st1) (m # ms)" using o st1(3) by simp
    from serving_error [OF st1(2) this, of ?txt] that False show ?thesis by auto
  qed
  obtain st3 x3 new2 where st3: "dispatch_message sv clock c m st2 = Some st3" "serving n refs held c q st3 x3 ((ms @ new1) @ new2)"
    "owns (sv_data st3) ((ms @ new1) @ new2)" "ctx_init x3" "ctx_cb x3 \<noteq> None" "ctx_message_count x3 = int32_inc (ctx_message_count x)"
    "ctx_handle x3 = ctx_handle x"
    by (rule serving_dispatch [OF sv st2(2,3) x, of clock])
  have "sv_ctx st2 c = Some x" using st2(2) by (simp add: serving_def)
  then have "dispatch_round sv clock h c q m sm st =
      Some (skynet_monitor_trigger 0 0 (skynet_monitor_trigger (msg_source m) h sm), st3)"
    using x(2) by (auto simp: dispatch_round_def st1(1) st2(1) st3(1) Let_def)
  with st3 show thesis by (intro that [of _ st3 x3 "new1 @ new2"]) auto
qed


section \<open>One turn of a worker\<close>

lemma queue_length:
  assumes "serving n refs held c q st x ms"
  obtains mq where "mq_heap (sv_mq st) q = Some mq" "skynet_mq_length mq = int (length ms)"
proof -
  have "mq_view (sv_mq st) q = Some (ctx_handle x, False, ms)" using assms by (simp add: serving_def)
  then obtain mq where "mq_heap (sv_mq st) q = Some mq" by (auto simp: mq_view_def)
  with serving_length [OF assms] that show thesis by blast
qed

lemma dispatch_loop_rest:
  assumes sv: "service_ok sv b"
  shows "serving (n + k * Suc b) refs held c q st x ms \<Longrightarrow> owns (sv_data st) ms \<Longrightarrow> ctx_init x \<Longrightarrow> ctx_cb x \<noteq> None \<Longrightarrow>
    k \<le> length ms \<Longrightarrow> 0 < i \<Longrightarrow>
    \<exists>st' x' new sm'. dispatch_loop sv clock weight h c q i (i + k) sm st = Some (False, sm', st') \<and>
      serving n refs held c q st' x' (drop k ms @ new) \<and> owns (sv_data st') (drop k ms @ new) \<and>
      ctx_message_count x' = (int32_inc ^^ k) (ctx_message_count x) \<and> ctx_handle x' = ctx_handle x"
proof (induction k arbitrary: i st x ms sm)
  case 0
  show ?case
    by (rule exI [of _ st], rule exI [of _ x], rule exI [of _ "[]"], rule exI [of _ sm])
      (use "0.prems" in \<open>simp add: dispatch_loop.simps [of sv clock weight h c q i i]\<close>)
next
  case (Suc k)
  then obtain m ms1 where ms: "ms = m # ms1" by (cases ms) auto
  obtain st1 where st1: "queue_pop q st = Some (Some m, st1)" "serving (n + Suc k * Suc b) refs held c q st1 x ms1"
    "sv_data st1 = sv_data st"
    using Suc.prems(1) unfolding ms by (rule serving_pop)
  have s1: "serving (Suc (n + k * Suc b + b)) refs held c q st1 x ms1" and o1: "owns (sv_data st1) (m # ms1)"
    using st1(2,3) Suc.prems(2) by (simp_all add: ms algebra_simps)
  obtain mq where mq: "mq_heap (sv_mq st1) q = Some mq" by (rule queue_length [OF s1])
  obtain st2 x2 new1 sm2 where st2: "dispatch_round sv (clock i) h c q m sm st1 = Some (sm2, st2)"
    "serving (n + k * Suc b) refs held c q st2 x2 (ms1 @ new1)" "owns (sv_data st2) (ms1 @ new1)" "ctx_init x2" "ctx_cb x2 \<noteq> None"
    "ctx_message_count x2 = int32_inc (ctx_message_count x)" "ctx_handle x2 = ctx_handle x"
    by (rule serving_round [OF sv s1 o1 Suc.prems(3,4), of "clock i" h sm])
  have "k \<le> length (ms1 @ new1)" using Suc.prems(5) by (simp add: ms)
  from Suc.IH [OF st2(2-5) this, of "i + 1" sm2] obtain st3 x3 new2 sm3 where
    st3: "dispatch_loop sv clock weight h c q (i + 1) (i + 1 + k) sm2 st2 = Some (False, sm3, st3)"
      "serving n refs held c q st3 x3 (drop k (ms1 @ new1) @ new2)" "owns (sv_data st3) (drop k (ms1 @ new1) @ new2)"
      "ctx_message_count x3 = (int32_inc ^^ k) (ctx_message_count x2)" "ctx_handle x3 = ctx_handle x2" by auto
  have "dispatch_loop sv clock weight h c q i (i + Suc k) sm st = Some (False, sm3, st3)"
    using st3(1) Suc.prems(6) by (subst dispatch_loop.simps) (simp add: st1(1) mq st2(1) Let_def)
  moreover have "drop k (ms1 @ new1) @ new2 = drop (Suc k) ms @ (new1 @ new2)" using Suc.prems(5) by (simp add: ms)
  ultimately show ?case using st3(2-5) st2(6,7) by (metis funpow_Suc_right o_apply)
qed

text \<open>The number of messages one turn handles: the rest of the queue when it begins, by the weight of the worker.\<close>

definition turn_share :: "int \<Rightarrow> nat \<Rightarrow> nat" where
  "turn_share weight rest = (if 0 \<le> weight then max 1 (rest div 2 ^ nat weight) else 1)"

lemma dispatch_turn:
  assumes sv: "service_ok sv b" and s: "serving (n + turn_share weight (length ms) * Suc b) refs held c q st x (m # ms)"
    and o: "owns (sv_data st) (m # ms)" and x: "ctx_init x" "ctx_cb x \<noteq> None"
  defines "k \<equiv> turn_share weight (length ms)"
  obtains st' x' new sm' where "dispatch_loop sv clock weight h c q 0 1 sm st = Some (False, sm', st')"
    "serving n refs held c q st' x' (drop k (m # ms) @ new)" "owns (sv_data st') (drop k (m # ms) @ new)"
    "ctx_message_count x' = (int32_inc ^^ k) (ctx_message_count x)" "ctx_handle x' = ctx_handle x"
proof -
  let ?n = "if 0 \<le> weight then nat (drop_bit (nat weight) (int (length ms))) else 1"
  obtain j where k: "k = Suc j" "turn_share weight (length ms) = Suc j"
    unfolding k_def by (cases "turn_share weight (length ms)") (auto simp: turn_share_def split: if_splits)
  have share: "?n = 0 \<and> j = 0 \<or> ?n = 1 + j"
    using k(2) by (auto simp: turn_share_def drop_bit_eq_div nat_div_distrib nat_power_eq max_def split: if_splits)
  have "j \<le> length ms"
    using k(2) by (auto simp: turn_share_def max_def split: if_splits) (metis Suc_leD div_le_dividend)
  obtain st1 where st1: "queue_pop q st = Some (Some m, st1)" "serving (n + Suc j * Suc b) refs held c q st1 x ms"
    "sv_data st1 = sv_data st"
    using s [unfolded k(2)] by (rule serving_pop)
  have s1: "serving (Suc (n + j * Suc b + b)) refs held c q st1 x ms" and o1: "owns (sv_data st1) (m # ms)"
    using st1(2,3) o by (simp_all add: algebra_simps)
  obtain mq where mq: "mq_heap (sv_mq st1) q = Some mq" "skynet_mq_length mq = int (length ms)" by (rule queue_length [OF s1])
  obtain st2 x2 new1 sm2 where st2: "dispatch_round sv (clock 0) h c q m sm st1 = Some (sm2, st2)"
    "serving (n + j * Suc b) refs held c q st2 x2 (ms @ new1)" "owns (sv_data st2) (ms @ new1)" "ctx_init x2" "ctx_cb x2 \<noteq> None"
    "ctx_message_count x2 = int32_inc (ctx_message_count x)" "ctx_handle x2 = ctx_handle x"
    by (rule serving_round [OF sv s1 o1 x, of "clock 0" h sm])
  have "j \<le> length (ms @ new1)" using \<open>j \<le> length ms\<close> by simp
  from dispatch_loop_rest [OF sv st2(2-5) this, of 1 clock weight h sm2] obtain st3 x3 new2 sm3 where
    st3: "dispatch_loop sv clock weight h c q 1 (1 + j) sm2 st2 = Some (False, sm3, st3)"
      "serving n refs held c q st3 x3 (drop j (ms @ new1) @ new2)" "owns (sv_data st3) (drop j (ms @ new1) @ new2)"
      "ctx_message_count x3 = (int32_inc ^^ j) (ctx_message_count x2)" "ctx_handle x3 = ctx_handle x2" by auto
  have "dispatch_loop sv clock weight h c q 1 ?n sm2 st2 = dispatch_loop sv clock weight h c q 1 (1 + j) sm2 st2"
  proof (cases "?n = 1 + j")
    case False
    then have "j = 0" "?n = 0" using share by auto
    then show ?thesis by (subst (1 2) dispatch_loop.simps) simp
  qed simp
  then have "dispatch_loop sv clock weight h c q 0 1 sm st = Some (False, sm3, st3)"
    using st3(1) by (subst dispatch_loop.simps) (simp add: st1(1) mq st2(1) Let_def split: if_splits)
  moreover have "drop j (ms @ new1) @ new2 = drop k (m # ms) @ (new1 @ new2)" using \<open>j \<le> length ms\<close> by (simp add: k)
  moreover have "ctx_message_count x3 = (int32_inc ^^ k) (ctx_message_count x)"
    by (simp add: st3(4) st2(6) k(1) funpow_swap1)
  moreover have "ctx_handle x3 = ctx_handle x" by (simp add: st3(5) st2(7))
  ultimately show thesis using st3(2,3) that by metis
qed


lemma serving_grab:
  assumes inv: "sv_inv st refs xs held" and st: "data_ok st" "room n st" "q \<in> held" "mq_view (sv_mq st) q = Some (h, False, ms)"
    and c: "slot_of (skynet_context_handle st) (sv_H st) h = Some c" and x: "sv_ctx st c = Some x" "ctx_queue x = q"
  obtains st' where "handle_grab h st = Some (Some c, st')" "sv_data st' = sv_data st"
    "serving n (refs(c := refs c + 1)) held c q st' (x\<lparr>ctx_ref := ctx_ref x + 1\<rparr>) ms"
proof -
  let ?st = "st\<lparr>sv_ctx := (sv_ctx st)(c \<mapsto> x\<lparr>ctx_ref := ctx_ref x + 1\<rparr>)\<rparr>"
  from handle_grab_ok [OF inv, of h] c x(1) have g: "handle_grab h st = Some (Some c, ?st)" and h: "ctx_handle x = h" by auto
  have "of_bool (sv_REMOTE st = Some c) < refs c + 1" using sv_invD(9) [OF inv, of c] by auto
  with sv_inv_grab [OF inv x(1)] st x h
  have "serving n (refs(c := refs c + 1)) held c q ?st (x\<lparr>ctx_ref := ctx_ref x + 1\<rparr>) ms"
    by (auto simp: serving_def data_ok_def room_def intro: sv_goodI)
  with g show thesis by (intro that [of ?st]) simp_all
qed

text \<open>The end of a turn: the queue goes back when another one waits; the reference is given up.\<close>

lemma serving_next:
  assumes s: "serving n refs held c q st x ms"
  obtains p nq st1 st2 where "queue_next st = Some (p, st1)"
    "(case p of None \<Rightarrow> Some (Some q, st1)
      | Some p \<Rightarrow> map_option (\<lambda>mq. (Some p, st1\<lparr>sv_mq := mq\<rparr>)) (skynet_globalmq_push q (sv_mq st1))) = Some (Some nq, st2)"
    "sv_good (st2, refs, insert nq (held - {q}))" "mq_view (sv_mq st2) = mq_view (sv_mq st)"
    "sv_ctx st2 = sv_ctx st" "sv_data st2 = sv_data st" "sv_REMOTE st2 = sv_REMOTE st"
proof -
  obtain xs where inv: "sv_inv st refs xs held" and q: "q \<in> held" using s by (rule servingD)
  note ok = sv_invD(1) [OF inv]
  have sub: "sv_inv (st\<lparr>sv_mq := mq\<rparr>) refs ys held'" if "mq_ok mq ys held'" "mq_view mq = mq_view (sv_mq st)" for mq ys held'
    by (rule sv_inv_mq [OF inv that(1)]) (use that(2) in \<open>auto\<close>)
  show thesis
  proof (cases xs)
    case Nil
    then have "skynet_globalmq_pop (sv_mq st) = Some (None, sv_mq st)" using ok globalmq_pop_empty by (auto simp: mq_ok_def)
    with q inv show ?thesis
      by (intro that [of None st q st]) (auto simp: queue_next_def insert_absorb intro: sv_goodI)
  next
    case (Cons p ys)
    from mq_ok_globalmq_pop [OF ok [unfolded Cons]] obtain mq1 where
      g: "skynet_globalmq_pop (sv_mq st) = Some (Some p, mq1)" "mq_ok mq1 ys (insert p held)" by blast
    have "p \<noteq> q" using ok Cons q by (auto simp: mq_ok_def)
    from mq_ok_globalmq_push [OF g(2), of q] q obtain mq2 where
      u: "skynet_globalmq_push q mq1 = Some mq2" "mq_ok mq2 (ys @ [q]) (insert p held - {q})" by auto
    have v: "mq_view mq2 = mq_view (sv_mq st)" using globalmq_push_view [OF u(1)] globalmq_pop_view [OF g(1)] by simp
    have "insert p held - {q} = insert p (held - {q})" using \<open>p \<noteq> q\<close> by auto
    with sub [OF u(2) v] g(1) u(1) v show ?thesis
      by (intro that [of "Some p" "st\<lparr>sv_mq := mq1\<rparr>" p "st\<lparr>sv_mq := mq2\<rparr>"]) (auto simp: queue_next_def intro: sv_goodI)
  qed
qed



text \<open>A service that ignores its messages keeps the contract.\<close>

definition demo_services :: services where
  "demo_services = \<lparr>md_query = \<lambda>_. None, md_create = \<lambda>_. None, md_init = \<lambda>_ _ _ _ st. Some (0, st),
     md_callback = \<lambda>_ _ _ _ _ _ _ st. Some (0, st), md_signal = \<lambda>_ _ _ st. Some st\<rparr>"

lemma demo_services_ok: "service_ok demo_services b"
proof -
  have "serving n refs held c q st x (ms @ [])" if "serving (n + b) refs held c q st x ms" for n refs held c q st x ms
    using serving_less [OF that, of n] by simp
  then show ?thesis unfolding service_ok_def demo_services_def
    by (fastforce intro: exI [of _ 0] exI [of _ "[]"])
qed

definition demo_message :: skynet_message where
  "demo_message = \<lparr>msg_source = 1, msg_session = 0, msg_data = 0, msg_sz = 0\<rparr>"

definition demo_refs :: "addr \<Rightarrow> nat" where
  "demo_refs = (\<lambda>_. 0)(1 := 1)"

lemma demo_mail:
  "\<exists>mq xs. sv_inv (demo_server\<lparr>sv_mq := mq\<rparr>) demo_refs xs {2} \<and> mq_view mq = [2 \<mapsto> (0x1000001, False, replicate k demo_message)]"
  if "k < 10"
  using that
proof (induction k)
  case 0
  from svi.inv_reaches [OF demo_reaches [folded demo_refs_def]] obtain xs where "sv_inv demo_server demo_refs xs {2}"
    unfolding sv_good_def prod.case by blast
  moreover have "demo_server\<lparr>sv_mq := sv_mq demo_server\<rparr> = demo_server" by simp
  ultimately show ?case
    using demo_view by (intro exI [of _ "sv_mq demo_server"] exI [of _ xs]) (simp only: replicate.simps simp_thms)
next
  case (Suc k)
  then obtain mq xs where inv: "sv_inv (demo_server\<lparr>sv_mq := mq\<rparr>) demo_refs xs {2}"
    and v: "mq_view mq = [2 \<mapsto> (0x1000001, False, replicate k demo_message)]" by (metis Suc_lessD)
  have s: "slot_of (skynet_context_handle (demo_server\<lparr>sv_mq := mq\<rparr>)) (sv_H (demo_server\<lparr>sv_mq := mq\<rparr>)) 0x1000001 = Some 1"
  proof -
    have "skynet_context_handle (demo_server\<lparr>sv_mq := mq\<rparr>) = skynet_context_handle demo_server"
      by (simp add: skynet_context_handle_def fun_eq_iff)
    with demo_slot show ?thesis by simp
  qed
  have r: "length ms + 1 < 2 ^ 30" if "mq_view (sv_mq (demo_server\<lparr>sv_mq := mq\<rparr>)) p = Some (h, False, ms)" for p h ms
    using that v Suc.prems by (auto split: if_splits)
  have "case slot_of (skynet_context_handle (demo_server\<lparr>sv_mq := mq\<rparr>)) (sv_H (demo_server\<lparr>sv_mq := mq\<rparr>)) 0x1000001 of
      None \<Rightarrow> skynet_context_push 0x1000001 demo_message (demo_server\<lparr>sv_mq := mq\<rparr>) = Some (- 1, demo_server\<lparr>sv_mq := mq\<rparr>)
    | Some c \<Rightarrow> \<exists>x mq' xs' ms. sv_ctx (demo_server\<lparr>sv_mq := mq\<rparr>) c = Some x
        \<and> mq_view (sv_mq (demo_server\<lparr>sv_mq := mq\<rparr>)) (ctx_queue x) = Some (0x1000001, False, ms)
        \<and> skynet_context_push 0x1000001 demo_message (demo_server\<lparr>sv_mq := mq\<rparr>) = Some (0, demo_server\<lparr>sv_mq := mq, sv_mq := mq'\<rparr>)
        \<and> sv_inv (demo_server\<lparr>sv_mq := mq, sv_mq := mq'\<rparr>) demo_refs xs' {2}
        \<and> mq_view mq' = (mq_view (sv_mq (demo_server\<lparr>sv_mq := mq\<rparr>)))(ctx_queue x \<mapsto> (0x1000001, False, ms @ [demo_message]))"
    by (rule context_push_ok [OF inv]) (rule r)
  then obtain x :: skynet_context and mq' xs' ms where n: "mq_view mq (ctx_queue x) = Some (0x1000001, False, ms)"
      "sv_inv (demo_server\<lparr>sv_mq := mq'\<rparr>) demo_refs xs' {2}"
      "mq_view mq' = (mq_view mq)(ctx_queue x \<mapsto> (0x1000001, False, ms @ [demo_message]))"
    unfolding s option.case by auto
  from n(1) v have "ctx_queue x = 2" "ms = replicate k demo_message" by (auto split: if_splits)
  then have "mq_view mq' = [2 \<mapsto> (0x1000001, False, replicate (Suc k) demo_message)]"
    unfolding n(3) v by (simp add: replicate_append_same fun_eq_iff)
  with n(2) show ?case by blast
qed


end
