(* ===== verification/Server_Command.thy ===== *)
theory Server_Command
  imports Server_Worker
begin

text \<open>
  The text commands of \<^verbatim>\<open>skynet-src/skynet_server.c\<close>: \<^verbatim>\<open>skynet_command\<close> with its table and every handler,
  \<^verbatim>\<open>skynet_queryname\<close>, the environment of \<^verbatim>\<open>skynet_env.c\<close>, and the opening and closing of the log file of a
  service in \<^verbatim>\<open>skynet_log.c\<close>. A parameter or an answer that may be a null pointer is an option; the
  answer in \<^verbatim>\<open>context->result\<close> is also stored there. What is written to the log files is not modelled.
\<close>

section \<open>Numbers as text\<close>

text \<open>\<^verbatim>\<open>strtol\<close> with base 0, which takes the base from the prefix.\<close>

definition strtol_any :: "string \<Rightarrow> int" where
  "strtol_any s =
     (let digits = snd (read_sign (dropWhile c_isspace s)) in
      if skip_0x digits \<noteq> digits then strtol 16 s
      else if take 1 digits = ''0'' then strtol 8 s
      else strtol 10 s)"

text \<open>
  \<^verbatim>\<open>(double)t / 1000000.0\<close> printed by \<^verbatim>\<open>%lf\<close>: the conversion, the division and the printing round to the
  nearest, ties to even. The quotient is \<open>m / 2 ^ k\<close> with 53 bits in \<open>m\<close>; below \<open>2 ^ 64\<close> the exponent is never
  positive.
\<close>

definition round_div :: "nat \<Rightarrow> nat \<Rightarrow> nat" where
  "round_div a b =
     (let q = a div b; r = a mod b in if 2 * r < b \<or> 2 * r = b \<and> even q then q else q + 1)"

fun bit_count :: "nat \<Rightarrow> nat" where
  "bit_count n = (if n = 0 then 0 else bit_count (n div 2) + 1)"

declare bit_count.simps [simp del]

definition nat_to_double :: "nat \<Rightarrow> nat" where
  "nat_to_double n = (let e = bit_count n - 53 in round_div n (2 ^ e) * 2 ^ e)"

definition micro_exponent :: "nat \<Rightarrow> nat" where
  "micro_exponent n = (let k = 72 - bit_count n in if 2 ^ 52 * 10 ^ 6 \<le> n * 2 ^ k then k else k + 1)"

definition print_micro :: "u64 \<Rightarrow> string" where
  "print_micro t =
     (let n = nat_to_double (unat t);
          k = micro_exponent n;
          m = round_div (n * 2 ^ k) (10 ^ 6);
          v = round_div (m * 10 ^ 6) (2 ^ k);
          frac = print_base 10 (v mod 10 ^ 6)
      in print_base 10 (v div 10 ^ 6) @ CHR ''.'' # replicate (6 - length frac) (CHR ''0'') @ frac)"

text \<open>\<^verbatim>\<open>id_to_hex\<close>: a colon and eight upper case digits.\<close>

definition hex_digit :: "u32 \<Rightarrow> char" where
  "hex_digit d = ''0123456789ABCDEF'' ! unat d"

definition id_to_hex :: "u32 \<Rightarrow> string" where
  "id_to_hex n = CHR '':'' # map (\<lambda>i. hex_digit (drop_bit ((7 - i) * 4) n AND 0xf)) [0..<8]"


section \<open>State\<close>

text \<open>
  The node with its timers and the environment, the globals of the Lua state \<^verbatim>\<open>E->L\<close>. Of the host: the
  modules, which files can be opened, and the clock of the thread.
\<close>

record node =
  nd_sv :: server
  nd_timer :: timer
  nd_env :: "string \<rightharpoonup> string"

record host =
  ho_services :: services
  ho_fopen :: "string \<Rightarrow> nat option"
  ho_thread_time :: u64

definition on_server :: "(server \<Rightarrow> server option) \<Rightarrow> node \<Rightarrow> node option" where
  "on_server f nd = map_option (\<lambda>st. nd\<lparr>nd_sv := st\<rparr>) (f (nd_sv nd))"

definition from_server :: "(server \<Rightarrow> ('a \<times> server) option) \<Rightarrow> node \<Rightarrow> ('a \<times> node) option" where
  "from_server f nd = map_option (\<lambda>(r, st). (r, nd\<lparr>nd_sv := st\<rparr>)) (f (nd_sv nd))"

definition context_of :: "addr \<Rightarrow> node \<Rightarrow> skynet_context option" where
  "context_of c nd = sv_ctx (nd_sv nd) c"

text \<open>An answer that was printed into \<^verbatim>\<open>context->result\<close>.\<close>

definition answer :: "addr \<Rightarrow> string \<Rightarrow> node \<Rightarrow> (string option \<times> node) option" where
  "answer c s nd = map_option (Pair (Some s)) (on_server (ctx_update c (\<lambda>x. x\<lparr>ctx_result := s\<rparr>)) nd)"

section \<open>The environment\<close>

definition skynet_getenv :: "string \<Rightarrow> node \<Rightarrow> string option" where
  "skynet_getenv key nd = nd_env nd key"

definition skynet_setenv :: "string \<Rightarrow> string \<Rightarrow> node \<Rightarrow> node option" where
  "skynet_setenv key v nd =
     (if nd_env nd key = None then Some (nd\<lparr>nd_env := (nd_env nd)(key \<mapsto> v)\<rparr>) else None)"

section \<open>Names and handles\<close>

definition skynet_queryname :: "addr \<Rightarrow> string \<Rightarrow> server \<Rightarrow> (u32 \<times> server) option" where
  "skynet_queryname c name st =
     (if take 1 name = '':'' then Some (ucast (strtoul 16 (drop 1 name)), st)
      else if take 1 name = ''.'' then map_option (\<lambda>h. (h, st)) (skynet_handle_findname (sv_H st) (drop 1 name))
      else map_option (Pair 0) (skynet_error (Some c) (''Don't support query global name '' @ name) st))"

definition tohandle :: "addr \<Rightarrow> string \<Rightarrow> server \<Rightarrow> (u32 \<times> server) option" where
  "tohandle c param st =
     (if take 1 param = '':'' then Some (ucast (strtoul 16 (drop 1 param)), st)
      else if take 1 param = ''.'' then map_option (\<lambda>h. (h, st)) (skynet_handle_findname (sv_H st) (drop 1 param))
      else map_option (Pair 0) (skynet_error (Some c) (''Can't convert '' @ param @ '' to handle'') st))"

definition handle_exit :: "addr \<Rightarrow> u32 \<Rightarrow> server \<Rightarrow> server option" where
  "handle_exit c handle st = do {
     (handle, st) \<leftarrow> (if handle = 0
        then do { x \<leftarrow> sv_ctx st c; st \<leftarrow> skynet_error (Some c) ''KILL self'' st; Some (ctx_handle x, st) }
        else map_option (Pair handle) (skynet_error (Some c) (''KILL :'' @ print_hex (unat handle)) st));
     st \<leftarrow> (if node_monitor_exit (sv_node st) \<noteq> 0
        then map_option snd (skynet_send (Some c) handle (node_monitor_exit (sv_node st)) PTYPE_CLIENT 0 0 0 st)
        else Some st);
     map_option snd (handle_retire handle st)
   }"

section \<open>The log file of a service\<close>

definition skynet_log_open :: "host \<Rightarrow> addr \<Rightarrow> u32 \<Rightarrow> node \<Rightarrow> (nat option \<times> node) option" where
  "skynet_log_open ho c handle nd =
     (case skynet_getenv ''logpath'' nd of
        None \<Rightarrow> Some (None, nd)
      | Some logpath \<Rightarrow> do {
          let tmp = logpath @ ''/'' @ print_hex8 handle @ ''.log'';
          let f = ho_fopen ho tmp;
          nd \<leftarrow> on_server (skynet_error (Some c) (''Open log file '' @ tmp @ (if f = None then '' fail'' else []))) nd;
          Some (f, nd)
        })"

definition skynet_log_close :: "addr \<Rightarrow> u32 \<Rightarrow> server \<Rightarrow> server option" where
  "skynet_log_close c handle st = skynet_error (Some c) (''Close log file :'' @ print_hex8 handle) st"

section \<open>The handlers\<close>

definition timeout_push :: "u32 \<Rightarrow> skynet_message \<Rightarrow> server \<Rightarrow> (bool \<times> server) option" where
  "timeout_push handle m st = map_option (\<lambda>(r, st). (r \<noteq> 0, st)) (skynet_context_push handle m st)"

definition cmd_timeout :: "host \<Rightarrow> addr \<Rightarrow> string option \<Rightarrow> node \<Rightarrow> (string option \<times> node) option" where
  "cmd_timeout ho c param nd = do {
     param \<leftarrow> param;
     let ti = to_int32 (strtol 10 param);
     (session, nd) \<leftarrow> from_server (skynet_context_newsession c) nd;
     x \<leftarrow> context_of c nd;
     (_, st, T) \<leftarrow> skynet_timeout timeout_push (ctx_handle x) ti session (nd_sv nd, nd_timer nd);
     answer c (print_int session) (nd\<lparr>nd_sv := st, nd_timer := T\<rparr>)
   }"

definition namehandle :: "u32 \<Rightarrow> string \<Rightarrow> node \<Rightarrow> (string option \<times> node) option" where
  "namehandle handle name nd =
     from_server (\<lambda>st. map_option (\<lambda>(r, H). (r, st\<lparr>sv_H := H\<rparr>)) (skynet_handle_namehandle handle name (sv_H st))) nd"

definition cmd_reg :: "host \<Rightarrow> addr \<Rightarrow> string option \<Rightarrow> node \<Rightarrow> (string option \<times> node) option" where
  "cmd_reg ho c param nd = do {
     x \<leftarrow> context_of c nd;
     case param of
       None \<Rightarrow> answer c (CHR '':'' # print_hex (unat (ctx_handle x))) nd
     | Some [] \<Rightarrow> answer c (CHR '':'' # print_hex (unat (ctx_handle x))) nd
     | Some (p # name) \<Rightarrow>
         if p = CHR ''.'' then namehandle (ctx_handle x) name nd
         else map_option (Pair None)
           (on_server (skynet_error (Some c) (''Can't register global name '' @ p # name @ '' in C'')) nd)
   }"

definition cmd_query :: "host \<Rightarrow> addr \<Rightarrow> string option \<Rightarrow> node \<Rightarrow> (string option \<times> node) option" where
  "cmd_query ho c param nd = do {
     param \<leftarrow> param;
     if take 1 param = ''.'' then do {
       handle \<leftarrow> skynet_handle_findname (sv_H (nd_sv nd)) (drop 1 param);
       if handle \<noteq> 0 then answer c (CHR '':'' # print_hex (unat handle)) nd else Some (None, nd)
     } else Some (None, nd)
   }"

text \<open>One \<^verbatim>\<open>%s\<close> of \<^verbatim>\<open>sscanf\<close>: the next word, and what is left; none at the end of the text.\<close>

definition scan_word :: "string \<Rightarrow> (string \<times> string) option" where
  "scan_word s =
     (let s = dropWhile c_isspace s in
      if s = [] then None else Some (takeWhile (\<lambda>a. \<not> c_isspace a) s, dropWhile (\<lambda>a. \<not> c_isspace a) s))"

text \<open>
  With fewer than two words \<^verbatim>\<open>sscanf\<close> leaves \<^verbatim>\<open>handle\<close> as it was, and the handler reads an array that was
  never written.
\<close>

definition cmd_name :: "host \<Rightarrow> addr \<Rightarrow> string option \<Rightarrow> node \<Rightarrow> (string option \<times> node) option" where
  "cmd_name ho c param nd = do {
     param \<leftarrow> param;
     (name, rest) \<leftarrow> scan_word param;
     (handle, _) \<leftarrow> scan_word rest;
     if take 1 handle \<noteq> '':'' then Some (None, nd)
     else do {
       let handle_id = (ucast (strtoul 16 (drop 1 handle)) :: u32);
       if handle_id = 0 then Some (None, nd)
       else if take 1 name = ''.'' then namehandle handle_id (drop 1 name) nd
       else map_option (Pair None)
         (on_server (skynet_error (Some c) (''Can't set global name '' @ name @ '' in C'')) nd)
     }
   }"

definition cmd_exit :: "host \<Rightarrow> addr \<Rightarrow> string option \<Rightarrow> node \<Rightarrow> (string option \<times> node) option" where
  "cmd_exit ho c param nd = map_option (Pair None) (on_server (handle_exit c 0) nd)"

definition cmd_kill :: "host \<Rightarrow> addr \<Rightarrow> string option \<Rightarrow> node \<Rightarrow> (string option \<times> node) option" where
  "cmd_kill ho c param nd = do {
     param \<leftarrow> param;
     (handle, nd) \<leftarrow> from_server (tohandle c param) nd;
     if handle \<noteq> 0 then map_option (Pair None) (on_server (handle_exit c handle) nd) else Some (None, nd)
   }"

text \<open>\<^verbatim>\<open>strsep\<close>: the text before the first of some characters, and what follows it.\<close>

definition strsep :: "string \<Rightarrow> string \<Rightarrow> string \<times> string option" where
  "strsep delim s =
     (takeWhile (\<lambda>a. a \<notin> set delim) s,
      case dropWhile (\<lambda>a. a \<notin> set delim) s of [] \<Rightarrow> None | a # rest \<Rightarrow> Some rest)"

definition cmd_launch :: "host \<Rightarrow> addr \<Rightarrow> string option \<Rightarrow> node \<Rightarrow> (string option \<times> node) option" where
  "cmd_launch ho c param nd = do {
     param \<leftarrow> param;
     let (md, args) = strsep [CHR '' '', CHR 0x09, CHR 0x0d, CHR 0x0a] param;
     let args = map_option (\<lambda>s. fst (strsep [CHR 0x0d, CHR 0x0a] s)) args;
     (inst, nd) \<leftarrow> from_server (skynet_context_new (ho_services ho) md args) nd;
     case inst of
       None \<Rightarrow> Some (None, nd)
     | Some i \<Rightarrow> do { x \<leftarrow> context_of i nd; answer c (id_to_hex (ctx_handle x)) nd }
   }"

definition cmd_getenv :: "host \<Rightarrow> addr \<Rightarrow> string option \<Rightarrow> node \<Rightarrow> (string option \<times> node) option" where
  "cmd_getenv ho c param nd = do { param \<leftarrow> param; Some (skynet_getenv param nd, nd) }"

definition cmd_setenv :: "host \<Rightarrow> addr \<Rightarrow> string option \<Rightarrow> node \<Rightarrow> (string option \<times> node) option" where
  "cmd_setenv ho c param nd = do {
     param \<leftarrow> param;
     let key = takeWhile (\<lambda>a. a \<noteq> CHR '' '') param;
     case dropWhile (\<lambda>a. a \<noteq> CHR '' '') param of
       [] \<Rightarrow> Some (None, nd)
     | a # param \<Rightarrow> map_option (Pair None) (skynet_setenv key param nd)
   }"

definition cmd_starttime :: "host \<Rightarrow> addr \<Rightarrow> string option \<Rightarrow> node \<Rightarrow> (string option \<times> node) option" where
  "cmd_starttime ho c param nd = answer c (print_base 10 (unat (skynet_starttime (nd_timer nd)))) nd"

definition cmd_abort :: "host \<Rightarrow> addr \<Rightarrow> string option \<Rightarrow> node \<Rightarrow> (string option \<times> node) option" where
  "cmd_abort ho c param nd = map_option (Pair None) (on_server skynet_handle_retireall nd)"

definition cmd_monitor :: "host \<Rightarrow> addr \<Rightarrow> string option \<Rightarrow> node \<Rightarrow> (string option \<times> node) option" where
  "cmd_monitor ho c param nd =
     (if param = None \<or> param = Some []
      then (let m = node_monitor_exit (sv_node (nd_sv nd)) in
            if m \<noteq> 0 then answer c (CHR '':'' # print_hex (unat m)) nd else Some (None, nd))
      else do {
        param \<leftarrow> param;
        (handle, nd) \<leftarrow> from_server (tohandle c param) nd;
        nd \<leftarrow> on_server (\<lambda>st. Some (st\<lparr>sv_node := (sv_node st)\<lparr>node_monitor_exit := handle\<rparr>\<rparr>)) nd;
        Some (None, nd)
      })"

definition cmd_stat :: "host \<Rightarrow> addr \<Rightarrow> string option \<Rightarrow> node \<Rightarrow> (string option \<times> node) option" where
  "cmd_stat ho c param nd = do {
     param \<leftarrow> param;
     x \<leftarrow> context_of c nd;
     if param = ''mqlen'' then do {
       q \<leftarrow> mq_heap (sv_mq (nd_sv nd)) (ctx_queue x);
       answer c (print_int (skynet_mq_length q)) nd
     }
     else if param = ''endless'' then
       (if ctx_endless x then do {
          nd \<leftarrow> on_server (ctx_update c (\<lambda>x. x\<lparr>ctx_endless := False\<rparr>)) nd;
          answer c ''1'' nd
        } else answer c ''0'' nd)
     else if param = ''cpu'' then answer c (print_micro (ctx_cpu_cost x)) nd
     else if param = ''time'' then
       (if ctx_profile x then answer c (print_micro (ho_thread_time ho - ctx_cpu_start x)) nd else answer c ''0'' nd)
     else if param = ''message'' then answer c (print_int (ctx_message_count x)) nd
     else answer c [] nd
   }"

text \<open>\<^verbatim>\<open>skynet_handle_grab\<close>, a use of the context, and its release.\<close>

definition with_context :: "u32 \<Rightarrow> (addr \<Rightarrow> skynet_context \<Rightarrow> node \<Rightarrow> node option) \<Rightarrow> node \<Rightarrow> (string option \<times> node) option" where
  "with_context handle f nd =
     (if handle = 0 then Some (None, nd)
      else do {
        (ctx, nd) \<leftarrow> from_server (handle_grab handle) nd;
        case ctx of
          None \<Rightarrow> Some (None, nd)
        | Some d \<Rightarrow> do {
            x \<leftarrow> context_of d nd;
            nd \<leftarrow> f d x nd;
            nd \<leftarrow> on_server (\<lambda>st. map_option snd (skynet_context_release d st)) nd;
            Some (None, nd)
          }
      })"

definition cmd_logon :: "host \<Rightarrow> addr \<Rightarrow> string option \<Rightarrow> node \<Rightarrow> (string option \<times> node) option" where
  "cmd_logon ho c param nd = do {
     param \<leftarrow> param;
     (handle, nd) \<leftarrow> from_server (tohandle c param) nd;
     with_context handle (\<lambda>d x nd.
       if ctx_logfile x = None then do {
         (f, nd) \<leftarrow> skynet_log_open ho c handle nd;
         if f = None then Some nd else on_server (ctx_update d (\<lambda>x. if ctx_logfile x = None then x\<lparr>ctx_logfile := f\<rparr> else x)) nd
       } else Some nd) nd
   }"

definition cmd_logoff :: "host \<Rightarrow> addr \<Rightarrow> string option \<Rightarrow> node \<Rightarrow> (string option \<times> node) option" where
  "cmd_logoff ho c param nd = do {
     param \<leftarrow> param;
     (handle, nd) \<leftarrow> from_server (tohandle c param) nd;
     with_context handle (\<lambda>d x nd.
       if ctx_logfile x = None then Some nd
       else do {
         nd \<leftarrow> on_server (ctx_update d (\<lambda>x. x\<lparr>ctx_logfile := None\<rparr>)) nd;
         on_server (skynet_log_close c handle) nd
       }) nd
   }"

definition cmd_signal :: "host \<Rightarrow> addr \<Rightarrow> string option \<Rightarrow> node \<Rightarrow> (string option \<times> node) option" where
  "cmd_signal ho c param nd = do {
     param \<leftarrow> param;
     (handle, nd) \<leftarrow> from_server (tohandle c param) nd;
     with_context handle (\<lambda>d x nd.
       let rest = dropWhile (\<lambda>a. a \<noteq> CHR '' '') param; sig = (if rest = [] then 0 else to_int32 (strtol_any rest)) in
       on_server (md_signal (ho_services ho) (ctx_mod x) (ctx_instance x) sig) nd) nd
   }"

definition cmd_funcs :: "(string \<times> (host \<Rightarrow> addr \<Rightarrow> string option \<Rightarrow> node \<Rightarrow> (string option \<times> node) option)) list" where
  "cmd_funcs =
    [(''TIMEOUT'', cmd_timeout), (''REG'', cmd_reg), (''QUERY'', cmd_query), (''NAME'', cmd_name), (''EXIT'', cmd_exit),
     (''KILL'', cmd_kill), (''LAUNCH'', cmd_launch), (''GETENV'', cmd_getenv), (''SETENV'', cmd_setenv),
     (''STARTTIME'', cmd_starttime), (''ABORT'', cmd_abort), (''MONITOR'', cmd_monitor), (''STAT'', cmd_stat),
     (''LOGON'', cmd_logon), (''LOGOFF'', cmd_logoff), (''SIGNAL'', cmd_signal)]"

definition skynet_command :: "host \<Rightarrow> addr \<Rightarrow> string \<Rightarrow> string option \<Rightarrow> node \<Rightarrow> (string option \<times> node) option" where
  "skynet_command ho c cmd param nd =
     (case map_of cmd_funcs cmd of None \<Rightarrow> Some (None, nd) | Some func \<Rightarrow> func ho c param nd)"


section \<open>The text of a handle\<close>

lemma ucast_twice: "ucast (ucast (h :: u32) :: u64) = h"
  by (rule bit_eqI) (auto simp: bit_simps)

lemma tohandle_print: "tohandle c (CHR '':'' # print_hex (unat h)) st = Some (h, st)"
proof -
  have "unat h < 2 ^ LENGTH(32)" by (rule unsigned_less)
  then have "unat h < 2 ^ 64" by simp
  then show ?thesis by (simp add: tohandle_def strtoul_hex ucast_twice)
qed

lemma hex_digit_val:
  assumes "d < 16"
  defines "a \<equiv> ''0123456789ABCDEF'' ! d"
  shows "digit_val 16 a = Some d" "\<not> c_isspace a" "a \<noteq> CHR ''x''" "a \<noteq> CHR ''X''" "a \<noteq> CHR ''-''" "a \<noteq> CHR ''+''"
proof -
  have "d \<in> set [0..<16]" using assms(1) by simp
  moreover have "\<forall>d \<in> set [0..<16]. digit_val 16 (''0123456789ABCDEF'' ! d) = Some d \<and> \<not> c_isspace (''0123456789ABCDEF'' ! d) \<and>
      ''0123456789ABCDEF'' ! d \<notin> set ''xX-+''" by code_simp
  ultimately show "digit_val 16 a = Some d" "\<not> c_isspace a" "a \<noteq> CHR ''x''" "a \<noteq> CHR ''X''" "a \<noteq> CHR ''-''" "a \<noteq> CHR ''+''"
    unfolding a_def by auto
qed

lemma nibble: "unat (drop_bit (k * 4) (n :: u32) AND 0xf) = unat n div 16 ^ k mod 16"
proof -
  have "unat (drop_bit (k * 4) n AND 0xf) = drop_bit (k * 4) (take_bit 32 (unat n)) AND mask 4"
    by (simp add: unsigned_and_eq unsigned_drop_bit_eq mask_eq_exp_minus_1)
  also have "take_bit 32 (unat n) = unat n"
  proof -
    have "unat n < 2 ^ LENGTH(32)" by (rule unsigned_less)
    then show ?thesis by (simp add: take_bit_eq_mod)
  qed
  also have "drop_bit (k * 4) (unat n) AND mask 4 = unat n div 16 ^ k mod 16"
    by (simp add: take_bit_eq_mask [symmetric] take_bit_eq_mod drop_bit_eq_div power_mult mult.commute [of k 4])
  finally show ?thesis .
qed

lemma read_nibbles:
  "read_digits 16 acc (map (\<lambda>i. ''0123456789ABCDEF'' ! (m div 16 ^ i mod 16)) (rev [0..<k])) = acc * 16 ^ k + m mod 16 ^ k"
proof (induction k arbitrary: acc)
  case (Suc k)
  have "m mod (16 ^ k * 16) = 16 ^ k * (m div 16 ^ k mod 16) + m mod 16 ^ k" by (rule mod_mult2_eq)
  then have "m mod 16 ^ Suc k = 16 ^ k * (m div 16 ^ k mod 16) + m mod 16 ^ k" by (simp only: power_Suc2)
  then show ?case by (simp add: Suc hex_digit_val(1) algebra_simps del: power_Suc) simp
qed simp

lemma id_to_hex_nibbles: "id_to_hex n = CHR '':'' # map (\<lambda>i. ''0123456789ABCDEF'' ! (unat n div 16 ^ i mod 16)) (rev [0..<8])"
proof -
  have "map (\<lambda>i. f (7 - i)) [0..<8] = map f (rev [0..<8])" for f :: "nat \<Rightarrow> char" by (simp add: upt_rec eval_nat_numeral)
  then show ?thesis by (simp add: id_to_hex_def hex_digit_def nibble)
qed

lemma tohandle_id_to_hex: "tohandle c (id_to_hex h) st = Some (h, st)"
proof -
  define d where "d i = ''0123456789ABCDEF'' ! (unat h div 16 ^ i mod 16)" for i
  let ?s = "map d (rev [0..<8])"
  have d: "\<not> c_isspace (d i)" "d i \<noteq> CHR ''x''" "d i \<noteq> CHR ''X''" "d i \<noteq> CHR ''-''" "d i \<noteq> CHR ''+''" for i
    unfolding d_def by (rule hex_digit_val, simp)+
  have s: "?s = d 7 # d 6 # map d (rev [0..<6])" by (simp add: upt_rec eval_nat_numeral)
  have "skip_0x ?s = ?s" unfolding s using d(2,3) [of 6] by (auto simp: skip_0x_def split: list.splits)
  moreover have "dropWhile c_isspace ?s = ?s" "read_sign ?s = (False, ?s)" unfolding s using d [of 7] by (auto simp: read_sign_def)
  moreover have "unat h < 2 ^ LENGTH(32)" by (rule unsigned_less)
  ultimately have "strtoul 16 ?s = of_nat (unat h)"
    using read_nibbles [of 0 "unat h" 8] by (simp add: strtoul_def d_def [abs_def] del: rev_map)
  then show ?thesis by (simp add: id_to_hex_nibbles tohandle_def d_def [abs_def] ucast_twice del: rev_map)
qed


lemma print_hex_space: "a \<in> set (print_hex n) \<Longrightarrow> \<not> c_isspace a"
  using print_base_digits [of 16 a n] digit_char_plain(1) by (auto simp: print_hex_def)

lemma scan_word_first:
  assumes "w \<noteq> []" "\<And>a. a \<in> set w \<Longrightarrow> \<not> c_isspace a"
  shows "scan_word w = Some (w, [])" "scan_word (w @ CHR '' '' # rest) = Some (w, CHR '' '' # rest)"
proof -
  have "c_isspace (CHR '' '')" by code_simp
  with assms show "scan_word w = Some (w, [])" "scan_word (w @ CHR '' '' # rest) = Some (w, CHR '' '' # rest)"
    by (cases w; force simp: scan_word_def Let_def takeWhile_append dropWhile_append)+
qed

section \<open>Commands\<close>

text \<open>
  C19: The text of a handle is read back as that handle: the answers of \<^verbatim>\<open>REG\<close>, \<^verbatim>\<open>QUERY\<close> and
  \<^verbatim>\<open>MONITOR\<close>, printed by \<^verbatim>\<open>:%x\<close>, and that of \<^verbatim>\<open>LAUNCH\<close>, eight upper case digits, name the same handle in \<^verbatim>\<open>KILL\<close>, \<^verbatim>\<open>SIGNAL\<close> and
  the others that take a handle, for every 32-bit handle.
\<close>

theorem handle_text_read_back:
  "tohandle c (CHR '':'' # print_hex (unat h)) st = Some (h, st) \<and> tohandle c (id_to_hex h) st = Some (h, st) \<and>
   skynet_queryname c (CHR '':'' # print_hex (unat h)) st = Some (h, st) \<and> skynet_queryname c (id_to_hex h) st = Some (h, st)"
  using tohandle_print [of c h st] tohandle_id_to_hex [of c h st]
  by (simp add: tohandle_def skynet_queryname_def id_to_hex_def)

text \<open>
  C22: \<^verbatim>\<open>NAME\<close> and \<^verbatim>\<open>QUERY\<close>: the first \<^verbatim>\<open>NAME\<close> of a local name answers with the name, and from then on \<^verbatim>\<open>QUERY\<close>
  answers with the text of the handle; a \<^verbatim>\<open>NAME\<close> of a bound name answers with nothing, changes nothing, and
  \<^verbatim>\<open>QUERY\<close> still gives the first handle.
\<close>

theorem command_name_query:
  assumes "reaches sv_start sv_step (nd_sv nd, refs, held)" "0 < refs c"
    and name: "cstring name" "\<forall>a \<in> set name. \<not> c_isspace a" and cap: "hs_name_cap (sv_H (nd_sv nd)) \<le> 2 ^ 29" and h: "h \<noteq> 0"
  defines "k \<equiv> case name_map (sv_H (nd_sv nd)) name of None \<Rightarrow> h | Some k \<Rightarrow> k"
  shows "\<exists>r nd' nd''. skynet_command ho c ''NAME'' (Some (''.'' @ name @ '' :'' @ print_hex (unat h))) nd = Some (r, nd') \<and>
     (if name_map (sv_H (nd_sv nd)) name = None then r = Some name else r = None \<and> nd' = nd) \<and>
     skynet_command ho c ''QUERY'' (Some (''.'' @ name)) nd' =
       Some (if k = 0 then None else Some (CHR '':'' # print_hex (unat k)), nd'')"
proof -
  obtain xs where inv: "sv_inv (nd_sv nd) refs xs held" by (rule sv_reach_inv [OF assms(1)])
  note names = sv_invD(3) [OF inv]
  obtain x where x: "sv_ctx (nd_sv nd) c = Some x" using sv_invD(5) [OF inv assms(2)] by auto
  have w: "scan_word (''.'' @ name @ '' :'' @ print_hex (unat h)) = Some (''.'' @ name, CHR '' '' # CHR '':'' # print_hex (unat h))"
  proof -
    have "\<not> c_isspace (CHR ''.'')" by code_simp
    with name(2) scan_word_first(2) [of "''.'' @ name" "CHR '':'' # print_hex (unat h)"] show ?thesis by auto
  qed
  have w': "scan_word (CHR '' '' # CHR '':'' # print_hex (unat h)) = Some (CHR '':'' # print_hex (unat h), [])"
  proof -
    have sp: "c_isspace (CHR '' '')" "\<not> c_isspace (CHR '':'')" by code_simp+
    then have "scan_word (CHR '' '' # CHR '':'' # print_hex (unat h)) = scan_word (CHR '':'' # print_hex (unat h))"
      by (simp add: scan_word_def)
    with sp scan_word_first(1) [of "CHR '':'' # print_hex (unat h)"] print_hex_space show ?thesis by auto
  qed
  have u: "(ucast (strtoul 16 (print_hex (unat h))) :: u32) = h"
    using tohandle_print [of c h "nd_sv nd"] by (simp add: tohandle_def)
  from namehandle_ok [OF names name(1) cap, of h] obtain r H where
    H: "skynet_handle_namehandle h name (sv_H (nd_sv nd)) = Some (r, H)" "hs_names_inv H"
      "if name \<in> dom (name_map (sv_H (nd_sv nd))) then r = None \<and> H = sv_H (nd_sv nd)
       else r = Some name \<and> name_map H = (name_map (sv_H (nd_sv nd)))(name \<mapsto> h)" by blast
  define nd' where "nd' = nd\<lparr>nd_sv := (nd_sv nd)\<lparr>sv_H := H\<rparr>\<rparr>"
  have run: "skynet_command ho c ''NAME'' (Some (''.'' @ name @ '' :'' @ print_hex (unat h))) nd = Some (r, nd')"
    using w w' u h H(1)
    by (simp add: skynet_command_def cmd_funcs_def cmd_name_def namehandle_def from_server_def nd'_def)
  have "skynet_handle_findname H name = Some k"
    using findname_ok [OF H(2) name(1)] H(3) by (auto simp: k_def split: option.splits if_splits)
  then obtain nd'' where "skynet_command ho c ''QUERY'' (Some (''.'' @ name)) nd' =
      Some (if k = 0 then None else Some (CHR '':'' # print_hex (unat k)), nd'')"
    using x by (cases "k = 0") (auto simp: skynet_command_def cmd_funcs_def cmd_query_def nd'_def answer_def on_server_def ctx_update_def)
  with run H(3) show ?thesis by (auto simp: nd'_def domIff)
qed


text \<open>What \<^verbatim>\<open>handle_exit\<close> does: a line for the log, a message for the monitor, and the handle is retired.\<close>

definition exit_message :: "u32 \<Rightarrow> skynet_message" where
  "exit_message h = \<lparr>msg_source = h, msg_session = 0, msg_data = 0, msg_sz = with_type 0 PTYPE_CLIENT\<rparr>"

definition monitored :: "server \<Rightarrow> server \<Rightarrow> u32 \<Rightarrow> bool" where
  "monitored st st' h \<longleftrightarrow> (let m = node_monitor_exit (sv_node st) in
     \<forall>d. m \<noteq> 0 \<and> slot_of (skynet_context_handle st) (sv_H st) m = Some d \<longrightarrow>
       (\<exists>p b ms. map_option ctx_queue (sv_ctx st d) = Some p \<and> mq_view (sv_mq st') p = Some (m, b, ms @ [exit_message h])))"

lemma tell_monitor:
  assumes inv: "sv_inv st refs xs held" "data_ok st" "room (Suc n) st" and h: "h \<noteq> 0"
    and mon: "node_monitor_exit (sv_node st) = 0 \<or> skynet_harbor_message_isremote (node_monitor_exit (sv_node st)) st = Some False"
  obtains st' xs' where "(if node_monitor_exit (sv_node st) \<noteq> 0
      then map_option snd (skynet_send (Some c) h (node_monitor_exit (sv_node st)) PTYPE_CLIENT 0 0 0 st) else Some st) = Some st'"
    "sv_inv st' refs xs' held" "posted st st'" "monitored st st' h"
proof (cases "node_monitor_exit (sv_node st) = 0")
  case True
  with inv that [of st xs] show thesis by (auto simp: monitored_def intro: posted_same)
next
  case False
  with mon have local: "skynet_harbor_message_isremote (node_monitor_exit (sv_node st)) st = Some False" by simp
  have type: "PTYPE_CLIENT AND PTYPE_TAG_ALLOCSESSION = 0" by code_simp
  have byte: "PTYPE_CLIENT AND 0xff = PTYPE_CLIENT" by code_simp
  show thesis
  proof (rule send_null [OF inv(1,3) False local type h, of "Some c" 0], goal_cases)
    case 1
    with False inv that [of st xs] show ?case by (auto simp: monitored_def intro: posted_same)
  next
    case (2 d p ms mq xs')
    have "posted st (st\<lparr>sv_mq := mq\<rparr>)" by (rule posted_push [OF 2(5,6)]) simp_all
    moreover have "monitored st (st\<lparr>sv_mq := mq\<rparr>) h"
      using 2(1,2,6) by (auto simp: monitored_def exit_message_def byte Let_def)
    ultimately show ?case using 2(3,4) False by (intro that [of "st\<lparr>sv_mq := mq\<rparr>" xs']) auto
  qed
qed

lemma retire_slot_of:
  assumes inv: "sv_inv st refs xs held"
  obtains r st' xs' where "handle_retire h st = Some (r, st')" "sv_inv st' refs xs' held"
    "\<And>k d. slot_of (skynet_context_handle st') (sv_H st') k = Some d \<longleftrightarrow>
       k \<noteq> h \<and> slot_of (skynet_context_handle st) (sv_H st) k = Some d"
    "\<And>p k b ms. mq_view (sv_mq st) p = Some (k, b, ms) \<Longrightarrow> \<exists>b'. mq_view (sv_mq st') p = Some (k, b', ms)"
proof (cases "slot_of (skynet_context_handle st) (sv_H st) h")
  case None
  then have "slot_of (skynet_context_handle st) (sv_H st) k = Some d \<longleftrightarrow>
      k \<noteq> h \<and> slot_of (skynet_context_handle st) (sv_H st) k = Some d" for k d by auto
  with None handle_retire_ok_sv [OF inv, of h] inv that [of 0 st xs] show thesis by (simp only: option.case) blast
next
  case (Some c)
  with handle_retire_ok_sv [OF inv, of h] obtain st' xs' where
    st': "handle_retire h st = Some (1, st')" "sv_inv st' refs xs' held" "hs_ctxs (sv_H st') = hs_ctxs (sv_H st) - {c}"
      "\<forall>d. d \<noteq> c \<longrightarrow> sv_ctx st' d = sv_ctx st d"
      "\<forall>p k b ms. mq_view (sv_mq st) p = Some (k, b, ms) \<longrightarrow> (\<exists>b'. mq_view (sv_mq st') p = Some (k, b', ms))" by auto
  note iff = slot_of_iff [OF sv_invD(2) [OF inv]] and iff' = slot_of_iff [OF sv_invD(2) [OF st'(2)]]
  have "slot_of (skynet_context_handle st') (sv_H st') k = Some d \<longleftrightarrow>
      k \<noteq> h \<and> slot_of (skynet_context_handle st) (sv_H st) k = Some d" for k d
  proof (cases "d = c")
    case True
    with Some st'(3) show ?thesis unfolding iff iff' by auto
  next
    case False
    with st'(4) have e: "skynet_context_handle st' d = skynet_context_handle st d" by (simp add: skynet_context_handle_def)
    have "\<not> (d \<in> hs_ctxs (sv_H st) \<and> skynet_context_handle st d = h)"
      using Some False iff by (metis option.inject)
    with False st'(3) e show ?thesis unfolding iff iff' by auto
  qed
  with st' that [of 1 st' xs'] show thesis by blast
qed

text \<open>
  C18: \<^verbatim>\<open>KILL\<close>: in every reachable state with room for two more messages the command returns; exactly the
  killed handle stops being found, every other one still finds its context, and the monitor of the node,
  when there is one, has as its last message that the service has ended.
\<close>

theorem command_kill:
  assumes "reaches sv_start sv_step (nd_sv nd, refs, held)" "0 < refs c" "data_ok (nd_sv nd)" "room 2 (nd_sv nd)" "h \<noteq> 0"
    and mon: "node_monitor_exit (sv_node (nd_sv nd)) = 0 \<or>
      skynet_harbor_message_isremote (node_monitor_exit (sv_node (nd_sv nd))) (nd_sv nd) = Some False"
  shows "\<exists>st'. skynet_command ho c ''KILL'' (Some (CHR '':'' # print_hex (unat h))) nd = Some (None, nd\<lparr>nd_sv := st'\<rparr>) \<and>
     sv_good (st', refs, held) \<and>
     (\<forall>k d. slot_of (skynet_context_handle st') (sv_H st') k = Some d \<longleftrightarrow>
        k \<noteq> h \<and> slot_of (skynet_context_handle (nd_sv nd)) (sv_H (nd_sv nd)) k = Some d) \<and>
     monitored (nd_sv nd) st' h"
proof -
  let ?st = "nd_sv nd"
  obtain xs where inv: "sv_inv ?st refs xs held" by (rule sv_reach_inv [OF assms(1)])
  obtain x where x: "sv_ctx ?st c = Some x" using sv_invD(5) [OF inv assms(2)] by auto
  have two: "room (Suc 1) ?st" using assms(4) by (simp add: numeral_2_eq_2)
  have src: "error_source (Some c) ?st = Some (ctx_handle x)" by (simp add: error_source_def x)
  obtain st1 xs1 where st1: "skynet_error (Some c) (''KILL :'' @ print_hex (unat h)) ?st = Some st1" "sv_inv st1 refs xs1 held"
    "data_ok st1" "room 1 st1" "posted ?st st1"
    by (rule error_posts [OF inv assms(3) two src])
  have mon1: "node_monitor_exit (sv_node st1) = 0 \<or> skynet_harbor_message_isremote (node_monitor_exit (sv_node st1)) st1 = Some False"
    using mon st1(5) unfolding posted_def skynet_harbor_message_isremote_def by (elim conjE) (simp only:)
  have one: "room (Suc 0) st1" using st1(4) by simp
  obtain st2 xs2 where st2: "(if node_monitor_exit (sv_node st1) \<noteq> 0
      then map_option snd (skynet_send (Some c) h (node_monitor_exit (sv_node st1)) PTYPE_CLIENT 0 0 0 st1) else Some st1) = Some st2"
    "sv_inv st2 refs xs2 held" "posted st1 st2" "monitored st1 st2 h"
    by (rule tell_monitor [OF st1(2,3) one assms(5) mon1])
  obtain r st3 xs3 where st3: "handle_retire h st2 = Some (r, st3)" "sv_inv st3 refs xs3 held"
    "\<And>k d. slot_of (skynet_context_handle st3) (sv_H st3) k = Some d \<longleftrightarrow>
       k \<noteq> h \<and> slot_of (skynet_context_handle st2) (sv_H st2) k = Some d"
    "\<And>p k b ms. mq_view (sv_mq st2) p = Some (k, b, ms) \<Longrightarrow> \<exists>b'. mq_view (sv_mq st3) p = Some (k, b', ms)"
    by (rule retire_slot_of [OF st2(2), of h]) (rule that)
  have p: "posted ?st st2" by (rule posted_trans [OF st1(5) st2(3)])
  have "handle_exit c h ?st = Some st3"
    using assms(5) st1(1) st2(1) st3(1) by (simp add: handle_exit_def)
  then have "skynet_command ho c ''KILL'' (Some (CHR '':'' # print_hex (unat h))) nd = Some (None, nd\<lparr>nd_sv := st3\<rparr>)"
    using assms(5) by (simp add: skynet_command_def cmd_funcs_def cmd_kill_def from_server_def tohandle_print on_server_def)
  moreover have "monitored ?st st3 h"
    using st2(4) st3(4) st1(5) posted_handles [OF st1(5)] unfolding monitored_def Let_def posted_def by metis
  moreover have "slot_of (skynet_context_handle st2) (sv_H st2) = slot_of (skynet_context_handle ?st) (sv_H ?st)"
    using p posted_handles [OF p] by (simp add: posted_def)
  ultimately show ?thesis using st3(2,3) sv_goodI by metis
qed

section \<open>A concrete node\<close>

definition demo_node :: node where
  "demo_node = \<lparr>nd_sv = demo_server, nd_timer = timer_create_timer, nd_env = [''logpath'' \<mapsto> ''.'']\<rparr>"

definition demo_host :: host where
  "demo_host = \<lparr>ho_services = demo_services, ho_fopen = \<lambda>_. None, ho_thread_time = 0\<rparr>"

theorem command_name_query_witness:
  "\<exists>nd' nd''. skynet_command demo_host 1 ''NAME'' (Some (''.db :'' @ print_hex (unat (0x1000001 :: u32)))) demo_node =
       Some (Some ''db'', nd') \<and>
     skynet_command demo_host 1 ''QUERY'' (Some ''.db'') nd' = Some (Some (CHR '':'' # print_hex (unat (0x1000001 :: u32))), nd'')"
proof -
  have r: "reaches sv_start sv_step (nd_sv demo_node, demo_refs, {2})"
    using demo_reaches by (simp add: demo_node_def demo_refs_def)
  have n: "cstring ''db''" "\<forall>a \<in> set ''db''. \<not> c_isspace a" by code_simp+
  have e: "name_map (sv_H (nd_sv demo_node)) ''db'' = None" "hs_name_cap (sv_H (nd_sv demo_node)) \<le> 2 ^ 29"
    by (simp_all add: demo_node_def demo_server_def skynet_handle_init_def name_map_def hs_names_def)
  from command_name_query [OF r _ n e(2), of 1 "0x1000001" demo_host] show ?thesis
    by (simp add: e(1) demo_refs_def)
qed

theorem command_kill_witness:
  "\<exists>st'. skynet_command demo_host 1 ''KILL'' (Some (CHR '':'' # print_hex (unat (0x1000001 :: u32)))) demo_node =
       Some (None, demo_node\<lparr>nd_sv := st'\<rparr>) \<and>
     slot_of (skynet_context_handle demo_server) (sv_H demo_server) 0x1000001 = Some 1 \<and>
     slot_of (skynet_context_handle st') (sv_H st') 0x1000001 = None"
proof -
  have r: "reaches sv_start sv_step (nd_sv demo_node, demo_refs, {2})"
    using demo_reaches by (simp add: demo_node_def demo_refs_def)
  have d: "data_ok (nd_sv demo_node)" "room 2 (nd_sv demo_node)" "0 < demo_refs 1" "(0x1000001 :: u32) \<noteq> 0"
    using demo_view by (auto simp: data_ok_def demo_node_def demo_server_def room_def demo_refs_def split: if_splits)
  have m: "node_monitor_exit (sv_node (nd_sv demo_node)) = 0 \<or>
      skynet_harbor_message_isremote (node_monitor_exit (sv_node (nd_sv demo_node))) (nd_sv demo_node) = Some False"
    by (simp add: demo_node_def demo_server_def)
  from command_kill [OF r d(3,1,2,4) m, of demo_host] obtain st' where
    "skynet_command demo_host 1 ''KILL'' (Some (CHR '':'' # print_hex (unat (0x1000001 :: u32)))) demo_node =
       Some (None, demo_node\<lparr>nd_sv := st'\<rparr>)"
    "\<forall>k d. slot_of (skynet_context_handle st') (sv_H st') k = Some d \<longleftrightarrow>
        k \<noteq> 0x1000001 \<and> slot_of (skynet_context_handle (nd_sv demo_node)) (sv_H (nd_sv demo_node)) k = Some d" by blast
  moreover from this(2) have "slot_of (skynet_context_handle st') (sv_H st') 0x1000001 = None"
    by (cases "slot_of (skynet_context_handle st') (sv_H st') 0x1000001") blast+
  ultimately show ?thesis using demo_slot by blast
qed

end
