(* ===== verification/Socket_Server.thy ===== *)
theory Socket_Server
  imports Skynet_Prelude
begin

text \<open>
  The socket server of \<^verbatim>\<open>skynet-src/socket_server.c\<close>: the slots of the sockets, their identifiers, the two
  lists of buffers to be written to each, the commands that other threads send through a pipe, and the events of the poller.
  The operating system is a parameter, a record of the answers of the system calls by the time of the
  call; what the server asks of it is recorded in a trace. The pipe is the list of the requests in it. The
  section under the lock of a socket is one step, so a lock is never found taken.
\<close>

section \<open>Constants\<close>

definition MAX_SOCKET_P :: nat where "MAX_SOCKET_P = 16"
definition MAX_SOCKET :: nat where "MAX_SOCKET = 2 ^ MAX_SOCKET_P"
definition MIN_READ_BUFFER :: int where "MIN_READ_BUFFER = 64"
definition WARNING_SIZE :: int where "WARNING_SIZE = 1024 * 1024"
definition PROTOCOL_TCP :: u8 where "PROTOCOL_TCP = 0"
definition PROTOCOL_UDP :: u8 where "PROTOCOL_UDP = 1"
definition PROTOCOL_UDPv6 :: u8 where "PROTOCOL_UDPv6 = 2"
definition PROTOCOL_UNKNOWN :: u8 where "PROTOCOL_UNKNOWN = 255"

datatype socket_type =
    SOCKET_TYPE_INVALID | SOCKET_TYPE_RESERVE | SOCKET_TYPE_PLISTEN | SOCKET_TYPE_LISTEN | SOCKET_TYPE_CONNECTING
  | SOCKET_TYPE_CONNECTED | SOCKET_TYPE_HALFCLOSE | SOCKET_TYPE_PACCEPT | SOCKET_TYPE_BIND

datatype socket_code =
  SOCKET_DATA | SOCKET_CLOSE | SOCKET_OPEN | SOCKET_ACCEPT | SOCKET_ERR | SOCKET_EXIT | SOCKET_UDP | SOCKET_WARNING

definition HASH_ID :: "int \<Rightarrow> nat" where
  "HASH_ID i = nat (i mod 2 ^ 16)"

definition ID_TAG16 :: "int \<Rightarrow> u32" where
  "ID_TAG16 i = of_int (drop_bit 16 i AND 0xffff)"

section \<open>The operating system\<close>

datatype errno = EINTR | EAGAIN | EMFILE | EOTHER nat

datatype sockaddr = V4 "u8 list" "u8 list" | V6 "u8 list" "u8 list"

text \<open>
  One address of \<^verbatim>\<open>open_socket\<close>: there is no socket for it, the connection fails, is made (with the printed
  address), or is in progress.
\<close>

datatype attempt = NoSocket errno | Refused int errno | Ready int "string option" | Pending int

record event =
  ev_s :: "nat option"
  ev_read :: bool
  ev_write :: bool
  ev_error :: bool
  ev_eof :: bool

record os =
  os_write :: "nat \<Rightarrow> errno + nat"
  os_sendto :: "nat \<Rightarrow> errno + nat"
  os_read :: "nat \<Rightarrow> errno + u8 list"
  os_recvfrom :: "nat \<Rightarrow> errno + (u8 list \<times> sockaddr)"
  os_accept :: "nat \<Rightarrow> errno + (int \<times> string option)"
  os_add :: "nat \<Rightarrow> errno option"
  os_sockerr :: "nat \<Rightarrow> errno option"
  os_peername :: "nat \<Rightarrow> string option"
  os_resolve :: "string \<Rightarrow> int \<Rightarrow> nat \<Rightarrow> string + attempt list"
  os_errno :: "nat \<Rightarrow> errno"
  os_strerror :: "errno \<Rightarrow> string"
  os_wait :: "nat \<Rightarrow> event list"

datatype action =
    Write int "u8 list" | SendTo int "u8 list" sockaddr | Close int
  | PollAdd int | PollDel int | PollWrite int bool | SetOpt int int int

section \<open>State\<close>

text \<open>
  A buffer to be written: the pointer of its owner, and \<^verbatim>\<open>ptr\<close> as the start of the memory it points into
  and an offset; the bytes from there on, \<^verbatim>\<open>sz\<close> of them, are part of the record. The address field exists
  only in the buffers of size \<^verbatim>\<open>SIZEOF_UDPBUFFER\<close>.
\<close>

record write_buffer =
  wb_buffer :: addr
  wb_base :: addr
  wb_off :: nat
  wb_bytes :: "u8 list"
  wb_userobject :: bool
  wb_udp_address :: "u8 list option"

text \<open>
  \<^verbatim>\<open>struct socket\<close>. The fields \<^verbatim>\<open>size\<close> and \<^verbatim>\<open>udp_address\<close> share their storage in the source; a TCP socket uses only the first
  and a UDP socket only the second.
\<close>

record socket =
  sk_opaque :: u64
  sk_high :: "write_buffer list"
  sk_low :: "write_buffer list"
  sk_wb_size :: int
  sk_sending :: u32
  sk_fd :: int
  sk_id :: int
  sk_protocol :: u8
  sk_type :: socket_type
  sk_udpconnecting :: u16
  sk_warn_size :: int
  sk_size :: int
  sk_udp_address :: "u8 list"
  sk_dw_offset :: int
  sk_dw_buffer :: addr
  sk_dw_size :: u64

text \<open>The requests of the other threads, by the letter of their command.\<close>

datatype request =
    Req_S int u64
  | Req_B int int u64
  | Req_L int int u64
  | Req_K int bool u64
  | Req_O int int string u64
  | Req_X
  | Req_D int int addr
  | Req_P int int addr
  | Req_A int int addr "u8 list"
  | Req_C int "u8 list"
  | Req_T int int int
  | Req_U int int bool u64

text \<open>
  The memory holds what can be sent: plain blocks, and user objects, for which \<^verbatim>\<open>soi.buffer\<close> and \<^verbatim>\<open>soi.size\<close> give the
  address and the bytes.
\<close>

datatype memobj = Raw "u8 list" | Obj addr "u8 list"

record socket_server =
  ss_checkctrl :: bool
  ss_alloc_id :: int
  ss_ev :: "event list"
  ss_event_index :: nat
  ss_slot :: "nat \<Rightarrow> socket"
  ss_pipe :: "request list"
  ss_mem :: "addr \<rightharpoonup> memobj"
  ss_time :: nat
  ss_trace :: "action list"

datatype msgdata = NoData | Text string | Data "u8 list"

record socket_message =
  sm_id :: int
  sm_opaque :: u64
  sm_ud :: int
  sm_data :: msgdata

text \<open>The result -1 of the C functions, nothing to report, is \<^term>\<open>None\<close>.\<close>

type_synonym outcome = "(socket_code \<times> socket_message) option"

definition act :: "action \<Rightarrow> socket_server \<Rightarrow> socket_server" where
  "act a ss = ss\<lparr>ss_trace := ss_trace ss @ [a]\<rparr>"

definition tick :: "socket_server \<Rightarrow> socket_server" where
  "tick ss = ss\<lparr>ss_time := ss_time ss + 1\<rparr>"

definition put_socket :: "nat \<Rightarrow> socket \<Rightarrow> socket_server \<Rightarrow> socket_server" where
  "put_socket i s ss = ss\<lparr>ss_slot := (ss_slot ss)(i := s)\<rparr>"

text \<open>\<^verbatim>\<open>write\<close>: the system takes a prefix of the bytes, or there is an error.\<close>

definition sys_write :: "os \<Rightarrow> int \<Rightarrow> u8 list \<Rightarrow> socket_server \<Rightarrow> (errno + nat) \<times> socket_server" where
  "sys_write os fd bs ss =
     (case os_write os (ss_time ss) of
        Inl e \<Rightarrow> (Inl e, tick ss)
      | Inr n \<Rightarrow> (Inr (length (take n bs)), tick (act (Write fd (take n bs)) ss)))"

definition sys_sendto :: "os \<Rightarrow> int \<Rightarrow> u8 list \<Rightarrow> sockaddr \<Rightarrow> socket_server \<Rightarrow> (errno + nat) \<times> socket_server" where
  "sys_sendto os fd bs sa ss =
     (case os_sendto os (ss_time ss) of
        Inl e \<Rightarrow> (Inl e, tick ss)
      | Inr n \<Rightarrow> (Inr (length (take n bs)), tick (act (SendTo fd (take n bs) sa) ss)))"

section \<open>Objects to be sent\<close>

definition free_raw :: "addr \<Rightarrow> socket_server \<Rightarrow> socket_server option" where
  "free_raw a ss =
     (if a = 0 then Some ss
      else case ss_mem ss a of Some (Raw _) \<Rightarrow> Some (ss\<lparr>ss_mem := (ss_mem ss)(a := None)\<rparr>) | _ \<Rightarrow> None)"

definition soi_free :: "addr \<Rightarrow> socket_server \<Rightarrow> socket_server option" where
  "soi_free a ss =
     (case ss_mem ss a of Some (Obj _ _) \<Rightarrow> Some (ss\<lparr>ss_mem := (ss_mem ss)(a := None)\<rparr>) | _ \<Rightarrow> None)"

definition so_free :: "bool \<Rightarrow> addr \<Rightarrow> socket_server \<Rightarrow> socket_server option" where
  "so_free userobject a ss = (if userobject then soi_free a ss else free_raw a ss)"

text \<open>The result says whether it is a user object, where its bytes are, and which.\<close>

definition send_object_init :: "socket_server \<Rightarrow> addr \<Rightarrow> int \<Rightarrow> (bool \<times> addr \<times> u8 list) option" where
  "send_object_init ss object sz =
     (if sz < 0 then case ss_mem ss object of Some (Obj p bs) \<Rightarrow> Some (True, p, bs) | _ \<Rightarrow> None
      else if sz = 0 then Some (False, object, [])
      else case ss_mem ss object of
        Some (Raw bs) \<Rightarrow> if nat sz \<le> length bs then Some (False, object, take (nat sz) bs) else None
      | _ \<Rightarrow> None)"

definition write_buffer_free :: "write_buffer \<Rightarrow> socket_server \<Rightarrow> socket_server option" where
  "write_buffer_free wb ss = so_free (wb_userobject wb) (wb_buffer wb) ss"

definition free_buffer :: "addr \<Rightarrow> int \<Rightarrow> socket_server \<Rightarrow> socket_server option" where
  "free_buffer buffer sz ss = do { (user, _, _) \<leftarrow> send_object_init ss buffer sz; so_free user buffer ss }"

fun free_wb_list :: "write_buffer list \<Rightarrow> socket_server \<Rightarrow> socket_server option" where
  "free_wb_list [] ss = Some ss"
| "free_wb_list (wb # wbs) ss = do { ss \<leftarrow> write_buffer_free wb ss; free_wb_list wbs ss }"

section \<open>Identifiers\<close>

text \<open>
  \<^verbatim>\<open>reserve_id\<close> with \<open>n\<close> slots left to try. The increment of the counter wraps to the least
  integer, whose sign bit is then cleared.
\<close>

definition next_id :: "int \<Rightarrow> int" where
  "next_id i = (let i = i + 1 in if i > INT_MAX then 0 else i)"

definition reserved_socket :: "int \<Rightarrow> socket \<Rightarrow> socket" where
  "reserved_socket i s = s\<lparr>sk_type := SOCKET_TYPE_RESERVE, sk_id := i, sk_protocol := PROTOCOL_UNKNOWN,
     sk_udpconnecting := 0, sk_fd := - 1\<rparr>"

fun reserve_loop :: "nat \<Rightarrow> socket_server \<Rightarrow> int \<times> socket_server" where
  "reserve_loop 0 ss = (- 1, ss)"
| "reserve_loop (Suc n) ss =
     (let i = next_id (ss_alloc_id ss); ss = ss\<lparr>ss_alloc_id := i\<rparr>; s = ss_slot ss (HASH_ID i) in
      if sk_type s = SOCKET_TYPE_INVALID then (i, put_socket (HASH_ID i) (reserved_socket i s) ss)
      else reserve_loop n ss)"

definition reserve_id :: "socket_server \<Rightarrow> int \<times> socket_server" where
  "reserve_id ss = reserve_loop MAX_SOCKET ss"

text \<open>\<^verbatim>\<open>socket_server_create\<close>; what the fields of a slot hold that is never initialised is an argument.\<close>

definition socket_server_create :: "(nat \<Rightarrow> socket) \<Rightarrow> (addr \<rightharpoonup> memobj) \<Rightarrow> socket_server" where
  "socket_server_create junk mem =
     \<lparr>ss_checkctrl = True, ss_alloc_id = 0, ss_ev = [], ss_event_index = 0,
      ss_slot = (\<lambda>i. (junk i)\<lparr>sk_type := SOCKET_TYPE_INVALID, sk_high := [], sk_low := []\<rparr>),
      ss_pipe = [], ss_mem = mem, ss_time = 0, ss_trace = []\<rparr>"

section \<open>Closing\<close>

definition message :: "socket \<Rightarrow> int \<Rightarrow> msgdata \<Rightarrow> socket_message" where
  "message s ud d = \<lparr>sm_id = sk_id s, sm_opaque = sk_opaque s, sm_ud = ud, sm_data = d\<rparr>"

definition dw_size_int :: "socket \<Rightarrow> int" where
  "dw_size_int s = signed_take_bit 31 (uint (sk_dw_size s))"

definition force_close :: "nat \<Rightarrow> socket_server \<Rightarrow> (socket_message \<times> socket_server) option" where
  "force_close i ss =
     (let s = ss_slot ss i; result = message s 0 NoData in
      if sk_type s = SOCKET_TYPE_INVALID then Some (result, ss)
      else if sk_type s = SOCKET_TYPE_RESERVE then None
      else do {
        ss \<leftarrow> free_wb_list (sk_high s) ss;
        ss \<leftarrow> free_wb_list (sk_low s) ss;
        let ss = (if sk_type s \<noteq> SOCKET_TYPE_PACCEPT \<and> sk_type s \<noteq> SOCKET_TYPE_PLISTEN then act (PollDel (sk_fd s)) ss else ss);
        let ss = (if sk_type s \<noteq> SOCKET_TYPE_BIND then act (Close (sk_fd s)) ss else ss);
        let ss = put_socket i (s\<lparr>sk_high := [], sk_low := [], sk_type := SOCKET_TYPE_INVALID,
          sk_dw_buffer := 0\<rparr>) ss;
        ss \<leftarrow> (if sk_dw_buffer s \<noteq> 0 then free_buffer (sk_dw_buffer s) (dw_size_int s) ss else Some ss);
        Some (result, ss)
      })"

definition closed :: "socket_code \<Rightarrow> socket_message \<times> socket_server \<Rightarrow> outcome \<times> socket_server" where
  "closed e = (\<lambda>(m, ss). (Some (e, m), ss))"

section \<open>New sockets\<close>

definition new_fd :: "os \<Rightarrow> int \<Rightarrow> int \<Rightarrow> u8 \<Rightarrow> u64 \<Rightarrow> bool \<Rightarrow> socket_server \<Rightarrow> (nat option \<times> socket_server) option" where
  "new_fd os i fd protocol opaque add ss =
     (let k = HASH_ID i; s = ss_slot ss k in
      if sk_type s \<noteq> SOCKET_TYPE_RESERVE then None
      else if add \<and> os_add os (ss_time ss) \<noteq> None then
        Some (None, put_socket k (s\<lparr>sk_type := SOCKET_TYPE_INVALID\<rparr>) (tick ss))
      else let ss = (if add then tick (act (PollAdd fd) ss) else ss) in
        if sk_high s \<noteq> [] \<or> sk_low s \<noteq> [] then None
        else Some (Some k, put_socket k (s\<lparr>sk_id := i, sk_fd := fd, sk_sending := push_bit 16 (ID_TAG16 i),
          sk_protocol := protocol, sk_size := MIN_READ_BUFFER, sk_opaque := opaque, sk_wb_size := 0, sk_warn_size := 0,
          sk_dw_buffer := 0, sk_dw_size := 0\<rparr>) ss))"

definition set_type :: "nat \<Rightarrow> socket_type \<Rightarrow> socket_server \<Rightarrow> socket_server" where
  "set_type k t ss = put_socket k ((ss_slot ss k)\<lparr>sk_type := t\<rparr>) ss"


section \<open>Writing\<close>

datatype priority = High | Low

definition wb_list :: "priority \<Rightarrow> socket \<Rightarrow> write_buffer list" where
  "wb_list p s = (case p of High \<Rightarrow> sk_high s | Low \<Rightarrow> sk_low s)"

definition set_wb_list :: "priority \<Rightarrow> write_buffer list \<Rightarrow> socket \<Rightarrow> socket" where
  "set_wb_list p wbs s = (case p of High \<Rightarrow> s\<lparr>sk_high := wbs\<rparr> | Low \<Rightarrow> s\<lparr>sk_low := wbs\<rparr>)"

definition wb_sz :: "write_buffer \<Rightarrow> int" where
  "wb_sz wb = int (length (wb_bytes wb))"

text \<open>What \<open>n\<close> written bytes do to the first buffer.\<close>

definition wb_advance :: "nat \<Rightarrow> write_buffer \<Rightarrow> write_buffer" where
  "wb_advance n wb = wb\<lparr>wb_off := wb_off wb + n, wb_bytes := drop n (wb_bytes wb)\<rparr>"

partial_function (option) send_list_tcp :: "os \<Rightarrow> nat \<Rightarrow> priority \<Rightarrow> socket_server \<Rightarrow> (outcome \<times> socket_server) option" where
  "send_list_tcp os i p ss =
     (case wb_list p (ss_slot ss i) of
        [] \<Rightarrow> Some (None, ss)
      | tmp # rest \<Rightarrow>
          let (r, ss) = sys_write os (sk_fd (ss_slot ss i)) (wb_bytes tmp) ss; s = ss_slot ss i in
          (case r of
             Inl e \<Rightarrow>
               if e = EINTR then send_list_tcp os i p ss
               else if e = EAGAIN then Some (None, ss)
               else map_option (closed SOCKET_CLOSE) (force_close i ss)
           | Inr sz \<Rightarrow>
               let s = s\<lparr>sk_wb_size := sk_wb_size s - int sz\<rparr> in
               if int sz \<noteq> wb_sz tmp then Some (None, put_socket i (set_wb_list p (wb_advance sz tmp # rest) s) ss)
               else Option.bind (write_buffer_free tmp (put_socket i (set_wb_list p rest s) ss)) (send_list_tcp os i p)))"

definition udp_socket_address :: "socket \<Rightarrow> u8 list \<Rightarrow> sockaddr option" where
  "udp_socket_address s addr =
     (if hd addr \<noteq> sk_protocol s then None
      else if sk_protocol s = PROTOCOL_UDP then Some (V4 (take 2 (drop 1 addr)) (take 4 (drop 3 addr)))
      else if sk_protocol s = PROTOCOL_UDPv6 then Some (V6 (take 2 (drop 1 addr)) (take 16 (drop 3 addr)))
      else None)"

text \<open>The first buffer of a list is gone, sent or dropped.\<close>

definition drop_udp :: "nat \<Rightarrow> priority \<Rightarrow> write_buffer \<Rightarrow> write_buffer list \<Rightarrow> socket_server \<Rightarrow> socket_server option" where
  "drop_udp i p tmp rest ss =
     (let s = ss_slot ss i in
      write_buffer_free tmp (put_socket i (set_wb_list p rest (s\<lparr>sk_wb_size := sk_wb_size s - wb_sz tmp\<rparr>)) ss))"

text \<open>A buffer of size \<^verbatim>\<open>SIZEOF_TCPBUFFER\<close> ends before the address that is read here.\<close>

function send_list_udp :: "os \<Rightarrow> nat \<Rightarrow> priority \<Rightarrow> write_buffer list \<Rightarrow> socket_server \<Rightarrow> (outcome \<times> socket_server) option" where
  "send_list_udp os i p [] ss = Some (None, ss)"
| "send_list_udp os i p (tmp # rest) ss = do {
     addr \<leftarrow> wb_udp_address tmp;
     case udp_socket_address (ss_slot ss i) addr of
       None \<Rightarrow> map_option (Pair None) (drop_udp i p tmp rest ss)
     | Some sa \<Rightarrow>
         let (r, ss) = sys_sendto os (sk_fd (ss_slot ss i)) (wb_bytes tmp) sa ss in
         (case r of
            Inl e \<Rightarrow>
              if e = EINTR \<or> e = EAGAIN then Some (None, ss) else map_option (Pair None) (drop_udp i p tmp rest ss)
          | Inr n \<Rightarrow> do { ss \<leftarrow> drop_udp i p tmp rest ss; send_list_udp os i p rest ss })
   }"
  by pat_completeness auto

termination
  by (relation "measure (\<lambda>(os, i, p, wbs, ss). length wbs)") auto

definition send_list :: "os \<Rightarrow> nat \<Rightarrow> priority \<Rightarrow> socket_server \<Rightarrow> (outcome \<times> socket_server) option" where
  "send_list os i p ss =
     (if sk_protocol (ss_slot ss i) = PROTOCOL_TCP then send_list_tcp os i p ss
      else send_list_udp os i p (wb_list p (ss_slot ss i)) ss)"

text \<open>The comparison of two pointers: a user object need not start with its buffer.\<close>

definition list_uncomplete :: "write_buffer list \<Rightarrow> bool" where
  "list_uncomplete wbs = (case wbs of [] \<Rightarrow> False | wb # _ \<Rightarrow> wb_base wb \<noteq> wb_buffer wb \<or> wb_off wb \<noteq> 0)"

definition raise_uncomplete :: "nat \<Rightarrow> socket_server \<Rightarrow> socket_server option" where
  "raise_uncomplete i ss =
     (let s = ss_slot ss i in
      case sk_low s of
        [] \<Rightarrow> None
      | tmp # rest \<Rightarrow> if sk_high s \<noteq> [] then None else Some (put_socket i (s\<lparr>sk_low := rest, sk_high := [tmp]\<rparr>) ss))"

definition send_buffer_empty :: "socket \<Rightarrow> bool" where
  "send_buffer_empty s \<longleftrightarrow> sk_high s = [] \<and> sk_low s = []"

text \<open>The last step of \<^verbatim>\<open>send_buffer_\<close>, when both lists are empty.\<close>

definition send_buffer_done :: "nat \<Rightarrow> socket_server \<Rightarrow> (outcome \<times> socket_server) option" where
  "send_buffer_done i ss =
     (let s = ss_slot ss i in
      if \<not> (send_buffer_empty s \<and> sk_wb_size s = 0) then None
      else let ss = act (PollWrite (sk_fd s) False) ss in
        if sk_type s = SOCKET_TYPE_HALFCLOSE then map_option (closed SOCKET_CLOSE) (force_close i ss)
        else if sk_warn_size s > 0 then
          Some (Some (SOCKET_WARNING, message s 0 NoData), put_socket i (s\<lparr>sk_warn_size := 0\<rparr>) ss)
        else Some (None, ss))"

definition send_buffer_rest :: "os \<Rightarrow> nat \<Rightarrow> socket_server \<Rightarrow> (outcome \<times> socket_server) option" where
  "send_buffer_rest os i ss =
     (if list_uncomplete (sk_low (ss_slot ss i)) then None
      else do {
        (r, ss) \<leftarrow> send_list os i High ss;
        if r \<noteq> None then Some (r, ss)
        else if sk_high (ss_slot ss i) \<noteq> [] then Some (None, ss)
        else if sk_low (ss_slot ss i) = [] then send_buffer_done i ss
        else do {
          (r, ss) \<leftarrow> send_list os i Low ss;
          if r \<noteq> None then Some (r, ss)
          else if list_uncomplete (sk_low (ss_slot ss i)) then map_option (Pair None) (raise_uncomplete i ss)
          else if sk_low (ss_slot ss i) \<noteq> [] then Some (None, ss)
          else send_buffer_done i ss
        }
      })"

definition dw_write_buffer :: "socket_server \<Rightarrow> socket \<Rightarrow> write_buffer option" where
  "dw_write_buffer ss s = do {
     (user, base, bs) \<leftarrow> send_object_init ss (sk_dw_buffer s) (dw_size_int s);
     Some \<lparr>wb_buffer = sk_dw_buffer s, wb_base = base, wb_off = nat (sk_dw_offset s), wb_bytes = drop (nat (sk_dw_offset s)) bs,
       wb_userobject = user, wb_udp_address = None\<rparr>
   }"

definition send_buffer :: "os \<Rightarrow> nat \<Rightarrow> socket_server \<Rightarrow> (outcome \<times> socket_server) option" where
  "send_buffer os i ss = do {
     let s = ss_slot ss i;
     ss \<leftarrow> (if sk_dw_buffer s = 0 then Some ss
       else do {
         buf \<leftarrow> dw_write_buffer ss s;
         Some (put_socket i (s\<lparr>sk_wb_size := sk_wb_size s + wb_sz buf, sk_high := buf # sk_high s, sk_dw_buffer := 0\<rparr>) ss)
       });
     send_buffer_rest os i ss
   }"

section \<open>Appending\<close>

definition append_sendbuffer :: "socket_server \<Rightarrow> nat \<Rightarrow> priority \<Rightarrow> addr \<Rightarrow> int \<Rightarrow> u8 list option \<Rightarrow> socket_server option" where
  "append_sendbuffer ss i p buffer sz udp_address = do {
     let s = ss_slot ss i;
     (user, base, bs) \<leftarrow> send_object_init ss buffer sz;
     let buf = \<lparr>wb_buffer = buffer, wb_base = base, wb_off = 0, wb_bytes = bs, wb_userobject = user, wb_udp_address = udp_address\<rparr>;
     Some (put_socket i (set_wb_list p (wb_list p s @ [buf]) (s\<lparr>sk_wb_size := sk_wb_size s + wb_sz buf\<rparr>)) ss)
   }"

definition so_drop :: "addr \<Rightarrow> int \<Rightarrow> socket_server \<Rightarrow> (outcome \<times> socket_server) option" where
  "so_drop buffer sz ss = map_option (Pair None) (free_buffer buffer sz ss)"

text \<open>The warning when the buffers of a socket grow.\<close>

definition send_warning :: "nat \<Rightarrow> socket_server \<Rightarrow> (outcome \<times> socket_server) option" where
  "send_warning i ss =
     (let s = ss_slot ss i in
      if sk_wb_size s \<ge> WARNING_SIZE \<and> sk_wb_size s \<ge> sk_warn_size s then
        Some (Some (SOCKET_WARNING, message s
            (if sk_wb_size s mod 1024 = 0 then sk_wb_size s div 1024 else sk_wb_size s div 1024 + 1) NoData),
          put_socket i (s\<lparr>sk_warn_size := if sk_warn_size s = 0 then WARNING_SIZE * 2 else sk_warn_size s * 2\<rparr>) ss)
      else Some (None, ss))"

definition send_socket :: "os \<Rightarrow> int \<Rightarrow> addr \<Rightarrow> int \<Rightarrow> priority \<Rightarrow> u8 list option \<Rightarrow> socket_server \<Rightarrow> (outcome \<times> socket_server) option" where
  "send_socket os sid buffer sz p udp_address ss =
     (let i = HASH_ID sid; s = ss_slot ss i in
      if sk_type s = SOCKET_TYPE_INVALID \<or> sk_id s \<noteq> sid \<or> sk_type s = SOCKET_TYPE_HALFCLOSE \<or> sk_type s = SOCKET_TYPE_PACCEPT
        \<or> sk_type s = SOCKET_TYPE_PLISTEN \<or> sk_type s = SOCKET_TYPE_LISTEN
      then so_drop buffer sz ss
      else if send_buffer_empty s \<and> sk_type s = SOCKET_TYPE_CONNECTED then
        (if sk_protocol s = PROTOCOL_TCP then do {
           ss \<leftarrow> append_sendbuffer ss i High buffer sz None;
           send_warning i (act (PollWrite (sk_fd s) True) ss)
         }
         else do {
           let addr = (case udp_address of None \<Rightarrow> sk_udp_address s | Some a \<Rightarrow> a);
           (_, _, bs) \<leftarrow> send_object_init ss buffer sz;
           case udp_socket_address s addr of
             None \<Rightarrow> so_drop buffer sz ss
           | Some sa \<Rightarrow>
               let (r, ss) = sys_sendto os (sk_fd s) bs sa ss in
               if r = Inr (length bs) then so_drop buffer sz ss
               else do {
                 ss \<leftarrow> append_sendbuffer ss i p buffer sz (Some addr);
                 send_warning i (act (PollWrite (sk_fd s) True) ss)
               }
         })
      else if sk_protocol s = PROTOCOL_TCP then do {
        ss \<leftarrow> append_sendbuffer ss i p buffer sz None;
        send_warning i ss
      }
      else do {
        let addr = (case udp_address of None \<Rightarrow> sk_udp_address s | Some a \<Rightarrow> a);
        ss \<leftarrow> append_sendbuffer ss i p buffer sz (Some addr);
        send_warning i ss
      })"

definition nomore_sending_data :: "socket \<Rightarrow> bool" where
  "nomore_sending_data s \<longleftrightarrow> send_buffer_empty s \<and> sk_dw_buffer s = 0 \<and> sk_sending s AND 0xffff = 0"


section \<open>Commands\<close>

definition limit_message :: msgdata where
  "limit_message = Text ''reach skynet socket number limit''"

fun connect_loop :: "attempt list \<Rightarrow> errno \<Rightarrow> action list \<Rightarrow> (errno + attempt) \<times> action list" where
  "connect_loop [] e acts = (Inl e, acts)"
| "connect_loop (NoSocket e # rest) _ acts = connect_loop rest e acts"
| "connect_loop (Refused sock e # rest) _ acts = connect_loop rest e (acts @ [Close sock])"
| "connect_loop (a # rest) _ acts = (Inr a, acts)"

definition open_failed :: "int \<Rightarrow> u64 \<Rightarrow> msgdata \<Rightarrow> socket_server \<Rightarrow> (outcome \<times> socket_server) option" where
  "open_failed sid opaque d ss =
     Some (Some (SOCKET_ERR, \<lparr>sm_id = sid, sm_opaque = opaque, sm_ud = 0, sm_data = d\<rparr>), set_type (HASH_ID sid) SOCKET_TYPE_INVALID ss)"

definition open_socket :: "os \<Rightarrow> int \<Rightarrow> int \<Rightarrow> string \<Rightarrow> u64 \<Rightarrow> socket_server \<Rightarrow> (outcome \<times> socket_server) option" where
  "open_socket os sid port host opaque ss =
     (case os_resolve os host port (ss_time ss) of
        Inl text \<Rightarrow> open_failed sid opaque (Text text) (tick ss)
      | Inr attempts \<Rightarrow>
          let (r, acts) = connect_loop attempts (os_errno os (ss_time ss)) []; ss = (tick ss)\<lparr>ss_trace := ss_trace ss @ acts\<rparr>;
            connect = (\<lambda>sock t. do {
              (ns, ss) \<leftarrow> new_fd os sid sock PROTOCOL_TCP opaque True ss;
              case ns of
                None \<Rightarrow> open_failed sid opaque limit_message (act (Close sock) ss)
              | Some k \<Rightarrow> (case t of
                  Some addr \<Rightarrow> Some (Some (SOCKET_OPEN, \<lparr>sm_id = sid, sm_opaque = opaque, sm_ud = 0,
                    sm_data = (case addr of None \<Rightarrow> NoData | Some a \<Rightarrow> Text a)\<rparr>), set_type k SOCKET_TYPE_CONNECTED ss)
                | None \<Rightarrow> Some (None, act (PollWrite sock True) (set_type k SOCKET_TYPE_CONNECTING ss)))
            }) in
          (case r of
             Inr (Ready sock addr) \<Rightarrow> connect sock (Some addr)
           | Inr (Pending sock) \<Rightarrow> connect sock None
           | Inl e \<Rightarrow> open_failed sid opaque (Text (os_strerror os e)) ss
           | _ \<Rightarrow> None))"

definition listen_socket :: "os \<Rightarrow> int \<Rightarrow> int \<Rightarrow> u64 \<Rightarrow> socket_server \<Rightarrow> (outcome \<times> socket_server) option" where
  "listen_socket os sid fd opaque ss = do {
     (s, ss) \<leftarrow> new_fd os sid fd PROTOCOL_TCP opaque False ss;
     case s of
       None \<Rightarrow> open_failed sid opaque limit_message (act (Close fd) ss)
     | Some k \<Rightarrow> Some (None, set_type k SOCKET_TYPE_PLISTEN ss)
   }"

definition close_socket :: "os \<Rightarrow> int \<Rightarrow> bool \<Rightarrow> u64 \<Rightarrow> socket_server \<Rightarrow> (outcome \<times> socket_server) option" where
  "close_socket os sid shutdown opaque ss =
     (let i = HASH_ID sid; s = ss_slot ss i in
      if sk_type s = SOCKET_TYPE_INVALID \<or> sk_id s \<noteq> sid then
        Some (Some (SOCKET_CLOSE, \<lparr>sm_id = sid, sm_opaque = opaque, sm_ud = 0, sm_data = NoData\<rparr>), ss)
      else do {
        (r, ss) \<leftarrow> (if nomore_sending_data s then Some (None, ss) else send_buffer os i ss);
        if r \<noteq> None \<and> fst (the r) \<noteq> SOCKET_WARNING then Some (r, ss)
        else if shutdown \<or> nomore_sending_data (ss_slot ss i) then do {
          (m, ss) \<leftarrow> force_close i ss;
          Some (Some (SOCKET_CLOSE, m\<lparr>sm_id := sid, sm_opaque := opaque\<rparr>), ss)
        }
        else Some (None, set_type i SOCKET_TYPE_HALFCLOSE ss)
      })"

definition bind_socket :: "os \<Rightarrow> int \<Rightarrow> int \<Rightarrow> u64 \<Rightarrow> socket_server \<Rightarrow> (outcome \<times> socket_server) option" where
  "bind_socket os sid fd opaque ss = do {
     (s, ss) \<leftarrow> new_fd os sid fd PROTOCOL_TCP opaque True ss;
     case s of
       None \<Rightarrow> Some (Some (SOCKET_ERR, \<lparr>sm_id = sid, sm_opaque = opaque, sm_ud = 0, sm_data = limit_message\<rparr>), ss)
     | Some k \<Rightarrow> Some (Some (SOCKET_OPEN, \<lparr>sm_id = sid, sm_opaque = opaque, sm_ud = 0, sm_data = Text ''binding''\<rparr>),
         set_type k SOCKET_TYPE_BIND ss)
   }"

definition start_socket :: "os \<Rightarrow> int \<Rightarrow> u64 \<Rightarrow> socket_server \<Rightarrow> (outcome \<times> socket_server) option" where
  "start_socket os sid opaque ss =
     (let i = HASH_ID sid; s = ss_slot ss i; reply = (\<lambda>t. \<lparr>sm_id = sid, sm_opaque = opaque, sm_ud = 0, sm_data = Text t\<rparr>) in
      if sk_type s = SOCKET_TYPE_INVALID \<or> sk_id s \<noteq> sid then Some (Some (SOCKET_ERR, reply ''invalid socket''), ss)
      else if sk_type s = SOCKET_TYPE_PACCEPT \<or> sk_type s = SOCKET_TYPE_PLISTEN then
        (case os_add os (ss_time ss) of
           Some e \<Rightarrow> map_option (\<lambda>(m, ss). (Some (SOCKET_ERR, m\<lparr>sm_data := Text (os_strerror os e)\<rparr>), ss)) (force_close i (tick ss))
         | None \<Rightarrow> Some (Some (SOCKET_OPEN, reply ''start''), put_socket i (s\<lparr>sk_type :=
             if sk_type s = SOCKET_TYPE_PACCEPT then SOCKET_TYPE_CONNECTED else SOCKET_TYPE_LISTEN, sk_opaque := opaque\<rparr>)
             (tick (act (PollAdd (sk_fd s)) ss))))
      else if sk_type s = SOCKET_TYPE_CONNECTED then
        Some (Some (SOCKET_OPEN, reply ''transfer''), put_socket i (s\<lparr>sk_opaque := opaque\<rparr>) ss)
      else Some (None, ss))"

definition setopt_socket :: "int \<Rightarrow> int \<Rightarrow> int \<Rightarrow> socket_server \<Rightarrow> socket_server" where
  "setopt_socket sid what v ss =
     (let s = ss_slot ss (HASH_ID sid) in
      if sk_type s = SOCKET_TYPE_INVALID \<or> sk_id s \<noteq> sid then ss else act (SetOpt (sk_fd s) what v) ss)"

text \<open>The family is whether it is IPv6.\<close>

definition add_udp_socket :: "os \<Rightarrow> int \<Rightarrow> int \<Rightarrow> bool \<Rightarrow> u64 \<Rightarrow> socket_server \<Rightarrow> socket_server option" where
  "add_udp_socket os sid fd v6 opaque ss = do {
     (ns, ss) \<leftarrow> new_fd os sid fd (if v6 then PROTOCOL_UDPv6 else PROTOCOL_UDP) opaque True ss;
     case ns of
       None \<Rightarrow> Some (set_type (HASH_ID sid) SOCKET_TYPE_INVALID (act (Close fd) ss))
     | Some k \<Rightarrow> Some (put_socket k ((ss_slot ss k)\<lparr>sk_type := SOCKET_TYPE_CONNECTED, sk_udp_address := replicate 19 0\<rparr>) ss)
   }"

definition set_udp_address :: "int \<Rightarrow> u8 list \<Rightarrow> socket_server \<Rightarrow> outcome \<times> socket_server" where
  "set_udp_address sid address ss =
     (let i = HASH_ID sid; s = ss_slot ss i; n = (if hd address = PROTOCOL_UDP then 7 else 19) in
      if sk_type s = SOCKET_TYPE_INVALID \<or> sk_id s \<noteq> sid then (None, ss)
      else if hd address \<noteq> sk_protocol s then (Some (SOCKET_ERR, message s 0 (Text ''protocol mismatch'')), ss)
      else (None, put_socket i (s\<lparr>sk_udp_address := take n address @ drop n (sk_udp_address s),
        sk_udpconnecting := sk_udpconnecting s - 1\<rparr>) ss))"

text \<open>
  \<^verbatim>\<open>inc_sending_ref\<close> waits while the count is at its maximum, until the socket thread has taken a
  request; no result is that it waits.
\<close>

definition inc_sending_ref :: "int \<Rightarrow> socket_server \<Rightarrow> socket_server option" where
  "inc_sending_ref sid ss =
     (let i = HASH_ID sid; s = ss_slot ss i in
      if sk_protocol s \<noteq> PROTOCOL_TCP then Some ss
      else if drop_bit 16 (sk_sending s) = ID_TAG16 sid then
        if sk_sending s AND 0xffff = 0xffff then None
        else Some (put_socket i (s\<lparr>sk_sending := sk_sending s + 1\<rparr>) ss)
      else Some ss)"

definition dec_sending_ref :: "int \<Rightarrow> socket_server \<Rightarrow> socket_server option" where
  "dec_sending_ref sid ss =
     (let i = HASH_ID sid; s = ss_slot ss i in
      if sk_id s = sid \<and> sk_protocol s = PROTOCOL_TCP then
        if sk_sending s AND 0xffff = 0 then None
        else Some (put_socket i (s\<lparr>sk_sending := sk_sending s - 1\<rparr>) ss)
      else Some ss)"

text \<open>One request, already taken from the pipe.\<close>

definition ctrl_request :: "os \<Rightarrow> request \<Rightarrow> socket_server \<Rightarrow> (outcome \<times> socket_server) option" where
  "ctrl_request os req ss =
     (case req of
        Req_S sid opaque \<Rightarrow> start_socket os sid opaque ss
      | Req_B sid fd opaque \<Rightarrow> bind_socket os sid fd opaque ss
      | Req_L sid fd opaque \<Rightarrow> listen_socket os sid fd opaque ss
      | Req_K sid shutdown opaque \<Rightarrow> close_socket os sid shutdown opaque ss
      | Req_O sid port host opaque \<Rightarrow> open_socket os sid port host opaque ss
      | Req_X \<Rightarrow> Some (Some (SOCKET_EXIT, \<lparr>sm_id = 0, sm_opaque = 0, sm_ud = 0, sm_data = NoData\<rparr>), ss)
      | Req_D sid sz buffer \<Rightarrow> do {
          (r, ss) \<leftarrow> send_socket os sid buffer sz High None ss;
          ss \<leftarrow> dec_sending_ref sid ss;
          Some (r, ss)
        }
      | Req_P sid sz buffer \<Rightarrow> do {
          (r, ss) \<leftarrow> send_socket os sid buffer sz Low None ss;
          ss \<leftarrow> dec_sending_ref sid ss;
          Some (r, ss)
        }
      | Req_A sid sz buffer address \<Rightarrow> send_socket os sid buffer sz High (Some address) ss
      | Req_C sid address \<Rightarrow> Some (set_udp_address sid address ss)
      | Req_T sid what v \<Rightarrow> Some (None, setopt_socket sid what v ss)
      | Req_U sid fd v6 opaque \<Rightarrow> map_option (Pair None) (add_udp_socket os sid fd v6 opaque ss))"

definition ctrl_cmd :: "os \<Rightarrow> socket_server \<Rightarrow> (outcome \<times> socket_server) option" where
  "ctrl_cmd os ss =
     (case ss_pipe ss of [] \<Rightarrow> None | req # rest \<Rightarrow> ctrl_request os req (ss\<lparr>ss_pipe := rest\<rparr>))"

section \<open>Events\<close>

definition forward_message_tcp :: "os \<Rightarrow> nat \<Rightarrow> socket_server \<Rightarrow> (outcome \<times> socket_server) option" where
  "forward_message_tcp os i ss =
     (let s = ss_slot ss i; sz = sk_size s in
      case os_read os (ss_time ss) of
        Inl e \<Rightarrow>
          if e = EINTR \<or> e = EAGAIN then Some (None, tick ss)
          else map_option (\<lambda>(m, ss). (Some (SOCKET_ERR, m\<lparr>sm_data := Text (os_strerror os e)\<rparr>), ss)) (force_close i (tick ss))
      | Inr bytes \<Rightarrow>
          let buffer = take (nat sz) bytes; n = int (length buffer); ss = tick ss in
          if n = 0 then map_option (closed SOCKET_CLOSE) (force_close i ss)
          else if sk_type s = SOCKET_TYPE_HALFCLOSE then Some (None, ss)
          else Some (Some (SOCKET_DATA, message s n (Data buffer)),
            put_socket i (s\<lparr>sk_size := if n = sz then sz * 2 else if MIN_READ_BUFFER < sz \<and> n * 2 < sz then sz div 2 else sz\<rparr>) ss))"

definition gen_udp_address :: "sockaddr \<Rightarrow> u8 list" where
  "gen_udp_address sa = (case sa of V4 port addr \<Rightarrow> PROTOCOL_UDP # port @ addr | V6 port addr \<Rightarrow> PROTOCOL_UDPv6 # port @ addr)"

definition forward_message_udp :: "os \<Rightarrow> nat \<Rightarrow> socket_server \<Rightarrow> (outcome \<times> socket_server) option" where
  "forward_message_udp os i ss =
     (let s = ss_slot ss i in
      case os_recvfrom os (ss_time ss) of
        Inl e \<Rightarrow>
          if e = EINTR \<or> e = EAGAIN then Some (None, tick ss)
          else map_option (\<lambda>(m, ss). (Some (SOCKET_ERR, m\<lparr>sm_data := Text (os_strerror os e)\<rparr>), ss)) (force_close i (tick ss))
      | Inr (bytes, sa) \<Rightarrow>
          if sk_protocol s \<noteq> (case sa of V4 _ _ \<Rightarrow> PROTOCOL_UDP | V6 _ _ \<Rightarrow> PROTOCOL_UDPv6) then Some (None, tick ss)
          else Some (Some (SOCKET_UDP, message s (int (length bytes)) (Data (bytes @ gen_udp_address sa))), tick ss))"

definition report_connect :: "os \<Rightarrow> nat \<Rightarrow> socket_server \<Rightarrow> (outcome \<times> socket_server) option" where
  "report_connect os i ss =
     (case os_sockerr os (ss_time ss) of
        Some e \<Rightarrow> map_option (\<lambda>(m, ss). (Some (SOCKET_ERR, m\<lparr>sm_data := Text (os_strerror os e)\<rparr>), ss)) (force_close i (tick ss))
      | None \<Rightarrow>
          let s = (ss_slot ss i)\<lparr>sk_type := SOCKET_TYPE_CONNECTED\<rparr>; ss' = put_socket i s (tick ss);
              ss' = (if nomore_sending_data s then act (PollWrite (sk_fd s) False) ss' else ss') in
          Some (Some (SOCKET_OPEN, message s 0 (case os_peername os (ss_time ss) of None \<Rightarrow> NoData | Some a \<Rightarrow> Text a)), ss'))"

text \<open>The result 0 of the C function, nothing accepted, is no event.\<close>

definition report_accept :: "os \<Rightarrow> nat \<Rightarrow> socket_server \<Rightarrow> (outcome \<times> socket_server) option" where
  "report_accept os i ss =
     (let s = ss_slot ss i in
      case os_accept os (ss_time ss) of
        Inl e \<Rightarrow> if e = EMFILE then Some (Some (SOCKET_ERR, message s 0 (Text (os_strerror os e))), tick ss) else Some (None, tick ss)
      | Inr (fd, peer) \<Rightarrow>
          let (sid, ss) = reserve_id (tick ss) in
          if sid < 0 then Some (None, act (Close fd) ss)
          else do {
            (ns, ss) \<leftarrow> new_fd os sid fd PROTOCOL_TCP (sk_opaque s) False ss;
            case ns of
              None \<Rightarrow> Some (None, act (Close fd) ss)
            | Some k \<Rightarrow> Some (Some (SOCKET_ACCEPT, message s sid (case peer of None \<Rightarrow> NoData | Some a \<Rightarrow> Text a)),
                set_type k SOCKET_TYPE_PACCEPT ss)
          })"

text \<open>The first remaining event of a closed socket is forgotten.\<close>

fun clear_first :: "(nat \<Rightarrow> bool) \<Rightarrow> event list \<Rightarrow> event list" where
  "clear_first P [] = []"
| "clear_first P (e # es) =
     (case ev_s e of
        None \<Rightarrow> e # clear_first P es
      | Some i \<Rightarrow> if P i then e\<lparr>ev_s := None\<rparr> # es else e # clear_first P es)"

definition clear_closed_event :: "socket_message \<Rightarrow> socket_code \<Rightarrow> socket_server \<Rightarrow> socket_server" where
  "clear_closed_event m type ss =
     (if type = SOCKET_CLOSE \<or> type = SOCKET_ERR then
        ss\<lparr>ss_ev := take (ss_event_index ss) (ss_ev ss) @
          clear_first (\<lambda>i. sk_type (ss_slot ss i) = SOCKET_TYPE_INVALID \<and> sk_id (ss_slot ss i) = sm_id m)
            (drop (ss_event_index ss) (ss_ev ss))\<rparr>
      else ss)"

text \<open>The event with number \<open>k\<close>, for the socket in slot \<open>i\<close>; the event index is already behind it.\<close>

definition again :: "nat \<Rightarrow> event \<Rightarrow> socket_server \<Rightarrow> socket_server" where
  "again k e ss = ss\<lparr>ss_ev := (ss_ev ss)[k := e], ss_event_index := k\<rparr>"

definition handle_event :: "os \<Rightarrow> nat \<Rightarrow> event \<Rightarrow> nat \<Rightarrow> socket_server \<Rightarrow> (outcome \<times> socket_server) option" where
  "handle_event os k e i ss =
     (let s = ss_slot ss i in
      case sk_type s of
        SOCKET_TYPE_CONNECTING \<Rightarrow> report_connect os i ss
      | SOCKET_TYPE_LISTEN \<Rightarrow> report_accept os i ss
      | SOCKET_TYPE_INVALID \<Rightarrow> Some (None, ss)
      | _ \<Rightarrow>
          if ev_read e then do {
            (r, ss) \<leftarrow> (if sk_protocol s = PROTOCOL_TCP then forward_message_tcp os i ss else forward_message_udp os i ss);
            let t = map_option fst r;
            if sk_protocol s \<noteq> PROTOCOL_TCP \<and> t = Some SOCKET_UDP then Some (r, again k e ss)
            else if ev_write e \<and> t \<noteq> Some SOCKET_CLOSE \<and> t \<noteq> Some SOCKET_ERR then Some (r, again k (e\<lparr>ev_read := False\<rparr>) ss)
            else Some (r, ss)
          }
          else if ev_write e then send_buffer os i ss
          else if ev_error e then
            let text = (case os_sockerr os (ss_time ss) of Some err \<Rightarrow> os_strerror os err | None \<Rightarrow> ''Unknown error'') in
            map_option (\<lambda>(m, ss). (Some (SOCKET_ERR, m\<lparr>sm_data := Text text\<rparr>), ss)) (force_close i (tick ss))
          else if ev_eof e then map_option (closed SOCKET_CLOSE) (force_close i ss)
          else Some (None, ss))"

text \<open>
  \<^verbatim>\<open>socket_server_poll\<close>: a request when there is one, otherwise the next event. The first result is
  \<^verbatim>\<open>*more\<close>; no event is the result -1.
\<close>

partial_function (option) socket_server_poll :: "os \<Rightarrow> bool \<Rightarrow> socket_server \<Rightarrow> (bool \<times> outcome \<times> socket_server) option" where
  "socket_server_poll os pending ss =
     (if ss_checkctrl ss \<and> ss_pipe ss \<noteq> [] then
        Option.bind (ctrl_cmd os ss) (\<lambda>(r, ss).
          case r of
            Some (type, m) \<Rightarrow> Some (pending, r, clear_closed_event m type ss)
          | None \<Rightarrow> socket_server_poll os pending ss)
      else
        let ss = ss\<lparr>ss_checkctrl := False\<rparr>; wait = (ss_event_index ss = length (ss_ev ss));
            ss = (if wait then (tick ss)\<lparr>ss_ev := os_wait os (ss_time ss), ss_event_index := 0, ss_checkctrl := True\<rparr> else ss);
            pending = (pending \<and> \<not> wait) in
        if wait \<and> ss_ev ss = [] then
          (if os_errno os (ss_time ss) = EINTR then socket_server_poll os pending ss else Some (pending, None, ss))
        else
          let k = ss_event_index ss; e = ss_ev ss ! k; ss = ss\<lparr>ss_event_index := k + 1\<rparr> in
          (case ev_s e of
             None \<Rightarrow> socket_server_poll os pending ss
           | Some i \<Rightarrow> Option.bind (handle_event os k e i ss) (\<lambda>(r, ss).
               case r of Some _ \<Rightarrow> Some (pending, r, ss) | None \<Rightarrow> socket_server_poll os pending ss)))"


section \<open>The other threads\<close>

definition send_request :: "request \<Rightarrow> socket_server \<Rightarrow> socket_server" where
  "send_request r ss = ss\<lparr>ss_pipe := ss_pipe ss @ [r]\<rparr>"

text \<open>\<^verbatim>\<open>sizeof(struct request_open)\<close> is 24 bytes, and a request is shorter than 256.\<close>

definition socket_server_connect :: "u64 \<Rightarrow> string \<Rightarrow> int \<Rightarrow> socket_server \<Rightarrow> int \<times> socket_server" where
  "socket_server_connect opaque addr port ss =
     (if length addr + 24 \<ge> 256 then (- 1, ss)
      else let (sid, ss) = reserve_id ss in
        if sid < 0 then (- 1, ss) else (sid, send_request (Req_O sid port addr opaque) ss))"

definition can_direct_write :: "socket \<Rightarrow> int \<Rightarrow> bool" where
  "can_direct_write s sid \<longleftrightarrow> sk_id s = sid \<and> nomore_sending_data s \<and> sk_type s = SOCKET_TYPE_CONNECTED \<and> sk_udpconnecting s = 0"

definition bad_id :: "socket \<Rightarrow> int \<Rightarrow> bool" where
  "bad_id s sid \<longleftrightarrow> sk_id s \<noteq> sid \<or> sk_type s = SOCKET_TYPE_INVALID"

definition send_by_pipe :: "int \<Rightarrow> request \<Rightarrow> socket_server \<Rightarrow> (int \<times> socket_server) option" where
  "send_by_pipe sid req ss = do { ss \<leftarrow> inc_sending_ref sid ss; Some (0, send_request req ss) }"

definition socket_server_send :: "os \<Rightarrow> int \<Rightarrow> addr \<Rightarrow> int \<Rightarrow> socket_server \<Rightarrow> (int \<times> socket_server) option" where
  "socket_server_send os sid buffer sz ss =
     (let i = HASH_ID sid; s = ss_slot ss i in
      if bad_id s sid then map_option (Pair (- 1)) (free_buffer buffer sz ss)
      else if can_direct_write s sid then do {
        (user, base, bs) \<leftarrow> send_object_init ss buffer sz;
        let sa = udp_socket_address s (sk_udp_address s);
        if sk_protocol s \<noteq> PROTOCOL_TCP \<and> sa = None then map_option (Pair (- 1)) (so_free user buffer ss)
        else do {
          let (r, ss) = (if sk_protocol s = PROTOCOL_TCP then sys_write os (sk_fd s) bs ss
            else sys_sendto os (sk_fd s) bs (the sa) ss);
          let n = (case r of Inl _ \<Rightarrow> 0 | Inr n \<Rightarrow> n);
          if n = length bs then map_option (Pair 0) (so_free user buffer ss)
          else Some (0, act (PollWrite (sk_fd s) True) (put_socket i (s\<lparr>sk_dw_buffer := buffer, sk_dw_size := of_int sz,
            sk_dw_offset := int n\<rparr>) ss))
        }
      }
      else send_by_pipe sid (Req_D sid sz buffer) ss)"

definition socket_server_send_lowpriority :: "int \<Rightarrow> addr \<Rightarrow> int \<Rightarrow> socket_server \<Rightarrow> (int \<times> socket_server) option" where
  "socket_server_send_lowpriority sid buffer sz ss =
     (if bad_id (ss_slot ss (HASH_ID sid)) sid then map_option (Pair (- 1)) (free_buffer buffer sz ss)
      else send_by_pipe sid (Req_P sid sz buffer) ss)"

definition socket_server_exit :: "socket_server \<Rightarrow> socket_server" where
  "socket_server_exit ss = send_request Req_X ss"

definition socket_server_close :: "u64 \<Rightarrow> int \<Rightarrow> socket_server \<Rightarrow> socket_server" where
  "socket_server_close opaque sid ss = send_request (Req_K sid False opaque) ss"

definition socket_server_shutdown :: "u64 \<Rightarrow> int \<Rightarrow> socket_server \<Rightarrow> socket_server" where
  "socket_server_shutdown opaque sid ss = send_request (Req_K sid True opaque) ss"

text \<open>The descriptors that \<^verbatim>\<open>do_listen\<close>, \<^verbatim>\<open>do_bind\<close> and \<^verbatim>\<open>socket\<close> return are arguments; a negative one is a failure.\<close>

definition socket_server_listen :: "u64 \<Rightarrow> int \<Rightarrow> socket_server \<Rightarrow> int \<times> socket_server" where
  "socket_server_listen opaque fd ss =
     (if fd < 0 then (- 1, ss)
      else let (sid, ss) = reserve_id ss in
        if sid < 0 then (sid, act (Close fd) ss) else (sid, send_request (Req_L sid fd opaque) ss))"

definition socket_server_bind :: "u64 \<Rightarrow> int \<Rightarrow> socket_server \<Rightarrow> int \<times> socket_server" where
  "socket_server_bind opaque fd ss =
     (let (sid, ss) = reserve_id ss in
      if sid < 0 then (- 1, ss) else (sid, send_request (Req_B sid fd opaque) ss))"

definition socket_server_start :: "u64 \<Rightarrow> int \<Rightarrow> socket_server \<Rightarrow> socket_server" where
  "socket_server_start opaque sid ss = send_request (Req_S sid opaque) ss"

definition TCP_NODELAY :: int where "TCP_NODELAY = 1"

definition socket_server_nodelay :: "int \<Rightarrow> socket_server \<Rightarrow> socket_server" where
  "socket_server_nodelay sid ss = send_request (Req_T sid TCP_NODELAY 1) ss"

definition socket_server_udp :: "u64 \<Rightarrow> int \<Rightarrow> bool \<Rightarrow> socket_server \<Rightarrow> int \<times> socket_server" where
  "socket_server_udp opaque fd v6 ss =
     (if fd < 0 then (- 1, ss)
      else let (sid, ss) = reserve_id ss in
        if sid < 0 then (- 1, act (Close fd) ss) else (sid, send_request (Req_U sid fd v6 opaque) ss))"

definition udp_address_size :: "u8 \<Rightarrow> nat option" where
  "udp_address_size t = (if t = PROTOCOL_UDP then Some 7 else if t = PROTOCOL_UDPv6 then Some 19 else None)"

definition socket_server_udp_send :: "os \<Rightarrow> int \<Rightarrow> u8 list \<Rightarrow> addr \<Rightarrow> int \<Rightarrow> socket_server \<Rightarrow> (int \<times> socket_server) option" where
  "socket_server_udp_send os sid address buffer sz ss =
     (let i = HASH_ID sid; s = ss_slot ss i in
      if bad_id s sid then map_option (Pair (- 1)) (free_buffer buffer sz ss)
      else case udp_address_size (hd address) of
        None \<Rightarrow> map_option (Pair (- 1)) (free_buffer buffer sz ss)
      | Some n \<Rightarrow>
          let later = (\<lambda>ss. Some (0, send_request (Req_A sid sz buffer (take n address)) ss)) in
          if can_direct_write s sid then do {
            (user, base, bs) \<leftarrow> send_object_init ss buffer sz;
            case udp_socket_address s address of
              None \<Rightarrow> map_option (Pair (- 1)) (so_free user buffer ss)
            | Some sa \<Rightarrow> (case sys_sendto os (sk_fd s) bs sa ss of
                (Inr _, ss) \<Rightarrow> map_option (Pair 0) (so_free user buffer ss)
              | (Inl _, ss) \<Rightarrow> later ss)
          }
          else later ss)"

text \<open>\<^verbatim>\<open>socket_server_udp_connect\<close> with the first address that \<^verbatim>\<open>getaddrinfo\<close> returns, if any.\<close>

definition socket_server_udp_connect :: "int \<Rightarrow> sockaddr option \<Rightarrow> socket_server \<Rightarrow> int \<times> socket_server" where
  "socket_server_udp_connect sid sa ss =
     (let i = HASH_ID sid; s = ss_slot ss i in
      if bad_id s sid then (- 1, ss)
      else let ss = put_socket i (s\<lparr>sk_udpconnecting := sk_udpconnecting s + 1\<rparr>) ss in
        case sa of None \<Rightarrow> (- 1, ss) | Some sa \<Rightarrow> (0, send_request (Req_C sid (gen_udp_address sa)) ss))"

text \<open>The address behind the data of a message of type \<^verbatim>\<open>SOCKET_UDP\<close>.\<close>

definition socket_server_udp_address :: "socket_message \<Rightarrow> u8 list option" where
  "socket_server_udp_address m =
     (case sm_data m of
        Data bs \<Rightarrow> (case drop (nat (sm_ud m)) bs of
            [] \<Rightarrow> None
          | t # address \<Rightarrow> map_option (\<lambda>n. take n (t # address)) (udp_address_size t))
      | _ \<Rightarrow> None)"

fun release_slots :: "nat list \<Rightarrow> socket_server \<Rightarrow> socket_server option" where
  "release_slots [] ss = Some ss"
| "release_slots (i # is) ss =
     (if sk_type (ss_slot ss i) = SOCKET_TYPE_RESERVE then release_slots is ss
      else do { (_, ss) \<leftarrow> force_close i ss; release_slots is ss })"

definition socket_server_release :: "socket_server \<Rightarrow> socket_server option" where
  "socket_server_release ss = release_slots [0..<MAX_SOCKET] ss"

end
