(* ===== verification/Socket_Flush.thy ===== *)
theory Socket_Flush
  imports Socket_Server
begin

text \<open>
  Writing the buffers of a TCP socket, and closing it. A buffer is held when freeing it is defined; the buffers of a
  socket, the one of a direct write included, are held and distinct. Writing sends the first bytes of the
  buffers in their order and frees those that are sent; closing frees the others.
\<close>

section \<open>What was written, and what is left\<close>

definition written :: "int \<Rightarrow> action list \<Rightarrow> u8 list" where
  "written fd acts = concat (map (\<lambda>a. case a of Write f bs \<Rightarrow> if f = fd then bs else [] | _ \<Rightarrow> []) acts)"

definition unsent :: "write_buffer list \<Rightarrow> u8 list" where
  "unsent wbs = concat (map wb_bytes wbs)"

definition writes :: "int \<Rightarrow> action list \<Rightarrow> u8 list \<Rightarrow> bool" where
  "writes fd acts bs \<longleftrightarrow> written fd acts = bs \<and> (\<forall>a \<in> set acts. \<exists>bs. a = Write fd bs)"

lemma written_simps [simp]:
  "written fd [] = []" "written fd (acts @ acts') = written fd acts @ written fd acts'"
  "written fd [Write f bs] = (if f = fd then bs else [])" "written fd [Close f] = []"
  "written fd [PollAdd f] = []" "written fd [PollDel f] = []" "written fd [PollWrite f b] = []"
  by (simp_all add: written_def)

lemma unsent_simps [simp]: "unsent [] = []" "unsent (b # bs) = wb_bytes b @ unsent bs" "unsent (xs @ ys) = unsent xs @ unsent ys"
  by (simp_all add: unsent_def)

lemma writes_simps:
  "writes fd [] [] " "writes fd acts xs \<Longrightarrow> writes fd acts' ys \<Longrightarrow> writes fd (acts @ acts') (xs @ ys)" "writes fd [Write fd bs] bs"
  by (auto simp: writes_def)

section \<open>Buffers that are held\<close>

definition held :: "(addr \<rightharpoonup> memobj) \<Rightarrow> write_buffer \<Rightarrow> bool" where
  "held mem wb \<longleftrightarrow> wb_buffer wb \<noteq> 0 \<and>
     (case mem (wb_buffer wb) of Some (Raw _) \<Rightarrow> \<not> wb_userobject wb | Some (Obj _ _) \<Rightarrow> wb_userobject wb | None \<Rightarrow> False)"

definition bufs :: "write_buffer list \<Rightarrow> addr set" where
  "bufs wbs = wb_buffer ` set wbs"

definition buffers_ok :: "(addr \<rightharpoonup> memobj) \<Rightarrow> write_buffer list \<Rightarrow> bool" where
  "buffers_ok mem wbs \<longleftrightarrow> distinct (map wb_buffer wbs) \<and> (\<forall>wb \<in> set wbs. held mem wb)"

lemma bufs_simps [simp]: "bufs [] = {}" "bufs (b # bs) = insert (wb_buffer b) (bufs bs)" "bufs (xs @ ys) = bufs xs \<union> bufs ys"
  by (auto simp: bufs_def)

lemma buffers_ok_Nil [simp]: "buffers_ok mem []"
  by (simp add: buffers_ok_def)

lemma buffers_ok_Cons: "buffers_ok mem (b # bs) \<longleftrightarrow> held mem b \<and> wb_buffer b \<notin> bufs bs \<and> buffers_ok mem bs"
  by (auto simp: buffers_ok_def bufs_def)

lemma buffers_ok_append: "buffers_ok mem (xs @ ys) \<longleftrightarrow> buffers_ok mem xs \<and> buffers_ok mem ys \<and> bufs xs \<inter> bufs ys = {}"
  by (auto simp: buffers_ok_def bufs_def)

lemma held_cong: "mem' (wb_buffer wb) = mem (wb_buffer wb) \<Longrightarrow> held mem' wb = held mem wb"
  by (simp add: held_def)

lemma buffers_ok_cong:
  assumes "\<And>a. a \<in> bufs wbs \<Longrightarrow> mem' a = mem a"
  shows "buffers_ok mem' wbs = buffers_ok mem wbs"
proof -
  have "held mem' wb = held mem wb" if "wb \<in> set wbs" for wb
    using that assms [of "wb_buffer wb"] by (intro held_cong) (simp add: bufs_def)
  then show ?thesis by (auto simp: buffers_ok_def)
qed

lemma buffers_ok_restrict: "bufs wbs \<inter> A = {} \<Longrightarrow> buffers_ok (mem |` (- A)) wbs = buffers_ok mem wbs"
  by (rule buffers_ok_cong) (auto simp: restrict_map_def)

lemma write_buffer_free_held:
  "held (ss_mem ss) wb \<Longrightarrow> write_buffer_free wb ss = Some (ss\<lparr>ss_mem := (ss_mem ss)(wb_buffer wb := None)\<rparr>)"
  by (auto simp: held_def write_buffer_free_def so_free_def soi_free_def free_raw_def split: option.splits memobj.splits)

lemma restrict_insert: "(m(a := None)) |` (- A) = m |` (- insert a A)"
  by (auto simp: restrict_map_def fun_eq_iff)

lemma free_wb_list_held:
  "buffers_ok (ss_mem ss) wbs \<Longrightarrow> free_wb_list wbs ss = Some (ss\<lparr>ss_mem := ss_mem ss |` (- bufs wbs)\<rparr>)"
proof (induction wbs arbitrary: ss)
  case Nil then show ?case by simp
next
  case (Cons wb wbs)
  let ?ss = "ss\<lparr>ss_mem := (ss_mem ss)(wb_buffer wb := None)\<rparr>"
  have "buffers_ok (ss_mem ?ss) wbs = buffers_ok (ss_mem ss) wbs"
    using Cons.prems by (intro buffers_ok_cong) (auto simp: buffers_ok_Cons)
  then have "free_wb_list wbs ?ss = Some (?ss\<lparr>ss_mem := ss_mem ?ss |` (- bufs wbs)\<rparr>)"
    using Cons.prems by (intro Cons.IH) (simp only: buffers_ok_Cons)
  also have "ss_mem ?ss |` (- bufs wbs) = ss_mem ss |` (- bufs (wb # wbs))"
  proof -
    have "ss_mem ?ss = (ss_mem ss)(wb_buffer wb := None)" by simp
    then show ?thesis by (simp only: restrict_insert bufs_simps)
  qed
  finally have f: "free_wb_list wbs ?ss = Some (?ss\<lparr>ss_mem := ss_mem ss |` (- bufs (wb # wbs))\<rparr>)" .
  have "write_buffer_free wb ss = Some ?ss" using Cons.prems by (simp only: buffers_ok_Cons write_buffer_free_held)
  then have "free_wb_list (wb # wbs) ss = Some (?ss\<lparr>ss_mem := ss_mem ss |` (- bufs (wb # wbs))\<rparr>)"
    by (simp only: free_wb_list.simps bind.bind_lunit f)
  then show ?case by simp
qed

lemma send_object_init_cong: "ss_mem ss a = ss_mem ss' a \<Longrightarrow> send_object_init ss a sz = send_object_init ss' a sz"
  by (simp add: send_object_init_def)

section \<open>The buffers of a socket\<close>

definition direct :: "socket_server \<Rightarrow> socket \<Rightarrow> write_buffer list" where
  "direct ss s = (if sk_dw_buffer s = 0 then [] else case dw_write_buffer ss s of None \<Rightarrow> [] | Some b \<Rightarrow> [b])"

definition sock_bufs :: "socket_server \<Rightarrow> socket \<Rightarrow> write_buffer list" where
  "sock_bufs ss s = direct ss s @ sk_high s @ sk_low s"

definition sock_held :: "socket_server \<Rightarrow> socket \<Rightarrow> bool" where
  "sock_held ss s \<longleftrightarrow> (sk_dw_buffer s \<noteq> 0 \<longrightarrow> dw_write_buffer ss s \<noteq> None) \<and> buffers_ok (ss_mem ss) (sock_bufs ss s)"

lemma free_buffer_direct:
  assumes "sk_dw_buffer s \<noteq> 0" "dw_write_buffer ss0 s = Some b" "held (ss_mem ss) b"
    "ss_mem ss (sk_dw_buffer s) = ss_mem ss0 (sk_dw_buffer s)"
  shows "free_buffer (sk_dw_buffer s) (dw_size_int s) ss = Some (ss\<lparr>ss_mem := (ss_mem ss)(sk_dw_buffer s := None)\<rparr>)"
proof -
  obtain user base bs where i: "send_object_init ss0 (sk_dw_buffer s) (dw_size_int s) = Some (user, base, bs)"
    and b: "wb_userobject b = user" "wb_buffer b = sk_dw_buffer s"
    using assms(2) by (auto simp: dw_write_buffer_def split: Option.bind_splits)
  have "send_object_init ss (sk_dw_buffer s) (dw_size_int s) = Some (user, base, bs)"
    using i send_object_init_cong [OF assms(4)] by simp
  moreover have "so_free user (sk_dw_buffer s) ss = Some (ss\<lparr>ss_mem := (ss_mem ss)(sk_dw_buffer s := None)\<rparr>)"
    using write_buffer_free_held [OF assms(3)] b by (simp add: write_buffer_free_def)
  ultimately show ?thesis by (simp add: free_buffer_def)
qed

definition open_type :: "socket_type \<Rightarrow> bool" where
  "open_type t \<longleftrightarrow> t \<noteq> SOCKET_TYPE_INVALID \<and> t \<noteq> SOCKET_TYPE_RESERVE"

definition close_actions :: "socket \<Rightarrow> action list" where
  "close_actions s =
     (if sk_type s \<noteq> SOCKET_TYPE_PACCEPT \<and> sk_type s \<noteq> SOCKET_TYPE_PLISTEN then [PollDel (sk_fd s)] else []) @
     (if sk_type s \<noteq> SOCKET_TYPE_BIND then [Close (sk_fd s)] else [])"

definition closed_socket :: "socket \<Rightarrow> socket" where
  "closed_socket s = s\<lparr>sk_high := [], sk_low := [], sk_type := SOCKET_TYPE_INVALID, sk_dw_buffer := 0\<rparr>"

lemma force_close_held:
  assumes "open_type (sk_type (ss_slot ss i))" "sock_held ss (ss_slot ss i)"
  shows "force_close i ss = Some (message (ss_slot ss i) 0 NoData,
    ss\<lparr>ss_mem := ss_mem ss |` (- bufs (sock_bufs ss (ss_slot ss i))), ss_trace := ss_trace ss @ close_actions (ss_slot ss i),
       ss_slot := (ss_slot ss)(i := closed_socket (ss_slot ss i))\<rparr>)"
proof -
  define s where "s = ss_slot ss i"
  have ok: "buffers_ok (ss_mem ss) (sk_high s)" "buffers_ok (ss_mem ss |` (- bufs (sk_high s))) (sk_low s)"
    using assms(2) by (auto simp: sock_held_def sock_bufs_def buffers_ok_append s_def buffers_ok_restrict Int_commute)
  let ?mem = "ss_mem ss |` (- (bufs (sk_high s) \<union> bufs (sk_low s)))"
  have mem: "ss_mem ss |` (- bufs (sk_high s)) |` (- bufs (sk_low s)) = ?mem"
    by (auto simp: restrict_map_def fun_eq_iff)
  define ss2 where "ss2 = ss\<lparr>ss_mem := ?mem, ss_trace := ss_trace ss @ close_actions s, ss_slot := (ss_slot ss)(i := closed_socket s)\<rparr>"
  have step: "force_close i ss = do {
      ss' \<leftarrow> (if sk_dw_buffer s \<noteq> 0 then free_buffer (sk_dw_buffer s) (dw_size_int s) ss2 else Some ss2);
      Some (message s 0 NoData, ss') }"
    using assms(1) unfolding force_close_def ss2_def
    by (simp add: s_def [symmetric] free_wb_list_held ok open_type_def Let_def mem act_def put_socket_def close_actions_def closed_socket_def)
  show ?thesis
  proof (cases "sk_dw_buffer s = 0")
    case True
    then show ?thesis unfolding step by (simp add: ss2_def s_def [symmetric] sock_bufs_def direct_def)
  next
    case False
    then obtain b where b: "dw_write_buffer ss s = Some b" "held (ss_mem ss) b" "wb_buffer b \<notin> bufs (sk_high s) \<union> bufs (sk_low s)"
      using assms(2) by (auto simp: sock_held_def sock_bufs_def direct_def s_def buffers_ok_Cons split: option.splits)
    then have wb: "wb_buffer b = sk_dw_buffer s" by (auto simp: dw_write_buffer_def split: Option.bind_splits)
    have m: "ss_mem ss2 (sk_dw_buffer s) = ss_mem ss (sk_dw_buffer s)" using b(3) by (simp add: ss2_def wb)
    have "held (ss_mem ss2) b" using b(2) m by (simp add: held_def wb)
    note f = free_buffer_direct [OF False b(1) this m]
    have e: "(ss_mem ss2)(sk_dw_buffer s := None) = ss_mem ss |` (- bufs (sock_bufs ss s))"
      using b(1) False by (auto simp: ss2_def sock_bufs_def direct_def wb restrict_map_def fun_eq_iff)
    have "force_close i ss = Some (message s 0 NoData, ss2\<lparr>ss_mem := (ss_mem ss2)(sk_dw_buffer s := None)\<rparr>)"
      unfolding step using False by (simp only: f not_False_eq_True if_True bind.bind_lunit)
    then show ?thesis unfolding e by (simp add: ss2_def s_def)
  qed
qed

section \<open>Writing a list\<close>

text \<open>The first \<open>n\<close> bytes of the first buffer are sent.\<close>

definition partly :: "nat \<Rightarrow> write_buffer list \<Rightarrow> write_buffer list" where
  "partly n l = (case l of [] \<Rightarrow> [] | b # bs \<Rightarrow> wb_advance n b # bs)"

definition part_ok :: "nat \<Rightarrow> write_buffer list \<Rightarrow> bool" where
  "part_ok n l \<longleftrightarrow> (case l of [] \<Rightarrow> n = 0 | b # bs \<Rightarrow> n \<le> length (wb_bytes b))"

text \<open>Slot \<open>i\<close> when the buffers \<open>dn\<close> and \<open>n\<close> bytes of the next one, the first of \<open>l\<close>, are sent.\<close>

definition drained :: "nat \<Rightarrow> priority \<Rightarrow> write_buffer list \<Rightarrow> nat \<Rightarrow> write_buffer list \<Rightarrow> action list \<Rightarrow> nat \<Rightarrow> socket_server \<Rightarrow> socket_server" where
  "drained i p dn n l acts t ss =
     ss\<lparr>ss_slot := (ss_slot ss)(i := set_wb_list p (partly n l)
          ((ss_slot ss i)\<lparr>sk_wb_size := sk_wb_size (ss_slot ss i) - int (length (unsent dn) + n)\<rparr>)),
        ss_mem := ss_mem ss |` (- bufs dn), ss_time := t, ss_trace := ss_trace ss @ acts\<rparr>"

definition writes_end :: "os \<Rightarrow> bool" where
  "writes_end os \<longleftrightarrow> (\<forall>t. \<exists>t' \<ge> t. os_write os t' \<noteq> Inl EINTR)"

lemma wb_advance_0 [simp]: "wb_advance 0 b = b"
  by (simp add: wb_advance_def)

lemma partly_0 [simp]: "partly 0 l = l"
  by (simp add: partly_def split: list.splits)

lemma part_ok_0 [simp]: "part_ok 0 l"
  by (simp add: part_ok_def split: list.splits)

lemma unsent_partly: "part_ok n l \<Longrightarrow> unsent (partly n l) = drop n (unsent l)"
  by (auto simp: part_ok_def partly_def wb_advance_def split: list.splits)

lemma set_wb_list_same [simp]: "set_wb_list p (wb_list p s) s = s" "wb_list p (set_wb_list p l s) = l"
    "set_wb_list p l (set_wb_list p l' s) = set_wb_list p l s"
    "wb_list p (s\<lparr>sk_wb_size := z\<rparr>) = wb_list p s"
    "(set_wb_list p l s)\<lparr>sk_wb_size := z\<rparr> = set_wb_list p l (s\<lparr>sk_wb_size := z\<rparr>)"
    "sk_wb_size (set_wb_list p l s) = sk_wb_size s" "sk_fd (set_wb_list p l s) = sk_fd s"
  by (cases p; simp add: set_wb_list_def wb_list_def)+

lemma restrict_UNIV [simp]: "m |` UNIV = m"
  by (simp add: restrict_map_def)

lemma drained_none: "wb_list p (ss_slot ss i) = l \<Longrightarrow> drained i p [] 0 l [] t ss = ss\<lparr>ss_time := t\<rparr>"
  by (auto simp: drained_def)

lemma drained_tick: "drained i p dn n l acts t (tick ss) = drained i p dn n l acts t ss"
  by (simp add: drained_def tick_def)

lemma drained_part:
  assumes "wb_list p (ss_slot ss i) = b # bs" "n \<le> length (wb_bytes b)"
  shows "drained i p [] n (b # bs) [Write fd (take n (wb_bytes b))] (ss_time ss + 1) ss =
    put_socket i (set_wb_list p (wb_advance n b # bs) ((ss_slot ss i)\<lparr>sk_wb_size := sk_wb_size (ss_slot ss i) - int n\<rparr>))
      (tick (act (Write fd (take n (wb_bytes b))) ss))"
  using assms by (simp add: drained_def partly_def put_socket_def tick_def act_def)

text \<open>One whole buffer, then the rest.\<close>

definition sent_whole :: "nat \<Rightarrow> priority \<Rightarrow> write_buffer \<Rightarrow> write_buffer list \<Rightarrow> socket_server \<Rightarrow> socket_server" where
  "sent_whole i p b bs ss =
     (let s = ss_slot ss i in
      (put_socket i (set_wb_list p bs (s\<lparr>sk_wb_size := sk_wb_size s - int (length (wb_bytes b))\<rparr>))
        (tick (act (Write (sk_fd s) (wb_bytes b)) ss)))\<lparr>ss_mem := (ss_mem ss)(wb_buffer b := None)\<rparr>)"

lemma sent_whole_simps [simp]:
  "wb_list p (ss_slot (sent_whole i p b bs ss) i) = bs" "ss_time (sent_whole i p b bs ss) = ss_time ss + 1"
  "ss_mem (sent_whole i p b bs ss) = (ss_mem ss)(wb_buffer b := None)" "sk_fd (ss_slot (sent_whole i p b bs ss) i) = sk_fd (ss_slot ss i)"
  by (simp_all add: sent_whole_def Let_def put_socket_def tick_def act_def)

lemma drained_whole:
  "drained i p dn n l acts t (sent_whole i p b bs ss) =
     drained i p (b # dn) n l (Write (sk_fd (ss_slot ss i)) (wb_bytes b) # acts) t ss"
proof -
  have "(ss_mem ss)(wb_buffer b := None) |` (- bufs dn) = ss_mem ss |` (- bufs (b # dn))"
    by (simp only: restrict_insert bufs_simps)
  then show ?thesis
    by (simp add: drained_def sent_whole_def Let_def put_socket_def tick_def act_def algebra_simps del: bufs_simps)
qed

lemma writes_ConsI: "writes fd acts bs \<Longrightarrow> writes fd (Write fd cs # acts) (cs @ bs)"
  by (auto simp: writes_def written_def)


text \<open>
  What the loop does, by induction on the buffers and on the time of the next answer that is not an
  interruption.
\<close>

definition drains :: "os \<Rightarrow> nat \<Rightarrow> priority \<Rightarrow> write_buffer list \<Rightarrow> socket_server \<Rightarrow> bool" where
  "drains os i p wbs ss \<longleftrightarrow> (\<exists>dn n l acts t. wbs = dn @ l \<and> part_ok n l
     \<and> writes (sk_fd (ss_slot ss i)) acts (unsent dn @ take n (unsent l))
     \<and> (send_list_tcp os i p ss = Some (None, drained i p dn n l acts t ss)
        \<or> n = 0 \<and> send_list_tcp os i p ss = map_option (closed SOCKET_CLOSE) (force_close i (drained i p dn 0 l acts t ss))))"

lemma drains_stop:
  assumes "send_list_tcp os i p ss = Some (None, ss\<lparr>ss_time := t\<rparr>)
      \<or> send_list_tcp os i p ss = map_option (closed SOCKET_CLOSE) (force_close i (ss\<lparr>ss_time := t\<rparr>))"
    "wb_list p (ss_slot ss i) = wbs"
  shows "drains os i p wbs ss"
  unfolding drains_def using assms
  by (intro exI [of _ "[]"] exI [of _ 0] exI [of _ wbs] exI [of _ "[]"] exI [of _ t]) (auto simp: drained_none writes_simps)

lemma drains_wait:
  assumes "drains os i p wbs (tick ss)" "send_list_tcp os i p ss = send_list_tcp os i p (tick ss)"
  shows "drains os i p wbs ss"
  using assms by (simp add: drains_def drained_tick) (simp add: tick_def)

lemma drains_whole:
  assumes "drains os i p bs (sent_whole i p b bs ss)" "send_list_tcp os i p ss = send_list_tcp os i p (sent_whole i p b bs ss)"
  shows "drains os i p (b # bs) ss"
proof -
  let ?ss = "sent_whole i p b bs ss"
  obtain dn n l acts t where d: "bs = dn @ l" "part_ok n l" "writes (sk_fd (ss_slot ss i)) acts (unsent dn @ take n (unsent l))"
    "send_list_tcp os i p ?ss = Some (None, drained i p dn n l acts t ?ss)
        \<or> n = 0 \<and> send_list_tcp os i p ?ss = map_option (closed SOCKET_CLOSE) (force_close i (drained i p dn 0 l acts t ?ss))"
    using assms(1) by (simp only: drains_def sent_whole_simps) blast
  let ?acts = "Write (sk_fd (ss_slot ss i)) (wb_bytes b) # acts"
  have "writes (sk_fd (ss_slot ss i)) ?acts (unsent (b # dn) @ take n (unsent l))"
    using writes_ConsI [OF d(3)] by simp
  moreover have "b # bs = (b # dn) @ l" by (simp add: d(1))
  ultimately show ?thesis using d(2,4) unfolding drains_def assms(2) drained_whole by blast
qed

lemma drains_now:
  assumes l: "wb_list p (ss_slot ss i) = b # bs" and h: "held (ss_mem ss) b"
    and e: "os_write os (ss_time ss) \<noteq> Inl EINTR" and rest: "drains os i p bs (sent_whole i p b bs ss)"
  shows "drains os i p (b # bs) ss"
proof (cases "os_write os (ss_time ss)")
  case (Inl err)
  with e l have "send_list_tcp os i p ss = (if err = EAGAIN then Some (None, tick ss) else map_option (closed SOCKET_CLOSE) (force_close i (tick ss)))"
    by (subst send_list_tcp.simps) (simp add: sys_write_def Let_def)
  then show ?thesis using l by (intro drains_stop [of _ _ _ _ "ss_time ss + 1"]) (auto simp: tick_def)
next
  case (Inr m)
  define n where "n = length (take m (wb_bytes b))"
  have n: "take m (wb_bytes b) = take n (wb_bytes b)" "n \<le> length (wb_bytes b)" by (simp_all add: n_def min_def)
  let ?a = "Write (sk_fd (ss_slot ss i)) (take n (wb_bytes b))"
  have w: "sys_write os (sk_fd (ss_slot ss i)) (wb_bytes b) ss = (Inr n, tick (act ?a ss))"
    by (simp add: sys_write_def Inr n(1) [symmetric]) (simp add: n_def)
  have slot: "ss_slot (tick (act a ss)) = ss_slot ss" for a by (simp add: tick_def act_def)
  show ?thesis
  proof (cases "n = length (wb_bytes b)")
    case False
    then have "send_list_tcp os i p ss = Some (None, drained i p [] n (b # bs) [?a] (ss_time ss + 1) ss)"
      unfolding drained_part [OF l n(2)] using l n(2) by (subst send_list_tcp.simps) (simp add: w wb_sz_def Let_def slot)
    moreover have "writes (sk_fd (ss_slot ss i)) [?a] (unsent [] @ take n (unsent (b # bs)))"
      using n(2) by (simp add: writes_simps)
    moreover have "part_ok n (b # bs)" using n(2) by (simp add: part_ok_def)
    ultimately show ?thesis unfolding drains_def by (metis append_Nil)
  next
    case True
    have "send_list_tcp os i p ss = send_list_tcp os i p (sent_whole i p b bs ss)"
      using l True h by (subst send_list_tcp.simps)
        (simp add: w wb_sz_def write_buffer_free_held Let_def put_socket_def sent_whole_def tick_def act_def)
    with rest show ?thesis by (intro drains_whole)
  qed
qed

lemma send_list_tcp_drains:
  assumes "writes_end os" "wb_list p (ss_slot ss i) = wbs" "buffers_ok (ss_mem ss) wbs"
  shows "drains os i p wbs ss"
  using assms(2,3)
proof (induction wbs arbitrary: ss)
  case Nil
  then show ?case
    by (intro drains_stop [of _ _ _ _ "ss_time ss"]) (simp_all add: send_list_tcp.simps)
next
  case (Cons b bs)
  have now: "drains os i p (b # bs) ss"
    if "wb_list p (ss_slot ss i) = b # bs" "buffers_ok (ss_mem ss) (b # bs)" "os_write os (ss_time ss) \<noteq> Inl EINTR" for ss
  proof -
    have "buffers_ok ((ss_mem ss)(wb_buffer b := None)) bs"
      using that(2) by (subst buffers_ok_cong [of _ _ "ss_mem ss"]) (auto simp: buffers_ok_Cons)
    then have "drains os i p bs (sent_whole i p b bs ss)" by (intro Cons.IH) (simp_all only: sent_whole_simps)
    with that show ?thesis by (intro drains_now) (auto simp: buffers_ok_Cons)
  qed
  have "\<exists>d. os_write os (ss_time ss + d) \<noteq> Inl EINTR"
    using assms(1) by (metis writes_end_def nat_le_iff_add)
  then obtain d where "os_write os (ss_time ss + d) \<noteq> Inl EINTR" by blast
  with Cons.prems show ?case
  proof (induction d arbitrary: ss)
    case 0
    then show ?case by (intro now) simp_all
  next
    case (Suc d)
    show ?case
    proof (cases "os_write os (ss_time ss) = Inl EINTR")
      case True
      then have "send_list_tcp os i p ss = send_list_tcp os i p (tick ss)"
        using Suc.prems(1) by (subst send_list_tcp.simps) (simp add: sys_write_def)
      moreover have "drains os i p (b # bs) (tick ss)"
        using Suc.prems by (intro Suc.IH) (simp_all add: tick_def)
      ultimately show ?thesis by (rule drains_wait [rotated])
    next
      case False
      with Suc.prems show ?thesis by (intro now)
    qed
  qed
qed

end
