(* ===== verification/Socket_Stream.thy ===== *)
theory Socket_Stream
  imports Socket_Flush
begin

text \<open>
  The bytes of a TCP socket: what is written to it, followed by what its buffers hold. Only the first buffer
  is partly sent, and the buffers of low priority are complete, so no message is torn. The socket
  thread keeps the stream while it empties the buffers.
\<close>

section \<open>A socket in order\<close>

definition pending :: "socket_server \<Rightarrow> socket \<Rightarrow> u8 list" where
  "pending ss s = unsent (sock_bufs ss s)"

definition whole :: "write_buffer list \<Rightarrow> bool" where
  "whole wbs \<longleftrightarrow> (\<forall>wb \<in> set wbs. wb_off wb = 0)"

definition based :: "write_buffer list \<Rightarrow> bool" where
  "based wbs \<longleftrightarrow> (\<forall>wb \<in> set wbs. wb_base wb = wb_buffer wb)"

definition sock_ok :: "socket_server \<Rightarrow> socket \<Rightarrow> bool" where
  "sock_ok ss s \<longleftrightarrow> sock_held ss s \<and> sk_wb_size s = int (length (unsent (sk_high s @ sk_low s)))
     \<and> whole (tl (sock_bufs ss s)) \<and> whole (sk_low s) \<and> based (sk_low s)"

definition same_conn :: "socket \<Rightarrow> socket \<Rightarrow> bool" where
  "same_conn s s' \<longleftrightarrow> sk_fd s' = sk_fd s \<and> sk_id s' = sk_id s \<and> sk_protocol s' = sk_protocol s \<and> sk_type s' = sk_type s
     \<and> sk_opaque s' = sk_opaque s \<and> sk_sending s' = sk_sending s \<and> sk_udpconnecting s' = sk_udpconnecting s"

definition quiet :: "int \<Rightarrow> action list \<Rightarrow> bool" where
  "quiet fd acts \<longleftrightarrow> (\<forall>a \<in> set acts. (\<exists>bs. a = Write fd bs) \<or> (\<exists>b. a = PollWrite fd b))"

text \<open>
  Some of the buffers of slot \<open>i\<close> were written: the stream is the same, and what is no longer buffered is freed.
\<close>

definition progress :: "nat \<Rightarrow> socket_server \<Rightarrow> socket_server \<Rightarrow> bool" where
  "progress i ss ss' \<longleftrightarrow> (\<exists>acts s'. ss_slot ss' = (ss_slot ss)(i := s') \<and> same_conn (ss_slot ss i) s'
     \<and> ss_trace ss' = ss_trace ss @ acts \<and> quiet (sk_fd s') acts
     \<and> written (sk_fd s') acts @ pending ss' s' = pending ss (ss_slot ss i)
     \<and> bufs (sock_bufs ss' s') \<subseteq> bufs (sock_bufs ss (ss_slot ss i))
     \<and> ss_mem ss' = ss_mem ss |` (- (bufs (sock_bufs ss (ss_slot ss i)) - bufs (sock_bufs ss' s')))
     \<and> ss_pipe ss' = ss_pipe ss \<and> sock_ok ss' s' \<and> (sk_low (ss_slot ss i) = [] \<longrightarrow> sk_low s' = []))"

lemma same_conn_refl [simp]: "same_conn s s"
  by (simp add: same_conn_def)

lemma same_conn_trans: "same_conn s s' \<Longrightarrow> same_conn s' s'' \<Longrightarrow> same_conn s s''"
  by (simp add: same_conn_def)

lemma progress_refl: "sock_ok ss (ss_slot ss i) \<Longrightarrow> progress i ss ss"
  unfolding progress_def by (intro exI [of _ "[]"] exI [of _ "ss_slot ss i"]) (simp add: quiet_def)

lemma progress_trans:
  assumes "progress i ss ss1" "progress i ss1 ss2"
  shows "progress i ss ss2"
proof -
  obtain acts1 s1 where 1: "ss_slot ss1 = (ss_slot ss)(i := s1)" "same_conn (ss_slot ss i) s1" "ss_trace ss1 = ss_trace ss @ acts1"
    "quiet (sk_fd s1) acts1" "written (sk_fd s1) acts1 @ pending ss1 s1 = pending ss (ss_slot ss i)"
    "bufs (sock_bufs ss1 s1) \<subseteq> bufs (sock_bufs ss (ss_slot ss i))"
    "ss_mem ss1 = ss_mem ss |` (- (bufs (sock_bufs ss (ss_slot ss i)) - bufs (sock_bufs ss1 s1)))" "ss_pipe ss1 = ss_pipe ss"
    "sk_low (ss_slot ss i) = [] \<longrightarrow> sk_low s1 = []"
    using assms(1) unfolding progress_def by blast
  then have e: "ss_slot ss1 i = s1" by simp
  obtain acts2 s2 where 2: "ss_slot ss2 = (ss_slot ss1)(i := s2)" "same_conn s1 s2" "ss_trace ss2 = ss_trace ss1 @ acts2"
    "quiet (sk_fd s2) acts2" "written (sk_fd s2) acts2 @ pending ss2 s2 = pending ss1 s1"
    "bufs (sock_bufs ss2 s2) \<subseteq> bufs (sock_bufs ss1 s1)"
    "ss_mem ss2 = ss_mem ss1 |` (- (bufs (sock_bufs ss1 s1) - bufs (sock_bufs ss2 s2)))" "ss_pipe ss2 = ss_pipe ss1" "sock_ok ss2 s2"
    "sk_low s1 = [] \<longrightarrow> sk_low s2 = []"
    using assms(2) unfolding progress_def e by blast
  have fd: "sk_fd s2 = sk_fd s1" using 2(2) by (simp add: same_conn_def)
  show ?thesis
    unfolding progress_def
  proof (intro exI [of _ "acts1 @ acts2"] exI [of _ s2] conjI)
    show "ss_slot ss2 = (ss_slot ss)(i := s2)" by (simp add: 1 2)
    show "same_conn (ss_slot ss i) s2" by (rule same_conn_trans [OF 1(2) 2(2)])
    show "ss_trace ss2 = ss_trace ss @ (acts1 @ acts2)" by (simp add: 1 2)
    show "quiet (sk_fd s2) (acts1 @ acts2)" using 1(4) 2(4) by (auto simp: quiet_def fd)
    show "written (sk_fd s2) (acts1 @ acts2) @ pending ss2 s2 = pending ss (ss_slot ss i)"
      using 1(5) 2(5) by (simp add: fd)
    show "bufs (sock_bufs ss2 s2) \<subseteq> bufs (sock_bufs ss (ss_slot ss i))" using 1(6) 2(6) by blast
    show "ss_mem ss2 = ss_mem ss |` (- (bufs (sock_bufs ss (ss_slot ss i)) - bufs (sock_bufs ss2 s2)))"
      unfolding 2(7) 1(7) using 1(6) 2(6) by (auto simp: restrict_map_def fun_eq_iff)
    show "ss_pipe ss2 = ss_pipe ss" by (simp add: 1 2)
    show "sock_ok ss2 s2" by (rule 2(9))
    show "sk_low (ss_slot ss i) = [] \<longrightarrow> sk_low s2 = []" using 1(9) 2(10) by blast
  qed
qed

section \<open>The buffer of a direct write\<close>

definition insert_direct :: "nat \<Rightarrow> socket_server \<Rightarrow> socket_server" where
  "insert_direct i ss =
     (let s = ss_slot ss i in
      if sk_dw_buffer s = 0 then ss
      else case dw_write_buffer ss s of
        None \<Rightarrow> ss
      | Some buf \<Rightarrow> put_socket i (s\<lparr>sk_wb_size := sk_wb_size s + wb_sz buf, sk_high := buf # sk_high s, sk_dw_buffer := 0\<rparr>) ss)"

lemma send_buffer_direct:
  assumes "sock_held ss (ss_slot ss i)"
  shows "send_buffer os i ss = send_buffer_rest os i (insert_direct i ss)"
  using assms by (auto simp: send_buffer_def insert_direct_def sock_held_def Let_def split: option.splits)

lemma sock_bufs_0: "sk_dw_buffer s = 0 \<Longrightarrow> sock_bufs ss s = sk_high s @ sk_low s"
  by (simp add: sock_bufs_def direct_def)

lemma insert_direct_progress:
  assumes "sock_ok ss (ss_slot ss i)"
  shows "progress i ss (insert_direct i ss) \<and> sk_dw_buffer (ss_slot (insert_direct i ss) i) = 0"
proof (cases "sk_dw_buffer (ss_slot ss i) = 0")
  case True
  then have "insert_direct i ss = ss" by (simp add: insert_direct_def)
  with True show ?thesis by (simp add: progress_refl assms)
next
  case False
  define s where "s = ss_slot ss i"
  from False assms obtain b where b: "dw_write_buffer ss s = Some b" by (auto simp: s_def sock_ok_def sock_held_def)
  define s' where "s' = s\<lparr>sk_wb_size := sk_wb_size s + wb_sz b, sk_high := b # sk_high s, sk_dw_buffer := 0\<rparr>"
  have i: "insert_direct i ss = put_socket i s' ss" using False b by (simp add: insert_direct_def s'_def s_def Let_def)
  have bufs: "sock_bufs ss s = b # sk_high s @ sk_low s" "\<And>ss. sock_bufs ss s' = b # sk_high s @ sk_low s"
    using False b by (simp_all add: sock_bufs_def direct_def s_def [symmetric], simp add: s'_def)
  have "progress i ss (put_socket i s' ss)"
    unfolding progress_def s_def [symmetric]
  proof (intro exI [of _ "[]"] exI [of _ s'] conjI)
    show "same_conn s s'" by (simp add: same_conn_def s'_def)
    show "sock_ok (put_socket i s' ss) s'"
      using assms unfolding s_def [symmetric] sock_ok_def sock_held_def bufs by (simp add: s'_def put_socket_def wb_sz_def)
  qed (simp_all add: put_socket_def quiet_def pending_def bufs, simp add: s'_def)
  then show ?thesis unfolding i by (simp add: put_socket_def s'_def)
qed

section \<open>Emptying the lists\<close>

lemma quiet_writes: "writes fd acts bs \<Longrightarrow> quiet fd acts"
  by (auto simp: writes_def quiet_def)

lemma bufs_partly [simp]: "bufs (partly n l) = bufs l"
  by (cases l) (simp_all add: partly_def wb_advance_def)

lemma held_advance [simp]: "held mem (wb_advance n b) = held mem b"
  by (simp add: held_def wb_advance_def split: option.splits memobj.splits)

lemma buffers_ok_partly [simp]: "buffers_ok mem (partly n l) = buffers_ok mem l"
  by (cases l) (simp_all add: partly_def buffers_ok_Cons, simp add: wb_advance_def)

lemma tl_partly [simp]: "tl (partly n l) = tl l"
  by (simp add: partly_def split: list.splits)

lemma partly_append: "partly n (xs @ ys) = (if xs = [] then partly n ys else partly n xs @ ys)"
  by (cases xs) (simp_all add: partly_def)

lemma whole_append [simp]: "whole (xs @ ys) \<longleftrightarrow> whole xs \<and> whole ys"
  by (auto simp: whole_def)

lemma based_append [simp]: "based (xs @ ys) \<longleftrightarrow> based xs \<and> based ys"
  by (auto simp: based_def)

lemma whole_tl: "whole l \<Longrightarrow> whole (tl l)"
  by (cases l) (auto simp: whole_def)

lemma drained_progress:
  assumes ok: "sock_ok ss (ss_slot ss i)" and dw: "sk_dw_buffer (ss_slot ss i) = 0"
    and l: "sk_high (ss_slot ss i) @ sk_low (ss_slot ss i) = dn @ l" and n: "part_ok n l"
    and w: "writes (sk_fd (ss_slot ss i)) acts (unsent dn @ take n (unsent l))"
    and s': "s' = (ss_slot ss i)\<lparr>sk_high := h', sk_low := l', sk_wb_size := sk_wb_size (ss_slot ss i) - int (length (unsent dn) + n)\<rparr>"
    and l': "h' @ l' = partly n l" "whole l'" "based l'" "sk_low (ss_slot ss i) = [] \<Longrightarrow> l' = []"
    and ss': "ss_slot ss' = (ss_slot ss)(i := s')" "ss_trace ss' = ss_trace ss @ acts" "ss_mem ss' = ss_mem ss |` (- bufs dn)"
      "ss_pipe ss' = ss_pipe ss"
  shows "progress i ss ss'"
proof -
  define s where "s = ss_slot ss i"
  have b: "sock_bufs ss s = dn @ l" "sock_bufs ss' s' = partly n l"
    using dw l l' by (simp_all add: s_def sock_bufs_0 s')
  have bo: "buffers_ok (ss_mem ss) (dn @ l)" using ok by (simp add: sock_ok_def sock_held_def s_def [symmetric] b)
  then have d: "bufs dn \<inter> bufs l = {}" by (simp add: buffers_ok_append)
  have len: "n \<le> length (unsent l)" using n by (auto simp: part_ok_def split: list.splits)
  have "sk_wb_size s = int (length (unsent dn) + length (unsent l))"
    using ok arg_cong [OF l, of "\<lambda>l. length (unsent l)"] by (simp add: sock_ok_def s_def [symmetric])
  then have size: "sk_wb_size s' = int (length (unsent (sk_high s' @ sk_low s')))"
    using len unsent_partly [OF n] by (simp add: s' s_def [symmetric] l')
  have "whole (tl l)"
    using ok whole_tl by (cases dn) (auto simp: sock_ok_def s_def [symmetric] b)
  then have "sock_ok ss' s'"
    using size bo d l' dw unfolding sock_ok_def sock_held_def b
    by (simp add: buffers_ok_append ss' buffers_ok_restrict Int_commute) (simp add: s')
  moreover have "ss_mem ss' = ss_mem ss |` (- (bufs (dn @ l) - bufs (partly n l)))"
    using d unfolding ss' by (auto simp: restrict_map_def fun_eq_iff)
  moreover have "written (sk_fd s') acts @ pending ss' s' = pending ss s"
  proof -
    have "sk_fd s' = sk_fd (ss_slot ss i)" by (simp add: s')
    then show ?thesis
      using w unsent_partly [OF n] append_take_drop_id [of n "unsent l"] by (simp add: pending_def b writes_def)
  qed
  ultimately show ?thesis
    unfolding progress_def s_def [symmetric] b(1)
    by (intro exI [of _ acts] exI [of _ s'] conjI)
      (use b w l' in \<open>auto simp: ss' s' s_def same_conn_def dest: quiet_writes\<close>)
qed

lemma direct_cong:
  assumes "ss_mem ss' = ss_mem ss" "sk_dw_buffer s' = sk_dw_buffer s" "sk_dw_size s' = sk_dw_size s" "sk_dw_offset s' = sk_dw_offset s"
  shows "dw_write_buffer ss' s' = dw_write_buffer ss s" "direct ss' s' = direct ss s"
  using assms by (simp_all add: direct_def dw_write_buffer_def dw_size_int_def send_object_init_def)

lemma quiet_progress:
  assumes "sock_ok ss (ss_slot ss i)" "ss_mem ss' = ss_mem ss" "ss_pipe ss' = ss_pipe ss"
    "ss_trace ss' = ss_trace ss @ [PollWrite (sk_fd (ss_slot ss i)) b]"
    "ss_slot ss' = (ss_slot ss)(i := (ss_slot ss i)\<lparr>sk_warn_size := z\<rparr>)"
  shows "progress i ss ss'"
proof -
  define s s' where "s = ss_slot ss i" and "s' = s\<lparr>sk_warn_size := z\<rparr>"
  note d = direct_cong [of ss' ss s' s, OF assms(2)]
  have b: "sock_bufs ss' s' = sock_bufs ss s" "sock_ok ss' s' = sock_ok ss s"
    using d by (simp_all add: sock_bufs_def sock_ok_def sock_held_def s'_def assms(2))
  have "same_conn s s'" by (simp add: same_conn_def s'_def)
  then show ?thesis
    unfolding progress_def s_def [symmetric]
    by (intro exI [of _ "[PollWrite (sk_fd s) b]"] exI [of _ s'] conjI)
      (use assms b in \<open>auto simp: quiet_def pending_def s_def [symmetric], simp_all add: s'_def s_def\<close>)
qed

text \<open>How writing can end: nothing to report, a warning that is over, or a closed socket.\<close>

definition ends :: "nat \<Rightarrow> socket_server \<Rightarrow> (outcome \<times> socket_server) option \<Rightarrow> bool" where
  "ends i ss x \<longleftrightarrow> (\<exists>ss1. progress i ss ss1 \<and>
     (x = Some (None, ss1) \<or> (\<exists>m. x = Some (Some (SOCKET_WARNING, m), ss1)) \<or> x = map_option (closed SOCKET_CLOSE) (force_close i ss1)))"

lemma ends_progress: "progress i ss ss1 \<Longrightarrow> ends i ss1 x \<Longrightarrow> ends i ss x"
  unfolding ends_def by (elim exE conjE, rule exI, rule conjI, erule (1) progress_trans)

lemma ends_SomeI: "progress i ss ss1 \<Longrightarrow> ends i ss (Some (None, ss1))"
  unfolding ends_def by blast

lemma ends_closeI: "progress i ss ss1 \<Longrightarrow> ends i ss (map_option (closed SOCKET_CLOSE) (force_close i ss1))"
  unfolding ends_def by blast

lemma send_buffer_done_ends:
  assumes "sock_ok ss (ss_slot ss i)" "send_buffer_empty (ss_slot ss i)"
  shows "ends i ss (send_buffer_done i ss)"
proof -
  define s where "s = ss_slot ss i"
  let ?ss = "act (PollWrite (sk_fd s) False) ss"
  have z: "sk_wb_size s = 0" using assms by (simp add: sock_ok_def send_buffer_empty_def s_def)
  have "progress i ss ?ss"
    by (rule quiet_progress [where b = False and z = "sk_warn_size s"]) (simp_all add: assms(1), simp_all add: act_def s_def)
  moreover have "progress i ss (put_socket i (s\<lparr>sk_warn_size := 0\<rparr>) ?ss)"
    by (rule quiet_progress [where b = False and z = 0]) (simp_all add: assms(1), simp_all add: act_def put_socket_def s_def)
  ultimately show ?thesis
    unfolding send_buffer_done_def s_def [symmetric] Let_def using assms(2) z
    by (simp add: s_def [symmetric]) (auto simp: ends_def)
qed

lemma part_ok_append: "part_ok n l \<Longrightarrow> part_ok n (l @ l')"
  by (cases l) (simp_all add: part_ok_def split: list.splits)

lemma take_unsent_append: "part_ok n l \<Longrightarrow> take n (unsent l @ bs) = take n (unsent l)"
  by (cases l) (auto simp: part_ok_def)

lemma set_wb_list_fields: "set_wb_list High l s = s\<lparr>sk_high := l\<rparr>" "set_wb_list Low l s = s\<lparr>sk_low := l\<rparr>"
    "wb_list High s = sk_high s" "wb_list Low s = sk_low s"
  by (simp_all add: set_wb_list_def wb_list_def)

lemma drained_simps [simp]:
  "ss_trace (drained i p dn n l acts t ss) = ss_trace ss @ acts" "ss_mem (drained i p dn n l acts t ss) = ss_mem ss |` (- bufs dn)"
  "ss_pipe (drained i p dn n l acts t ss) = ss_pipe ss"
  "ss_slot (drained i p dn n l acts t ss) = (ss_slot ss)(i := set_wb_list p (partly n l)
     ((ss_slot ss i)\<lparr>sk_wb_size := sk_wb_size (ss_slot ss i) - int (length (unsent dn) + n)\<rparr>))"
  by (simp_all add: drained_def)

lemma send_high:
  assumes os: "writes_end os" and ok: "sock_ok ss (ss_slot ss i)" and dw: "sk_dw_buffer (ss_slot ss i) = 0"
    and tcp: "sk_protocol (ss_slot ss i) = PROTOCOL_TCP"
  obtains ss1 where "progress i ss ss1" "sk_dw_buffer (ss_slot ss1 i) = 0"
    "send_list os i High ss = Some (None, ss1) \<or> send_list os i High ss = map_option (closed SOCKET_CLOSE) (force_close i ss1)"
proof -
  define s where "s = ss_slot ss i"
  have "buffers_ok (ss_mem ss) (sk_high s @ sk_low s)"
    using ok dw by (simp add: sock_ok_def sock_held_def s_def sock_bufs_0)
  then have "drains os i High (sk_high s) ss"
    by (intro send_list_tcp_drains [OF os]) (simp_all add: set_wb_list_fields s_def buffers_ok_append)
  then obtain dn n l acts t where d: "sk_high s = dn @ l" "part_ok n l" "writes (sk_fd s) acts (unsent dn @ take n (unsent l))"
    "send_list os i High ss = Some (None, drained i High dn n l acts t ss)
      \<or> n = 0 \<and> send_list os i High ss = map_option (closed SOCKET_CLOSE) (force_close i (drained i High dn 0 l acts t ss))"
    unfolding drains_def send_list_def if_P [OF tcp] s_def by blast
  let ?ss = "drained i High dn n l acts t ss"
  have "progress i ss ?ss"
  proof (rule drained_progress [where h' = "partly n l" and l' = "sk_low s", OF ok dw])
    show "sk_high (ss_slot ss i) @ sk_low (ss_slot ss i) = dn @ (l @ sk_low s)" using d(1) by (simp add: s_def)
    show "part_ok n (l @ sk_low s)" using d(2) by (rule part_ok_append)
    show "writes (sk_fd (ss_slot ss i)) acts (unsent dn @ take n (unsent (l @ sk_low s)))"
      using d(3) by (simp only: unsent_simps take_unsent_append [OF d(2)] s_def)
    show "partly n l @ sk_low s = partly n (l @ sk_low s)"
    proof (cases "l = []")
      case True with d(2) have "n = 0" by (simp add: part_ok_def)
      with True show ?thesis by simp
    qed (simp add: partly_append)
    show "whole (sk_low s)" "based (sk_low s)" using ok by (simp_all add: sock_ok_def s_def)
    show "ss_slot ?ss = (ss_slot ss)(i := s\<lparr>sk_high := partly n l, sk_low := sk_low s,
        sk_wb_size := sk_wb_size s - int (length (unsent dn) + n)\<rparr>)"
      by (simp add: set_wb_list_fields s_def, cases "ss_slot ss i", simp)
  qed (simp_all add: s_def)
  moreover have "sk_dw_buffer (ss_slot ?ss i) = 0" using dw by (simp add: set_wb_list_fields)
  ultimately show thesis using d(4) that by blast
qed

lemma list_uncomplete_partly:
  "whole l \<Longrightarrow> based l \<Longrightarrow> list_uncomplete (partly n l) \<longleftrightarrow> l \<noteq> [] \<and> n \<noteq> 0"
  by (cases l) (simp_all add: list_uncomplete_def partly_def wb_advance_def whole_def based_def)

lemma send_low:
  assumes os: "writes_end os" and ok: "sock_ok ss (ss_slot ss i)" and dw: "sk_dw_buffer (ss_slot ss i) = 0"
    and tcp: "sk_protocol (ss_slot ss i) = PROTOCOL_TCP" and high: "sk_high (ss_slot ss i) = []"
  obtains ss1 where "progress i ss ss1"
      "send_list os i Low ss = map_option (closed SOCKET_CLOSE) (force_close i ss1)"
  | ss1 ss2 where "send_list os i Low ss = Some (None, ss1)" "list_uncomplete (sk_low (ss_slot ss1 i))"
      "raise_uncomplete i ss1 = Some ss2" "progress i ss ss2"
  | ss1 where "send_list os i Low ss = Some (None, ss1)" "\<not> list_uncomplete (sk_low (ss_slot ss1 i))"
      "progress i ss ss1" "sk_high (ss_slot ss1 i) = []"
proof -
  define s where "s = ss_slot ss i"
  have low: "buffers_ok (ss_mem ss) (sk_low s)" "whole (sk_low s)" "based (sk_low s)"
    using ok dw high by (simp_all add: sock_ok_def sock_held_def s_def sock_bufs_0)
  then have "drains os i Low (sk_low s) ss"
    by (intro send_list_tcp_drains [OF os]) (simp_all add: set_wb_list_fields s_def)
  then obtain dn n l acts t where d: "sk_low s = dn @ l" "part_ok n l" "writes (sk_fd s) acts (unsent dn @ take n (unsent l))"
    "send_list os i Low ss = Some (None, drained i Low dn n l acts t ss)
      \<or> n = 0 \<and> send_list os i Low ss = map_option (closed SOCKET_CLOSE) (force_close i (drained i Low dn 0 l acts t ss))"
    unfolding drains_def send_list_def if_P [OF tcp] s_def by blast
  have l: "whole l" "based l" using low by (simp_all add: d(1))
  let ?ss = "drained i Low dn n l acts t ss"
  let ?s = "s\<lparr>sk_wb_size := sk_wb_size s - int (length (unsent dn) + n)\<rparr>"
  have slot: "ss_slot ?ss i = ?s\<lparr>sk_low := partly n l\<rparr>" by (simp add: set_wb_list_fields s_def)
  note prog = drained_progress [OF ok dw _ d(2), of dn acts, folded s_def, OF _ d(3)]
  have hl: "sk_high s @ sk_low s = dn @ l" using high d(1) by (simp add: s_def)
  show thesis
  proof (cases "list_uncomplete (partly n l)")
    case False
    then have "l = [] \<or> n = 0" using list_uncomplete_partly [OF l] by blast
    then have p: "partly n l = l" by (cases l) (auto simp: partly_def)
    have "progress i ss ?ss"
      by (rule prog [where h' = "[]" and l' = l, OF hl refl]) (use p l high in \<open>simp_all add: set_wb_list_fields s_def d(1) [unfolded s_def], cases "ss_slot ss i", simp\<close>)
    moreover have "sk_high (ss_slot ?ss i) = []" using high by (simp add: set_wb_list_fields)
    moreover have "\<not> list_uncomplete (sk_low (ss_slot ?ss i))" using False by (simp add: set_wb_list_fields)
    ultimately show thesis using d(4) that(1,3) by blast
  next
    case True
    then obtain b bs where b: "l = b # bs" "n \<noteq> 0" using list_uncomplete_partly [OF l] by (cases l) auto
    define ss2 where "ss2 = put_socket i (?s\<lparr>sk_high := [wb_advance n b], sk_low := bs\<rparr>) ?ss"
    have "raise_uncomplete i ?ss = Some ss2"
      unfolding raise_uncomplete_def Let_def slot using high by (simp add: b partly_def ss2_def s_def, cases "ss_slot ss i", simp)
    moreover have "progress i ss ss2"
      by (rule prog [where h' = "[wb_advance n b]" and l' = bs, OF hl refl])
        (use l high in \<open>simp_all add: b partly_def ss2_def put_socket_def s_def whole_def based_def d(1) [unfolded s_def], cases "ss_slot ss i", simp\<close>)
    moreover have "list_uncomplete (sk_low (ss_slot ?ss i))" using True by (simp add: set_wb_list_fields)
    ultimately show thesis using d(4) b(2) that(2) by blast
  qed
qed

lemma send_buffer_rest_ends:
  assumes os: "writes_end os" and ok: "sock_ok ss (ss_slot ss i)" and dw: "sk_dw_buffer (ss_slot ss i) = 0"
    and tcp: "sk_protocol (ss_slot ss i) = PROTOCOL_TCP"
  shows "ends i ss (send_buffer_rest os i ss)"
proof -
  have "\<not> list_uncomplete (sk_low (ss_slot ss i))"
    using ok by (auto simp: list_uncomplete_def sock_ok_def whole_def based_def split: list.splits)
  then have rest: "send_buffer_rest os i ss = do {
        (r, ss) \<leftarrow> send_list os i High ss;
        if r \<noteq> None then Some (r, ss)
        else if sk_high (ss_slot ss i) \<noteq> [] then Some (None, ss)
        else if sk_low (ss_slot ss i) = [] then send_buffer_done i ss
        else do {
          (r, ss) \<leftarrow> send_list os i Low ss;
          if r \<noteq> None then Some (r, ss)
          else if list_uncomplete (sk_low (ss_slot ss i)) then map_option (Pair None) (raise_uncomplete i ss)
          else if sk_low (ss_slot ss i) \<noteq> [] then Some (None, ss)
          else send_buffer_done i ss
        }
      }" by (simp add: send_buffer_rest_def)
  have closing: "Option.bind (map_option (closed SOCKET_CLOSE) x) (\<lambda>(r, ss). if r \<noteq> None then Some (r, ss) else f ss)
      = map_option (closed SOCKET_CLOSE) x" for x f
    by (cases x) (auto simp: closed_def split: prod.splits)
  obtain ss1 where 1: "progress i ss ss1" "sk_dw_buffer (ss_slot ss1 i) = 0"
    "send_list os i High ss = Some (None, ss1) \<or> send_list os i High ss = map_option (closed SOCKET_CLOSE) (force_close i ss1)"
    using send_high [OF assms] by blast
  have ok1: "sock_ok ss1 (ss_slot ss1 i)" and tcp1: "sk_protocol (ss_slot ss1 i) = PROTOCOL_TCP"
    using 1(1) tcp by (auto simp: progress_def same_conn_def)
  from 1(3) show ?thesis
  proof
    assume "send_list os i High ss = map_option (closed SOCKET_CLOSE) (force_close i ss1)"
    then show ?thesis unfolding rest closing using ends_closeI [OF 1(1)] by (simp only: closing)
  next
    assume h: "send_list os i High ss = Some (None, ss1)"
    show ?thesis
    proof (cases "sk_high (ss_slot ss1 i) = [] \<and> sk_low (ss_slot ss1 i) \<noteq> []")
      case False
      then show ?thesis unfolding rest h
        using ends_SomeI [OF 1(1)] ends_progress [OF 1(1) send_buffer_done_ends [OF ok1]]
        by (simp add: send_buffer_empty_def)
    next
      case True
      then have r: "send_buffer_rest os i ss = do {
          (r, ss) \<leftarrow> send_list os i Low ss1;
          if r \<noteq> None then Some (r, ss)
          else if list_uncomplete (sk_low (ss_slot ss i)) then map_option (Pair None) (raise_uncomplete i ss)
          else if sk_low (ss_slot ss i) \<noteq> [] then Some (None, ss)
          else send_buffer_done i ss
        }" unfolding rest h by simp
      have "ends i ss1 (send_buffer_rest os i ss)"
      proof (rule send_low [OF os ok1 1(2) tcp1], goal_cases)
        case 1
        then show ?case using True by simp
      next
        case (2 ss2)
        then show ?case unfolding r using ends_closeI [OF 2(1)] by (simp only: closing)
      next
        case (3 ss2 ss3)
        then show ?case unfolding r using ends_SomeI [OF 3(4)] by simp
      next
        case (4 ss2)
        have "sock_ok ss2 (ss_slot ss2 i)" using 4(3) by (auto simp: progress_def)
        from ends_progress [OF 4(3) send_buffer_done_ends [OF this]] ends_SomeI [OF 4(3)] 4
        show ?case unfolding r by (simp add: send_buffer_empty_def)
      qed
      then show ?thesis by (rule ends_progress [OF 1(1)])
    qed
  qed
qed

text \<open>The socket thread empties the buffers of a TCP socket.\<close>

lemma send_buffer_ends:
  assumes "writes_end os" "sock_ok ss (ss_slot ss i)" "sk_protocol (ss_slot ss i) = PROTOCOL_TCP"
  shows "ends i ss (send_buffer os i ss)"
proof -
  note p = insert_direct_progress [OF assms(2)]
  have "send_buffer os i ss = send_buffer_rest os i (insert_direct i ss)"
    using assms(2) by (intro send_buffer_direct) (simp add: sock_ok_def)
  moreover have "ends i (insert_direct i ss) (send_buffer_rest os i (insert_direct i ss))"
    using p assms(3) by (intro send_buffer_rest_ends [OF assms(1)]) (auto simp: progress_def same_conn_def)
  ultimately show ?thesis using ends_progress [OF conjunct1 [OF p]] by simp
qed

end
