(* ===== verification/Socket_Order.thy ===== *)
theory Socket_Order
  imports Socket_Stream Reach_Spec
begin

text \<open>
  The order of what is sent to a TCP socket. Services send from other threads: directly when
  nothing is waiting, and through the pipe otherwise; the socket thread takes the requests from the pipe and
  empties the buffers. The low half of \<^verbatim>\<open>sending\<close> counts the requests in the pipe, which is what keeps a direct
  write from overtaking them.
\<close>

section \<open>Requests in the pipe\<close>

fun queued :: "int \<Rightarrow> request list \<Rightarrow> (int \<times> addr) list" where
  "queued sid [] = []"
| "queued sid (r # rs) = (case r of Req_D j sz b \<Rightarrow> if j = sid then [(sz, b)] else [] | _ \<Rightarrow> []) @ queued sid rs"

definition low_request :: "int \<Rightarrow> request \<Rightarrow> bool" where
  "low_request sid r = (case r of Req_P j _ _ \<Rightarrow> j = sid | _ \<Rightarrow> False)"

text \<open>The buffer that a request becomes.\<close>

definition object_buffer :: "socket_server \<Rightarrow> int \<times> addr \<Rightarrow> write_buffer" where
  "object_buffer ss q =
     (case send_object_init ss (snd q) (fst q) of
        Some (user, base, bs) \<Rightarrow> \<lparr>wb_buffer = snd q, wb_base = base, wb_off = 0, wb_bytes = bs, wb_userobject = user, wb_udp_address = None\<rparr>
      | None \<Rightarrow> \<lparr>wb_buffer = snd q, wb_base = 0, wb_off = 0, wb_bytes = [], wb_userobject = False, wb_udp_address = None\<rparr>)"

definition sendable :: "socket_server \<Rightarrow> int \<times> addr \<Rightarrow> bool" where
  "sendable ss q \<longleftrightarrow> send_object_init ss (snd q) (fst q) \<noteq> None \<and> held (ss_mem ss) (object_buffer ss q)"

definition pipe_bufs :: "socket_server \<Rightarrow> int \<Rightarrow> write_buffer list" where
  "pipe_bufs ss sid = map (object_buffer ss) (queued sid (ss_pipe ss))"

definition sock_of :: "socket_server \<Rightarrow> int \<Rightarrow> socket" where
  "sock_of ss sid = ss_slot ss (HASH_ID sid)"

definition all_bufs :: "socket_server \<Rightarrow> int \<Rightarrow> write_buffer list" where
  "all_bufs ss sid = sock_bufs ss (sock_of ss sid) @ pipe_bufs ss sid"

definition sending_ok :: "int \<Rightarrow> nat \<Rightarrow> u32 \<Rightarrow> bool" where
  "sending_ok sid n w \<longleftrightarrow> n < 2 ^ 16 \<and> w = push_bit 16 (ID_TAG16 sid) + of_nat n"

definition tcp_inv :: "socket_server \<Rightarrow> int \<Rightarrow> bool" where
  "tcp_inv ss sid \<longleftrightarrow> (let s = sock_of ss sid in
     sk_id s = sid \<and> sk_protocol s = PROTOCOL_TCP \<and> sk_type s = SOCKET_TYPE_CONNECTED \<and> sk_low s = []
     \<and> sending_ok sid (length (queued sid (ss_pipe ss))) (sk_sending s)
     \<and> (\<forall>r \<in> set (ss_pipe ss). \<not> low_request sid r)
     \<and> (\<forall>q \<in> set (queued sid (ss_pipe ss)). sendable ss q)
     \<and> sock_ok ss s \<and> buffers_ok (ss_mem ss) (all_bufs ss sid))"

text \<open>The bytes on the wire and on their way to it.\<close>

definition stream :: "socket_server \<Rightarrow> int \<Rightarrow> u8 list" where
  "stream ss sid = written (sk_fd (sock_of ss sid)) (ss_trace ss) @ unsent (all_bufs ss sid)"

lemma queued_append [simp]: "queued sid (rs @ rs') = queued sid rs @ queued sid rs'"
  by (induction rs) (auto split: request.splits)

lemma object_buffer_simps [simp]: "wb_buffer (object_buffer ss q) = snd q" "wb_off (object_buffer ss q) = 0"
  by (auto simp: object_buffer_def split: option.splits)

lemma object_buffer_cong:
  assumes "ss_mem ss' (snd q) = ss_mem ss (snd q)"
  shows "object_buffer ss' q = object_buffer ss q" "sendable ss' q = sendable ss q"
proof -
  have e: "send_object_init ss' (snd q) (fst q) = send_object_init ss (snd q) (fst q)"
    using assms by (rule send_object_init_cong)
  show b: "object_buffer ss' q = object_buffer ss q" by (simp only: object_buffer_def e)
  have "held (ss_mem ss') (object_buffer ss q) = held (ss_mem ss) (object_buffer ss q)"
    using assms by (intro held_cong) simp
  then show "sendable ss' q = sendable ss q" by (simp only: sendable_def e b)
qed

section \<open>The count of requests\<close>

lemma ID_TAG16_less: "unat (ID_TAG16 i) < 2 ^ 16"
proof -
  have "drop_bit 16 i AND 0xffff = take_bit 16 (drop_bit 16 i)"
    by (simp add: take_bit_eq_mask mask_eq_exp_minus_1)
  then have "ID_TAG16 i = of_int (take_bit 16 (drop_bit 16 i))" by (simp add: ID_TAG16_def)
  moreover have "take_bit 16 (drop_bit 16 i) < 2 ^ 16" by (rule take_bit_int_less_exp)
  moreover have "0 \<le> take_bit 16 (drop_bit 16 i)" by simp
  ultimately show ?thesis
    by (simp add: unsigned_of_int take_bit_int_eq_self nat_less_iff)
qed

lemma unat_sending:
  assumes "sending_ok sid n w"
  shows "unat w = unat (ID_TAG16 sid) * 2 ^ 16 + n"
proof -
  have "unat (push_bit 16 (ID_TAG16 sid)) = unat (ID_TAG16 sid) * 2 ^ 16"
    using ID_TAG16_less [of sid] unfolding unsigned_push_bit_eq unfolding push_bit_eq_mult by (intro take_bit_nat_eq_self) simp
  moreover have "unat (of_nat n :: u32) = n"
    using assms by (simp add: sending_ok_def unat_of_nat take_bit_nat_eq_self)
  ultimately show ?thesis
    using assms ID_TAG16_less [of sid] by (simp add: sending_ok_def unat_word_ariths)
qed

lemma sending_count:
  assumes "sending_ok sid n w"
  shows "w AND 0xffff = of_nat n"
proof -
  have "unat (w AND (of_nat (2 ^ 16) - 1)) = unat w mod 2 ^ 16" by (rule unat_and_mask [where k = 16]) simp
  also have "\<dots> = n" unfolding unat_sending [OF assms] using assms by (simp add: sending_ok_def)
  also have "\<dots> = unat (of_nat n :: u32)"
    using assms by (simp add: sending_ok_def unat_of_nat take_bit_nat_eq_self)
  finally show ?thesis by (simp add: unsigned_word_eqI)
qed

lemma sending_tag:
  assumes "sending_ok sid n w"
  shows "drop_bit 16 w = ID_TAG16 sid"
proof -
  have "unat (drop_bit 16 w) = unat (ID_TAG16 sid)"
    unfolding unat_drop_bit unat_sending [OF assms] using assms by (simp add: sending_ok_def)
  then show ?thesis by (rule unsigned_word_eqI)
qed

lemma sending_zero: "sending_ok sid n w \<Longrightarrow> w AND 0xffff = 0 \<longleftrightarrow> n = 0"
  using sending_count [of sid n w] by (auto simp: sending_ok_def unat_of_nat take_bit_nat_eq_self simp flip: unat_eq_zero)

lemma sending_max: "sending_ok sid n w \<Longrightarrow> w AND 0xffff \<noteq> 0xffff \<Longrightarrow> sending_ok sid (Suc n) (w + 1)"
proof -
  assume ok: "sending_ok sid n w" "w AND 0xffff \<noteq> 0xffff"
  then have "n \<noteq> 65535" using sending_count [OF ok(1)] by auto
  with ok(1) show ?thesis by (simp add: sending_ok_def algebra_simps)
qed

lemma sending_dec: "sending_ok sid (Suc n) w \<Longrightarrow> sending_ok sid n (w - 1)"
  by (simp add: sending_ok_def)


section \<open>What keeps the invariant\<close>

lemma tcp_invD:
  assumes "tcp_inv ss sid"
  shows "sk_id (sock_of ss sid) = sid" "sk_protocol (sock_of ss sid) = PROTOCOL_TCP" "sk_type (sock_of ss sid) = SOCKET_TYPE_CONNECTED"
    "sk_low (sock_of ss sid) = []" "sending_ok sid (length (queued sid (ss_pipe ss))) (sk_sending (sock_of ss sid))"
    "\<forall>r \<in> set (ss_pipe ss). \<not> low_request sid r" "\<forall>q \<in> set (queued sid (ss_pipe ss)). sendable ss q"
    "sock_ok ss (sock_of ss sid)" "buffers_ok (ss_mem ss) (all_bufs ss sid)"
  using assms by (simp_all add: tcp_inv_def Let_def)

lemma tcp_invI:
  assumes "sk_id (sock_of ss sid) = sid" "sk_protocol (sock_of ss sid) = PROTOCOL_TCP" "sk_type (sock_of ss sid) = SOCKET_TYPE_CONNECTED"
    "sk_low (sock_of ss sid) = []" "sending_ok sid (length (queued sid (ss_pipe ss))) (sk_sending (sock_of ss sid))"
    "\<forall>r \<in> set (ss_pipe ss). \<not> low_request sid r" "\<forall>q \<in> set (queued sid (ss_pipe ss)). sendable ss q"
    "sock_ok ss (sock_of ss sid)" "buffers_ok (ss_mem ss) (all_bufs ss sid)"
  shows "tcp_inv ss sid"
  using assms by (simp add: tcp_inv_def)

lemma snd_in_pipe_bufs: "q \<in> set (queued sid (ss_pipe ss)) \<Longrightarrow> snd q \<in> bufs (pipe_bufs ss sid)"
  by (simp add: bufs_def pipe_bufs_def image_image)

lemma pipe_bufs_cong:
  assumes "queued sid (ss_pipe ss') = queued sid (ss_pipe ss)"
    "\<And>a. a \<in> bufs (pipe_bufs ss sid) \<Longrightarrow> ss_mem ss' a = ss_mem ss a"
  shows "pipe_bufs ss' sid = pipe_bufs ss sid"
    "(\<forall>q \<in> set (queued sid (ss_pipe ss')). sendable ss' q) \<longleftrightarrow> (\<forall>q \<in> set (queued sid (ss_pipe ss)). sendable ss q)"
proof -
  have m: "ss_mem ss' (snd q) = ss_mem ss (snd q)" if "q \<in> set (queued sid (ss_pipe ss))" for q
    using assms(2) snd_in_pipe_bufs [OF that] by blast
  show "pipe_bufs ss' sid = pipe_bufs ss sid"
    unfolding pipe_bufs_def assms(1) by (intro map_cong refl object_buffer_cong m)
  show "(\<forall>q \<in> set (queued sid (ss_pipe ss')). sendable ss' q) \<longleftrightarrow> (\<forall>q \<in> set (queued sid (ss_pipe ss)). sendable ss q)"
    unfolding assms(1) by (intro ball_cong refl object_buffer_cong m)
qed

text \<open>Emptying the buffers.\<close>

lemma progress_tcp_inv:
  assumes inv: "tcp_inv ss sid" and p: "progress (HASH_ID sid) ss ss'"
  shows "tcp_inv ss' sid \<and> stream ss' sid = stream ss sid"
proof -
  note s = tcp_invD [OF inv]
  obtain acts s' where p: "ss_slot ss' = (ss_slot ss)(HASH_ID sid := s')" "same_conn (sock_of ss sid) s'" "ss_trace ss' = ss_trace ss @ acts"
    "written (sk_fd s') acts @ pending ss' s' = pending ss (sock_of ss sid)"
    "bufs (sock_bufs ss' s') \<subseteq> bufs (sock_bufs ss (sock_of ss sid))"
    "ss_mem ss' = ss_mem ss |` (- (bufs (sock_bufs ss (sock_of ss sid)) - bufs (sock_bufs ss' s')))" "ss_pipe ss' = ss_pipe ss"
    "sock_ok ss' s'" "sk_low s' = []"
    using p s(4) unfolding progress_def sock_of_def by auto
  have e: "sock_of ss' sid = s'" by (simp add: sock_of_def p(1))
  have d: "bufs (sock_bufs ss (sock_of ss sid)) \<inter> bufs (pipe_bufs ss sid) = {}" "buffers_ok (ss_mem ss) (pipe_bufs ss sid)"
    using s(9) by (simp_all add: all_bufs_def buffers_ok_append)
  have m: "ss_mem ss' a = ss_mem ss a" if "a \<in> bufs (pipe_bufs ss sid)" for a
    using that d(1) by (auto simp: p(6) restrict_map_def)
  have q: "queued sid (ss_pipe ss') = queued sid (ss_pipe ss)" using p(7) by simp
  have pb: "pipe_bufs ss' sid = pipe_bufs ss sid" "\<forall>q \<in> set (queued sid (ss_pipe ss')). sendable ss' q"
    using pipe_bufs_cong [OF q m] s(7) by simp_all
  have "buffers_ok (ss_mem ss') (pipe_bufs ss sid)" using d(2) m by (subst buffers_ok_cong) auto
  moreover have "buffers_ok (ss_mem ss') (sock_bufs ss' s')" using p(8) by (simp add: sock_ok_def sock_held_def)
  ultimately have "buffers_ok (ss_mem ss') (all_bufs ss' sid)"
    using d(1) p(5) unfolding all_bufs_def e pb(1) by (auto simp: buffers_ok_append)
  then have "tcp_inv ss' sid"
    using s(1-6) p(2,7,8,9) pb(2) by (intro tcp_invI) (simp_all add: e same_conn_def)
  moreover have "stream ss' sid = stream ss sid"
    using p(2,3,4) by (simp add: stream_def all_bufs_def e pb(1) pending_def same_conn_def)
  ultimately show ?thesis ..
qed

text \<open>What the other sockets and the other requests do.\<close>

definition others :: "int \<Rightarrow> socket_server \<Rightarrow> socket_server \<Rightarrow> bool" where
  "others sid ss ss' \<longleftrightarrow> sock_of ss' sid = sock_of ss sid \<and> queued sid (ss_pipe ss') = queued sid (ss_pipe ss)
     \<and> (\<forall>r \<in> set (ss_pipe ss'). \<not> low_request sid r)
     \<and> (\<forall>a \<in> bufs (all_bufs ss sid). ss_mem ss' a = ss_mem ss a)
     \<and> written (sk_fd (sock_of ss sid)) (ss_trace ss') = written (sk_fd (sock_of ss sid)) (ss_trace ss)"

lemma sock_bufs_cong:
  assumes "sock_held ss s" "\<And>a. a \<in> bufs (sock_bufs ss s) \<Longrightarrow> ss_mem ss' a = ss_mem ss a"
  shows "sock_bufs ss' s = sock_bufs ss s" "sock_held ss' s" "sock_ok ss' s = sock_ok ss s"
proof -
  have "dw_write_buffer ss' s = dw_write_buffer ss s" if "sk_dw_buffer s \<noteq> 0"
  proof -
    from that assms(1) obtain b where b: "dw_write_buffer ss s = Some b" by (auto simp: sock_held_def)
    then have "sk_dw_buffer s \<in> bufs (sock_bufs ss s)"
      using that by (auto simp: sock_bufs_def direct_def dw_write_buffer_def bufs_def split: Option.bind_splits)
    then have "send_object_init ss' (sk_dw_buffer s) z = send_object_init ss (sk_dw_buffer s) z" for z
      by (intro send_object_init_cong assms(2))
    then show ?thesis by (simp add: dw_write_buffer_def)
  qed
  then show b: "sock_bufs ss' s = sock_bufs ss s" by (simp add: sock_bufs_def direct_def)
  have "buffers_ok (ss_mem ss') (sock_bufs ss s) = buffers_ok (ss_mem ss) (sock_bufs ss s)"
    using assms(2) by (intro buffers_ok_cong)
  with assms(1) \<open>sk_dw_buffer s \<noteq> 0 \<Longrightarrow> dw_write_buffer ss' s = dw_write_buffer ss s\<close>
  show h: "sock_held ss' s" by (simp add: sock_held_def b)
  show "sock_ok ss' s = sock_ok ss s" using h assms(1) by (simp add: sock_ok_def b)
qed

lemma others_tcp_inv:
  assumes inv: "tcp_inv ss sid" and o: "others sid ss ss'"
  shows "tcp_inv ss' sid \<and> stream ss' sid = stream ss sid"
proof -
  note s = tcp_invD [OF inv]
  let ?s = "sock_of ss sid"
  have m: "ss_mem ss' a = ss_mem ss a" if "a \<in> bufs (sock_bufs ss ?s) \<or> a \<in> bufs (pipe_bufs ss sid)" for a
    using o that by (auto simp: others_def all_bufs_def)
  have h: "sock_held ss ?s" using s(8) by (simp add: sock_ok_def)
  have q: "queued sid (ss_pipe ss') = queued sid (ss_pipe ss)" and e: "sock_of ss' sid = ?s" using o by (simp_all add: others_def)
  note pb = pipe_bufs_cong [OF q m] and sb = sock_bufs_cong [OF h m]
  have all: "all_bufs ss' sid = all_bufs ss sid" using pb(1) sb(1) by (simp add: all_bufs_def e)
  have "buffers_ok (ss_mem ss') (all_bufs ss sid)" using s(9) m by (subst buffers_ok_cong) (auto simp: all_bufs_def)
  then have "tcp_inv ss' sid"
    using s pb(2) sb(3) o by (intro tcp_invI) (simp_all add: e q all others_def)
  moreover have "stream ss' sid = stream ss sid" using o by (simp add: stream_def all e others_def)
  ultimately show ?thesis ..
qed

section \<open>A request is taken from the pipe\<close>

lemma append_sendable:
  assumes "sendable ss (sz, b)"
  shows "append_sendbuffer ss i High b sz None = Some (put_socket i ((ss_slot ss i)\<lparr>sk_high := sk_high (ss_slot ss i) @ [object_buffer ss (sz, b)],
      sk_wb_size := sk_wb_size (ss_slot ss i) + wb_sz (object_buffer ss (sz, b))\<rparr>) ss)"
proof -
  obtain user base bs where i: "send_object_init ss b sz = Some (user, base, bs)"
    using assms by (auto simp: sendable_def)
  show ?thesis
    unfolding append_sendbuffer_def object_buffer_def fst_conv snd_conv i
    by (simp add: set_wb_list_fields wb_sz_def Let_def, cases "ss_slot ss i", simp)
qed

lemma send_warning_cases:
  obtains w r where "send_warning i ss = Some (r, put_socket i ((ss_slot ss i)\<lparr>sk_warn_size := w\<rparr>) ss)"
    "r = None \<or> (\<exists>m. r = Some (SOCKET_WARNING, m))"
proof (cases "sk_wb_size (ss_slot ss i) \<ge> WARNING_SIZE \<and> sk_wb_size (ss_slot ss i) \<ge> sk_warn_size (ss_slot ss i)")
  case True
  show thesis by (rule that) (simp_all only: send_warning_def Let_def True if_True simp_thms, blast)
next
  case False
  have "put_socket i ((ss_slot ss i)\<lparr>sk_warn_size := sk_warn_size (ss_slot ss i)\<rparr>) ss = ss" by (simp add: put_socket_def)
  then have "send_warning i ss = Some (None, put_socket i ((ss_slot ss i)\<lparr>sk_warn_size := sk_warn_size (ss_slot ss i)\<rparr>) ss)"
    by (simp only: send_warning_def Let_def False if_False)
  then show thesis by (rule that) simp
qed

text \<open>Slot \<open>i\<close> with one more buffer of high priority.\<close>

definition appended :: "nat \<Rightarrow> write_buffer \<Rightarrow> int \<Rightarrow> u32 \<Rightarrow> action list \<Rightarrow> socket_server \<Rightarrow> socket_server" where
  "appended i b w n acts ss =
     ss\<lparr>ss_slot := (ss_slot ss)(i := (ss_slot ss i)\<lparr>sk_high := sk_high (ss_slot ss i) @ [b],
          sk_wb_size := sk_wb_size (ss_slot ss i) + wb_sz b, sk_warn_size := w, sk_sending := n\<rparr>),
        ss_trace := ss_trace ss @ acts\<rparr>"

lemma send_socket_appended:
  assumes "sk_id (sock_of ss sid) = sid" "sk_type (sock_of ss sid) = SOCKET_TYPE_CONNECTED" "sk_protocol (sock_of ss sid) = PROTOCOL_TCP"
    "sk_low (sock_of ss sid) = []" "sendable ss (sz, b)"
  obtains w r acts where "send_socket os sid b sz High None ss
      = Some (r, appended (HASH_ID sid) (object_buffer ss (sz, b)) w (sk_sending (sock_of ss sid)) acts ss)"
    "r = None \<or> (\<exists>m. r = Some (SOCKET_WARNING, m))" "acts = [] \<or> acts = [PollWrite (sk_fd (sock_of ss sid)) True]"
proof -
  define s i where "s = sock_of ss sid" and "i = HASH_ID sid"
  have s: "ss_slot ss i = s" "sk_id s = sid" "sk_type s = SOCKET_TYPE_CONNECTED" "sk_protocol s = PROTOCOL_TCP"
    using assms by (simp_all add: s_def i_def sock_of_def)
  define acts where "acts = (if send_buffer_empty s then [PollWrite (sk_fd s) True] else [])"
  define ob where "ob = object_buffer ss (sz, b)"
  define ss1 where "ss1 = (put_socket i (s\<lparr>sk_high := sk_high s @ [ob], sk_wb_size := sk_wb_size s + wb_sz ob\<rparr>) ss)\<lparr>ss_trace := ss_trace ss @ acts\<rparr>"
  have "send_socket os sid b sz High None ss = send_warning i ss1"
    using s append_sendable [OF assms(5), of i]
    by (simp add: send_socket_def Let_def i_def [symmetric] acts_def ss1_def ob_def act_def put_socket_def)
  moreover obtain w r where "send_warning i ss1 = Some (r, put_socket i ((ss_slot ss1 i)\<lparr>sk_warn_size := w\<rparr>) ss1)"
      "r = None \<or> (\<exists>m. r = Some (SOCKET_WARNING, m))"
    by (rule send_warning_cases)
  moreover have "put_socket i ((ss_slot ss1 i)\<lparr>sk_warn_size := w\<rparr>) ss1 = appended i ob w (sk_sending s) acts ss"
    by (simp add: ss1_def put_socket_def appended_def s(1))
  ultimately show thesis using that [of r w acts] by (simp add: ob_def i_def s_def acts_def)
qed

lemma appended_tcp_inv:
  assumes inv: "tcp_inv ss sid" and p: "ss_pipe ss = Req_D sid sz b # rest" and acts: "acts = [] \<or> acts = [PollWrite (sk_fd (sock_of ss sid)) True]"
    and ss': "ss' = appended (HASH_ID sid) (object_buffer ss (sz, b)) w (sk_sending (sock_of ss sid) - 1) acts (ss\<lparr>ss_pipe := rest\<rparr>)"
  shows "tcp_inv ss' sid \<and> stream ss' sid = stream ss sid"
proof -
  note s = tcp_invD [OF inv]
  define s s' where "s = sock_of ss sid" and "s' = sock_of ss' sid"
  define ob where "ob = object_buffer ss (sz, b)"
  have s': "s' = s\<lparr>sk_high := sk_high s @ [ob], sk_wb_size := sk_wb_size s + wb_sz ob, sk_warn_size := w, sk_sending := sk_sending s - 1\<rparr>"
    by (simp add: s'_def ss' appended_def s_def sock_of_def ob_def)
  have m: "ss_mem ss' = ss_mem ss" "ss_pipe ss' = rest" "ss_trace ss' = ss_trace ss @ acts" by (simp_all add: ss' appended_def)
  have fields: "sk_fd s' = sk_fd s" "sk_id s' = sk_id s" "sk_protocol s' = sk_protocol s" "sk_type s' = sk_type s" "sk_low s' = sk_low s"
    "sk_sending s' = sk_sending s - 1" by (simp_all add: s')
  note d = direct_cong [of ss' ss s' s]
  have sb: "sock_bufs ss' s' = sock_bufs ss s @ [ob]"
    using d(2) s(4) by (simp add: sock_bufs_def m) (simp add: s' s_def)
  have q: "queued sid (ss_pipe ss) = (sz, b) # queued sid rest" by (simp add: p)
  have pb: "pipe_bufs ss sid = ob # pipe_bufs ss' sid" and snd: "\<forall>q \<in> set (queued sid rest). sendable ss' q"
  proof -
    have o: "object_buffer ss' x = object_buffer ss x" "sendable ss' x = sendable ss x" for x
      by (rule object_buffer_cong; simp add: m)+
    show "pipe_bufs ss sid = ob # pipe_bufs ss' sid" by (simp add: pipe_bufs_def q m o ob_def)
    show "\<forall>q \<in> set (queued sid rest). sendable ss' q" using s(7) by (simp add: q o)
  qed
  have all: "all_bufs ss' sid = all_bufs ss sid"
    by (simp add: all_bufs_def sb [unfolded s'_def] pb s_def)
  then have ab: "buffers_ok (ss_mem ss') (all_bufs ss' sid)" using s(9) by (simp add: m)
  then have "buffers_ok (ss_mem ss') (sock_bufs ss' s')" by (simp add: all_bufs_def buffers_ok_append s'_def)
  then have "sock_ok ss' s'"
    using s(8) d(1) s(4) unfolding sock_ok_def sock_held_def sb s_def [symmetric]
    by (simp add: m) (auto simp: s' wb_sz_def whole_def ob_def tl_append split: list.splits)
  moreover have "sending_ok sid (length (queued sid rest)) (sk_sending s')"
    using s(5) by (simp add: fields s_def q sending_dec)
  ultimately have "tcp_inv ss' sid"
    using s(1-4,6) snd ab by (intro tcp_invI) (simp_all add: s'_def [symmetric] fields s_def m p)
  moreover have "stream ss' sid = stream ss sid"
    using acts by (auto simp: stream_def all m s'_def [symmetric] fields s_def)
  ultimately show ?thesis ..
qed

lemma request_tcp_inv:
  assumes inv: "tcp_inv ss sid" and p: "ss_pipe ss = Req_D sid sz b # rest"
  obtains r ss' where "ctrl_cmd os ss = Some (r, ss')" "r = None \<or> (\<exists>m. r = Some (SOCKET_WARNING, m))"
    "tcp_inv ss' sid" "stream ss' sid = stream ss sid"
proof -
  note s = tcp_invD [OF inv]
  let ?ss = "ss\<lparr>ss_pipe := rest\<rparr>"
  have e: "sock_of ?ss sid = sock_of ss sid" by (simp add: sock_of_def)
  have o: "object_buffer ?ss (sz, b) = object_buffer ss (sz, b)" "sendable ?ss (sz, b) = sendable ss (sz, b)"
    by (rule object_buffer_cong; simp)+
  have "sendable ss (sz, b)" using s(7) by (simp add: p)
  then obtain w r acts where 1: "send_socket os sid b sz High None ?ss
      = Some (r, appended (HASH_ID sid) (object_buffer ss (sz, b)) w (sk_sending (sock_of ss sid)) acts ?ss)"
    "r = None \<or> (\<exists>m. r = Some (SOCKET_WARNING, m))" "acts = [] \<or> acts = [PollWrite (sk_fd (sock_of ss sid)) True]"
    by (rule send_socket_appended [of ?ss sid sz b os, unfolded e o, OF s(1,3,2,4)])
  let ?ss' = "appended (HASH_ID sid) (object_buffer ss (sz, b)) w (sk_sending (sock_of ss sid) - 1) acts ?ss"
  have "sk_sending (sock_of ss sid) AND 0xffff \<noteq> 0"
    using sending_zero [OF s(5)] by (simp add: p)
  then have "dec_sending_ref sid (appended (HASH_ID sid) (object_buffer ss (sz, b)) w (sk_sending (sock_of ss sid)) acts ?ss) = Some ?ss'"
    using s(1,2) by (simp add: dec_sending_ref_def Let_def appended_def put_socket_def sock_of_def)
  then have "ctrl_cmd os ss = Some (r, ?ss')" by (simp add: ctrl_cmd_def p ctrl_request_def 1(1))
  with appended_tcp_inv [OF inv p 1(3) refl] 1(2) that show thesis by blast
qed

section \<open>Sending\<close>

lemma dw_size_int_of_int:
  assumes "- (2 ^ 31) \<le> sz" "sz < 2 ^ 31"
  shows "signed_take_bit 31 (uint (of_int sz :: u64)) = sz"
proof -
  have "uint (of_int sz :: u64) = take_bit 64 sz" by (simp add: unsigned_of_int)
  then have "signed_take_bit 31 (uint (of_int sz :: u64)) = signed_take_bit 31 sz"
    by (simp add: signed_take_bit_take_bit)
  then show ?thesis using signed_take_bit_int_eq_self [OF assms] by simp
qed

lemma can_direct_write_idle:
  assumes "tcp_inv ss sid"
  shows "can_direct_write (sock_of ss sid) sid \<longleftrightarrow>
    queued sid (ss_pipe ss) = [] \<and> sk_high (sock_of ss sid) = [] \<and> sk_dw_buffer (sock_of ss sid) = 0 \<and> sk_udpconnecting (sock_of ss sid) = 0"
  using tcp_invD [OF assms] sending_zero [of sid "length (queued sid (ss_pipe ss))" "sk_sending (sock_of ss sid)"]
  by (auto simp: can_direct_write_def nomore_sending_data_def send_buffer_empty_def)

lemma idle_bufs:
  assumes "tcp_inv ss sid" "can_direct_write (sock_of ss sid) sid"
  shows "all_bufs ss sid = []" "sk_wb_size (sock_of ss sid) = 0"
  using assms(2) tcp_invD(4,8) [OF assms(1)] unfolding can_direct_write_idle [OF assms(1)]
  by (simp_all add: all_bufs_def pipe_bufs_def sock_bufs_0 sock_ok_def)

text \<open>The bytes that a direct write sent, and the rest in \<^verbatim>\<open>dw_buffer\<close>.\<close>

lemma direct_write_sent:
  assumes inv: "tcp_inv ss sid" and idle: "can_direct_write (sock_of ss sid) sid"
    and ss': "sock_of ss' sid = sock_of ss sid" "ss_pipe ss' = ss_pipe ss"
      "ss_trace ss' = ss_trace ss @ [Write (sk_fd (sock_of ss sid)) bs] \<or> ss_trace ss' = ss_trace ss \<and> bs = []"
  shows "tcp_inv ss' sid \<and> stream ss' sid = stream ss sid @ bs"
proof -
  note s = tcp_invD [OF inv] and b = idle_bufs [OF inv idle]
  have q: "queued sid (ss_pipe ss) = []" "sk_high (sock_of ss sid) = []" "sk_dw_buffer (sock_of ss sid) = 0"
    using idle by (simp_all add: can_direct_write_idle [OF inv])
  have all: "all_bufs ss' sid = []" "sock_bufs ss' (sock_of ss sid) = []"
    using q s(4) by (simp_all add: all_bufs_def pipe_bufs_def ss' sock_bufs_0)
  have "sock_ok ss' (sock_of ss sid)"
    using b(2) q s(4) by (simp add: sock_ok_def sock_held_def all whole_def based_def)
  then have "tcp_inv ss' sid" using s q by (intro tcp_invI) (simp_all add: ss' all)
  moreover have "stream ss' sid = stream ss sid @ bs" using ss'(3) by (auto simp: stream_def all b(1) ss'(1))
  ultimately show ?thesis ..
qed

lemma direct_write_kept:
  assumes inv: "tcp_inv ss sid" and idle: "can_direct_write (sock_of ss sid) sid"
    and obj: "sendable ss (sz, b)" and sz: "- (2 ^ 31) \<le> sz" "sz < 2 ^ 31"
    and n: "n \<le> length (wb_bytes (object_buffer ss (sz, b)))"
    and ss': "sock_of ss' sid = (sock_of ss sid)\<lparr>sk_dw_buffer := b, sk_dw_size := of_int sz, sk_dw_offset := int n\<rparr>"
      "ss_pipe ss' = ss_pipe ss" "ss_mem ss' = ss_mem ss"
      "written (sk_fd (sock_of ss sid)) (ss_trace ss') = written (sk_fd (sock_of ss sid)) (ss_trace ss) @ take n (wb_bytes (object_buffer ss (sz, b)))"
  shows "tcp_inv ss' sid \<and> stream ss' sid = stream ss sid @ wb_bytes (object_buffer ss (sz, b))"
proof -
  note s = tcp_invD [OF inv] and idle' = idle_bufs [OF inv idle]
  have q: "queued sid (ss_pipe ss) = []" "sk_high (sock_of ss sid) = []" "sk_dw_buffer (sock_of ss sid) = 0"
    using idle by (simp_all add: can_direct_write_idle [OF inv])
  define s s' where "s = sock_of ss sid" and "s' = sock_of ss' sid"
  obtain user base bs where i: "send_object_init ss b sz = Some (user, base, bs)" using obj by (auto simp: sendable_def)
  have i': "send_object_init ss' b sz = Some (user, base, bs)" using i send_object_init_cong [of ss' b ss sz] by (simp add: ss')
  have h: "held (ss_mem ss) (object_buffer ss (sz, b))" using obj by (simp add: sendable_def)
  have ob: "wb_bytes (object_buffer ss (sz, b)) = bs" "wb_userobject (object_buffer ss (sz, b)) = user"
    by (simp_all add: object_buffer_def i)
  have b0: "b \<noteq> 0" using h by (simp add: held_def)
  define d where "d = \<lparr>wb_buffer = b, wb_base = base, wb_off = n, wb_bytes = drop n bs, wb_userobject = user, wb_udp_address = None\<rparr>"
  have "dw_write_buffer ss' s' = Some d"
    unfolding dw_write_buffer_def by (simp add: s'_def ss' dw_size_int_def dw_size_int_of_int [OF sz] i' d_def)
  moreover from this have sb: "sock_bufs ss' s' = [d]"
    using b0 q s(4) by (simp add: sock_bufs_def direct_def) (simp add: s'_def ss')
  moreover have hd: "held (ss_mem ss') d" using h by (simp add: held_def d_def ss' ob split: option.splits memobj.splits)
  ultimately have "sock_ok ss' s'"
    using idle'(2) q s(4) unfolding sock_ok_def sock_held_def sb
    by (simp add: buffers_ok_Cons) (simp add: s'_def ss' whole_def based_def)
  moreover have all: "all_bufs ss' sid = [d]"
    using sb q by (simp add: all_bufs_def s'_def pipe_bufs_def ss')
  ultimately have "tcp_inv ss' sid"
    using s q hd by (intro tcp_invI) (simp_all add: s'_def [symmetric] buffers_ok_Cons, simp_all add: s'_def ss')
  moreover have "stream ss' sid = stream ss sid @ bs"
    using ss'(4) by (simp add: stream_def all idle'(1) ss'(1) ob) (simp add: d_def)
  ultimately show ?thesis by (simp add: ob)
qed

lemma queued_data [simp]: "queued sid [Req_D sid sz b] = [(sz, b)]" "low_request j (Req_D sid sz b) = False"
  by (simp_all add: low_request_def)

text \<open>A message that has to wait goes into the pipe, and is counted.\<close>

lemma send_by_pipe_tcp_inv:
  assumes inv: "tcp_inv ss sid" and obj: "sendable ss (sz, b)" "b \<notin> bufs (all_bufs ss sid)"
    and r: "send_by_pipe sid (Req_D sid sz b) ss = Some (x, ss')"
  shows "x = 0 \<and> tcp_inv ss' sid \<and> stream ss' sid = stream ss sid @ wb_bytes (object_buffer ss (sz, b))"
proof -
  note s = tcp_invD [OF inv]
  define s s' where "s = sock_of ss sid" and "s' = s\<lparr>sk_sending := sk_sending s + 1\<rparr>"
  have c: "sk_sending s AND 0xffff \<noteq> 0xffff" and x: "x = 0"
    and ss': "ss' = (put_socket (HASH_ID sid) s' ss)\<lparr>ss_pipe := ss_pipe ss @ [Req_D sid sz b]\<rparr>"
    using r s(2) sending_tag [OF s(5)]
    by (auto simp: send_by_pipe_def inc_sending_ref_def Let_def sock_of_def s_def s'_def send_request_def put_socket_def split: if_splits)
  have slot: "sock_of ss' sid = s'" and m: "ss_mem ss' = ss_mem ss" and tr: "ss_trace ss' = ss_trace ss"
    and pipe: "ss_pipe ss' = ss_pipe ss @ [Req_D sid sz b]"
    by (simp_all add: ss' put_socket_def sock_of_def)
  have sb: "sock_bufs ss' s' = sock_bufs ss s"
    using direct_cong(2) [of ss' ss s' s] m by (simp add: sock_bufs_def) (simp add: s'_def)
  have o: "object_buffer ss' y = object_buffer ss y" "sendable ss' y = sendable ss y" for y
    by (rule object_buffer_cong; simp add: m)+
  have pb: "pipe_bufs ss' sid = pipe_bufs ss sid @ [object_buffer ss (sz, b)]" by (simp add: pipe_bufs_def pipe o)
  have all: "all_bufs ss' sid = all_bufs ss sid @ [object_buffer ss (sz, b)]"
    by (simp add: all_bufs_def slot sb pb s_def [symmetric])
  have "buffers_ok (ss_mem ss') (all_bufs ss' sid)"
    using s(9) obj by (simp add: all m buffers_ok_append buffers_ok_Cons sendable_def)
  moreover have "sock_ok ss' s'"
    using s(8) direct_cong(1) [of ss' ss s' s] m unfolding sock_ok_def sock_held_def sb s_def [symmetric]
    by (simp add: m) (simp add: s'_def)
  moreover have "sending_ok sid (length (queued sid (ss_pipe ss'))) (sk_sending s')"
    using sending_max [OF s(5)] c by (simp add: pipe s'_def s_def)
  ultimately have "tcp_inv ss' sid"
    using s(1-4,6,7) obj by (intro tcp_invI) (simp_all add: slot s'_def s_def pipe o)
  moreover have "stream ss' sid = stream ss sid @ wb_bytes (object_buffer ss (sz, b))"
    by (simp add: stream_def all tr slot s'_def s_def)
  ultimately show ?thesis by (simp add: x)
qed

lemma send_tcp_inv:
  assumes inv: "tcp_inv ss sid" and obj: "sendable ss (sz, b)" "b \<notin> bufs (all_bufs ss sid)"
    and sz: "- (2 ^ 31) \<le> sz" "sz < 2 ^ 31" and r: "socket_server_send os sid b sz ss = Some (x, ss')"
  shows "x = 0 \<and> tcp_inv ss' sid \<and> stream ss' sid = stream ss sid @ wb_bytes (object_buffer ss (sz, b))"
proof -
  note s = tcp_invD [OF inv]
  have good: "\<not> bad_id (sock_of ss sid) sid" using s(1,3) by (simp add: bad_id_def)
  show ?thesis
  proof (cases "can_direct_write (sock_of ss sid) sid")
    case False
    with r good have "send_by_pipe sid (Req_D sid sz b) ss = Some (x, ss')"
      by (simp add: socket_server_send_def sock_of_def Let_def)
    with inv obj show ?thesis by (rule send_by_pipe_tcp_inv)
  next
    case True
    define s where "s = sock_of ss sid"
    obtain user base bs where i: "send_object_init ss b sz = Some (user, base, bs)" using obj by (auto simp: sendable_def)
    have h: "held (ss_mem ss) (object_buffer ss (sz, b))" using obj by (simp add: sendable_def)
    have ob: "wb_bytes (object_buffer ss (sz, b)) = bs" "wb_userobject (object_buffer ss (sz, b)) = user"
      by (simp_all add: object_buffer_def i)
    obtain n acts where w: "sys_write os (sk_fd s) bs ss = (n, tick (ss\<lparr>ss_trace := ss_trace ss @ acts\<rparr>))"
      and n: "(case n of Inl _ \<Rightarrow> 0 | Inr n \<Rightarrow> n) \<le> length bs"
        "acts = [Write (sk_fd s) (take (case n of Inl _ \<Rightarrow> 0 | Inr n \<Rightarrow> n) bs)] \<or> acts = [] \<and> (case n of Inl _ \<Rightarrow> 0 | Inr n \<Rightarrow> n) = 0"
    proof (cases "os_write os (ss_time ss)")
      case (Inl e)
      then show thesis by (intro that [of "Inl e" "[]"]) (simp_all add: sys_write_def)
    next
      case (Inr k)
      then show thesis
        by (intro that [of "Inr (length (take k bs))" "[Write (sk_fd s) (take k bs)]"]) (simp_all add: sys_write_def act_def min_def)
    qed
    define k where "k = (case n of Inl _ \<Rightarrow> 0 | Inr n \<Rightarrow> n)"
    define ss1 where "ss1 = tick (ss\<lparr>ss_trace := ss_trace ss @ acts\<rparr>)"
    have send: "socket_server_send os sid b sz ss =
        (if k = length bs then map_option (Pair 0) (so_free user b ss1)
         else Some (0, act (PollWrite (sk_fd s) True) (put_socket (HASH_ID sid) (s\<lparr>sk_dw_buffer := b, sk_dw_size := of_int sz,
            sk_dw_offset := int k\<rparr>) ss1)))"
      using True good s(2) w by (simp add: socket_server_send_def sock_of_def Let_def i s_def k_def ss1_def)
    have m1: "ss_mem ss1 = ss_mem ss" "ss_pipe ss1 = ss_pipe ss" "ss_slot ss1 = ss_slot ss" "ss_trace ss1 = ss_trace ss @ acts"
      by (simp_all add: ss1_def tick_def)
    show ?thesis
    proof (cases "k = length bs")
      case k: True
      have "write_buffer_free (object_buffer ss (sz, b)) ss1 = Some (ss1\<lparr>ss_mem := (ss_mem ss1)(b := None)\<rparr>)"
        using write_buffer_free_held [of ss1 "object_buffer ss (sz, b)"] h by (simp add: m1)
      then have "ss' = ss1\<lparr>ss_mem := (ss_mem ss1)(b := None)\<rparr>" "x = 0"
        using r by (simp_all add: send k write_buffer_free_def ob)
      moreover have "acts = [Write (sk_fd s) bs] \<or> acts = [] \<and> bs = []" using n(2) k by (auto simp: k_def [symmetric])
      ultimately show ?thesis
        using direct_write_sent [OF inv True, of ss' bs] by (simp add: m1 sock_of_def s_def ob)
    next
      case k: False
      then have "ss' = act (PollWrite (sk_fd s) True) (put_socket (HASH_ID sid) (s\<lparr>sk_dw_buffer := b, sk_dw_size := of_int sz,
          sk_dw_offset := int k\<rparr>) ss1)" and x: "x = 0"
        using r by (simp_all add: send)
      then have "tcp_inv ss' sid \<and> stream ss' sid = stream ss sid @ wb_bytes (object_buffer ss (sz, b))"
        using n by (intro direct_write_kept [OF inv True obj(1) sz, of k])
          (auto simp: ob k_def [symmetric] m1 sock_of_def s_def act_def put_socket_def)
      with x show ?thesis by simp
    qed
  qed
qed

section \<open>The threads\<close>

text \<open>
  A step of the threads, as far as it concerns one socket: a service sends to it, the socket thread takes a request for it from
  the pipe or empties its buffers, and anything that concerns other sockets. The second component is what has
  been sent.
\<close>

inductive tcp_step :: "int \<Rightarrow> socket_server \<times> u8 list \<Rightarrow> socket_server \<times> u8 list \<Rightarrow> bool" for sid where
  step_send: "sendable ss (sz, b) \<Longrightarrow> b \<notin> bufs (all_bufs ss sid) \<Longrightarrow> - (2 ^ 31) \<le> sz \<Longrightarrow> sz < 2 ^ 31 \<Longrightarrow>
    socket_server_send os sid b sz ss = Some (x, ss') \<Longrightarrow> tcp_step sid (ss, sent) (ss', sent @ wb_bytes (object_buffer ss (sz, b)))"
| step_request: "ss_pipe ss = Req_D sid sz b # rest \<Longrightarrow> ctrl_cmd os ss = Some (r, ss') \<Longrightarrow> tcp_step sid (ss, sent) (ss', sent)"
| step_write: "writes_end os \<Longrightarrow> send_buffer os (HASH_ID sid) ss = Some (r, ss') \<Longrightarrow> r = None \<or> (\<exists>m. r = Some (SOCKET_WARNING, m)) \<Longrightarrow>
    tcp_step sid (ss, sent) (ss', sent)"
| step_other: "others sid ss ss' \<Longrightarrow> tcp_step sid (ss, sent) (ss', sent)"

lemma force_close_ok:
  assumes "open_type (sk_type (ss_slot ss i))" "sock_ok ss (ss_slot ss i)"
  shows "force_close i ss \<noteq> None"
  using force_close_held [OF assms(1)] assms(2) by (simp add: sock_ok_def)

lemma open_connected [simp]: "open_type SOCKET_TYPE_CONNECTED"
  by (simp add: open_type_def)

lemma write_tcp_inv:
  assumes inv: "tcp_inv ss sid" and os: "writes_end os" and r: "send_buffer os (HASH_ID sid) ss = Some (r, ss')"
    "r = None \<or> (\<exists>m. r = Some (SOCKET_WARNING, m))"
  shows "tcp_inv ss' sid \<and> stream ss' sid = stream ss sid"
proof -
  have "ends (HASH_ID sid) ss (send_buffer os (HASH_ID sid) ss)"
    using tcp_invD(2,8) [OF inv] by (intro send_buffer_ends [OF os]) (simp_all add: sock_of_def)
  then obtain ss1 where p: "progress (HASH_ID sid) ss ss1"
    "ss' = ss1 \<or> Some (r, ss') = map_option (closed SOCKET_CLOSE) (force_close (HASH_ID sid) ss1)"
    unfolding ends_def r(1) by auto
  from p(2) have "ss' = ss1"
  proof
    assume "Some (r, ss') = map_option (closed SOCKET_CLOSE) (force_close (HASH_ID sid) ss1)"
    then obtain m where "r = Some (SOCKET_CLOSE, m)"
      by (cases "force_close (HASH_ID sid) ss1") (auto simp: closed_def split: prod.splits)
    with r(2) show ?thesis by simp
  qed
  with progress_tcp_inv [OF inv p(1)] show ?thesis by simp
qed

lemma tcp_step_inv:
  assumes "tcp_step sid p p'" "tcp_inv (fst p) sid" "stream (fst p) sid = bs @ snd p"
  shows "tcp_inv (fst p') sid \<and> stream (fst p') sid = bs @ snd p'"
  using assms
proof (induction rule: tcp_step.cases)
  case (step_send ss sz b os x ss' sent)
  then show ?case using send_tcp_inv [of ss sid sz b os x ss'] by simp
next
  case (step_request ss sz b rest os r ss' sent)
  then show ?case using request_tcp_inv [of ss sid sz b rest os] by (metis fst_conv option.inject snd_conv)
next
  case (step_write os ss r ss' sent)
  then show ?case using write_tcp_inv [of ss sid os r ss'] by simp
next
  case (step_other ss ss' sent)
  then show ?case using others_tcp_inv [of ss sid ss'] by simp
qed

interpretation tcp: invariant "\<lambda>p. p = (ss0, []) \<and> tcp_inv ss0 sid" "tcp_step sid"
    "\<lambda>p. tcp_inv (fst p) sid \<and> stream (fst p) sid = stream ss0 sid @ snd p" for ss0 sid
  by unfold_locales (auto dest: tcp_step_inv)

text \<open>C20: what services send to a connected TCP socket reaches the wire in the order of the calls, each
  byte once: whatever the interleaving of direct writes by the services, requests through the pipe, and the
  socket thread emptying the buffers after partial writes, the bytes written to the descriptor, followed by those in the
  buffers and in the pipe, are those of the initial state followed by the messages in the order of the calls of \<^verbatim>\<open>socket_server_send\<close>.\<close>

theorem socket_send_in_order:
  assumes "tcp_inv ss0 sid" "reaches (\<lambda>p. p = (ss0, []) \<and> tcp_inv ss0 sid) (tcp_step sid) (ss, sent)"
  shows "tcp_inv ss sid \<and>
    written (sk_fd (sock_of ss sid)) (ss_trace ss) @ unsent (sock_bufs ss (sock_of ss sid)) @ unsent (pipe_bufs ss sid)
      = written (sk_fd (sock_of ss0 sid)) (ss_trace ss0) @ unsent (sock_bufs ss0 (sock_of ss0 sid)) @ unsent (pipe_bufs ss0 sid) @ sent"
  using tcp.inv_reaches [OF assms(2)] by (simp add: stream_def all_bufs_def)

text \<open>C21: in that invariant nothing fails: a request of the socket is handled without a failed assertion of the
  count of requests; emptying the buffers ends, unless writing is interrupted for ever, with the size of the buffers as the assertion
  wants it; and a call of \<^verbatim>\<open>socket_server_send\<close> returns, except when 65535 requests are waiting.\<close>

theorem socket_send_never_fails:
  assumes "tcp_inv ss sid" "writes_end os"
  shows "(case ss_pipe ss of Req_D j sz b # rest \<Rightarrow> j = sid \<longrightarrow> ctrl_cmd os ss \<noteq> None | _ \<Rightarrow> True)
    \<and> send_buffer os (HASH_ID sid) ss \<noteq> None
    \<and> (sendable ss (sz, b) \<and> length (queued sid (ss_pipe ss)) < 65535 \<longrightarrow> socket_server_send os sid b sz ss \<noteq> None)"
proof (intro conjI impI)
  note s = tcp_invD [OF assms(1)]
  have "ctrl_cmd os ss \<noteq> None" if "ss_pipe ss = Req_D sid z c # rest" for z c rest
    using request_tcp_inv [OF assms(1) that, of os] by (metis option.distinct(1))
  then show "case ss_pipe ss of Req_D j sz b # rest \<Rightarrow> j = sid \<longrightarrow> ctrl_cmd os ss \<noteq> None | _ \<Rightarrow> True"
    by (auto split: list.splits request.splits)
  have "ends (HASH_ID sid) ss (send_buffer os (HASH_ID sid) ss)"
    using s(2,8) by (intro send_buffer_ends [OF assms(2)]) (simp_all add: sock_of_def)
  then obtain ss1 where p: "progress (HASH_ID sid) ss ss1"
    "send_buffer os (HASH_ID sid) ss \<noteq> None \<or> send_buffer os (HASH_ID sid) ss = map_option (closed SOCKET_CLOSE) (force_close (HASH_ID sid) ss1)"
    unfolding ends_def by auto
  have "tcp_inv ss1 sid" using progress_tcp_inv [OF assms(1) p(1)] by blast
  then have "force_close (HASH_ID sid) ss1 \<noteq> None"
    using tcp_invD(3,8) [of ss1 sid] by (intro force_close_ok) (simp_all add: sock_of_def)
  then show "send_buffer os (HASH_ID sid) ss \<noteq> None" using p(2) by auto
  assume "sendable ss (sz, b) \<and> length (queued sid (ss_pipe ss)) < 65535"
  then have obj: "sendable ss (sz, b)" and n: "length (queued sid (ss_pipe ss)) < 65535" by simp_all
  obtain user base bs where i: "send_object_init ss b sz = Some (user, base, bs)" using obj by (auto simp: sendable_def)
  have h: "held (ss_mem ss) (object_buffer ss (sz, b))" and u: "wb_userobject (object_buffer ss (sz, b)) = user"
    using obj by (simp_all add: sendable_def object_buffer_def i)
  have free: "so_free user b ss' \<noteq> None" if "ss_mem ss' = ss_mem ss" for ss'
    using write_buffer_free_held [of ss' "object_buffer ss (sz, b)"] h that by (simp add: write_buffer_free_def u)
  have good: "\<not> bad_id (sock_of ss sid) sid" using s(1,3) by (simp add: bad_id_def)
  show "socket_server_send os sid b sz ss \<noteq> None"
  proof (cases "can_direct_write (sock_of ss sid) sid")
    case True
    have "so_free user b (snd (sys_write os fd bs ss)) \<noteq> None" for fd
      by (rule free) (simp add: sys_write_def tick_def act_def split: sum.splits)
    then show ?thesis
      using True good s(2) by (simp add: socket_server_send_def sock_of_def Let_def i split: prod.splits) (metis snd_conv)
  next
    case False
    have "sk_sending (sock_of ss sid) AND 0xffff \<noteq> 0xffff"
    proof
      assume "sk_sending (sock_of ss sid) AND 0xffff = 0xffff"
      then have "(of_nat (length (queued sid (ss_pipe ss))) :: u32) = 65535" by (simp only: sending_count [OF s(5)])
      then have "unat (of_nat (length (queued sid (ss_pipe ss))) :: u32) = 65535" by simp
      with n show False by (simp add: unat_of_nat take_bit_nat_eq_self)
    qed
    then show ?thesis
      using False good s(2) sending_tag [OF s(5)]
      by (simp add: socket_server_send_def sock_of_def Let_def send_by_pipe_def inc_sending_ref_def)
  qed
qed

section \<open>A concrete socket\<close>

definition example_socket :: socket where
  "example_socket =
     \<lparr>sk_opaque = 9, sk_high = [], sk_low = [], sk_wb_size = 0, sk_sending = 0, sk_fd = 5, sk_id = 0, sk_protocol = PROTOCOL_TCP,
      sk_type = SOCKET_TYPE_CONNECTED, sk_udpconnecting = 0, sk_warn_size = 0, sk_size = 64, sk_udp_address = [],
      sk_dw_offset = 0, sk_dw_buffer = 0, sk_dw_size = 0\<rparr>"

definition example_server :: socket_server where
  "example_server =
     \<lparr>ss_checkctrl = True, ss_alloc_id = 0, ss_ev = [], ss_event_index = 0, ss_slot = (\<lambda>_. example_socket), ss_pipe = [],
      ss_mem = [16 \<mapsto> Raw [1, 2, 3], 32 \<mapsto> Raw [4, 5]], ss_time = 0, ss_trace = []\<rparr>"

text \<open>A system that takes two bytes of each write.\<close>

definition example_os :: os where
  "example_os = \<lparr>os_write = (\<lambda>_. Inr 2), os_sendto = (\<lambda>_. Inr 0), os_read = (\<lambda>_. Inr []), os_recvfrom = (\<lambda>_. Inl EAGAIN),
     os_accept = (\<lambda>_. Inl EAGAIN), os_add = (\<lambda>_. None), os_sockerr = (\<lambda>_. None), os_peername = (\<lambda>_. None),
     os_resolve = (\<lambda>_ _ _. Inr []), os_errno = (\<lambda>_. EINTR), os_strerror = (\<lambda>_. []), os_wait = (\<lambda>_. [])\<rparr>"

definition example_sent :: socket_server where
  "example_sent = act (PollWrite 5 True) (put_socket 0 (example_socket\<lparr>sk_dw_buffer := 16, sk_dw_size := 3, sk_dw_offset := 2\<rparr>)
     (tick (act (Write 5 [1, 2]) example_server)))"

lemma HASH_ID_0 [simp]: "HASH_ID 0 = 0"
  by (simp add: HASH_ID_def)

lemma example_tcp_inv: "tcp_inv example_server 0"
  by (simp add: tcp_inv_def sock_of_def example_server_def example_socket_def sending_ok_def ID_TAG16_def
      sock_ok_def sock_held_def sock_bufs_def direct_def whole_def based_def all_bufs_def pipe_bufs_def)

lemma example_writes_end: "writes_end example_os"
  by (auto simp: writes_end_def example_os_def)

lemma example_sendable: "sendable example_server (3, 16)" "object_buffer example_server (3, 16) =
    \<lparr>wb_buffer = 16, wb_base = 16, wb_off = 0, wb_bytes = [1, 2, 3], wb_userobject = False, wb_udp_address = None\<rparr>"
  by (simp_all add: sendable_def object_buffer_def send_object_init_def example_server_def held_def)

lemma example_send: "socket_server_send example_os 0 16 3 example_server = Some (0, example_sent)"
  by (simp add: socket_server_send_def example_server_def example_os_def example_socket_def bad_id_def can_direct_write_def
      nomore_sending_data_def send_buffer_empty_def send_object_init_def sys_write_def example_sent_def Let_def)

lemma example_reaches:
  "reaches (\<lambda>p. p = (example_server, []) \<and> tcp_inv example_server 0) (tcp_step 0) (example_sent, [1, 2, 3])"
proof (rule reaches_step [OF reaches_start])
  show "(example_server, []) = (example_server, []) \<and> tcp_inv example_server 0" by (simp add: example_tcp_inv)
  have "b \<notin> bufs (all_bufs example_server 0)" for b
    by (simp add: all_bufs_def pipe_bufs_def sock_bufs_def direct_def sock_of_def example_server_def example_socket_def)
  then show "tcp_step 0 (example_server, []) (example_sent, [1, 2, 3])"
    using step_send [OF example_sendable(1) _ _ _ example_send, of "[]"] by (simp add: example_sendable(2))
qed

text \<open>After a write of two bytes of the first message, its third byte is in the buffers.\<close>

lemma socket_send_in_order_witness:
  "tcp_inv example_sent 0 \<and> written 5 (ss_trace example_sent) @ unsent (sock_bufs example_sent (sock_of example_sent 0))
     @ unsent (pipe_bufs example_sent 0) = [1, 2, 3]"
proof -
  have "sk_fd (sock_of example_sent 0) = 5" "sk_fd (sock_of example_server 0) = 5" "ss_trace example_server = []"
    "sock_bufs example_server (sock_of example_server 0) = []" "pipe_bufs example_server 0 = []"
    by (simp_all add: sock_of_def example_sent_def example_server_def example_socket_def act_def put_socket_def
        sock_bufs_def direct_def pipe_bufs_def)
  then show ?thesis using socket_send_in_order [OF example_tcp_inv example_reaches] by simp
qed

lemma socket_send_never_fails_witness:
  "send_buffer example_os 0 example_server \<noteq> None \<and> socket_server_send example_os 0 16 3 example_server \<noteq> None"
proof -
  have "queued 0 (ss_pipe example_server) = []" by (simp add: example_server_def)
  then show ?thesis
    using socket_send_never_fails [OF example_tcp_inv example_writes_end, of 3 16] example_sendable(1) by simp
qed

end
