(* ===== verification/Socket_Ids.thy ===== *)
theory Socket_Ids
  imports Socket_Server
begin

text \<open>
  The identifiers of sockets. An identifier names the slot given by its low bits; \<^verbatim>\<open>reserve_id\<close> tries as many
  consecutive identifiers as there are slots, so it tries every slot once.
\<close>

definition free_slot :: "socket_server \<Rightarrow> nat \<Rightarrow> bool" where
  "free_slot ss k \<longleftrightarrow> sk_type (ss_slot ss k) = SOCKET_TYPE_INVALID"

lemma HASH_ID_less: "HASH_ID i < MAX_SOCKET"
  by (simp add: HASH_ID_def MAX_SOCKET_def MAX_SOCKET_P_def nat_less_iff)

lemma next_id_mod:
  assumes "0 \<le> a" "a \<le> INT_MAX"
  shows "next_id a = (a + 1) mod 2 ^ 31"
proof (cases "a = INT_MAX")
  case True then show ?thesis by (simp add: next_id_def INT_MAX_def)
next
  case False with assms show ?thesis by (simp add: next_id_def INT_MAX_def Let_def)
qed

lemma next_id_range: "0 \<le> a \<Longrightarrow> a \<le> INT_MAX \<Longrightarrow> 0 \<le> next_id a \<and> next_id a \<le> INT_MAX"
  by (auto simp: next_id_def INT_MAX_def Let_def)

lemma HASH_ID_next:
  assumes "0 \<le> a" "a \<le> INT_MAX"
  shows "HASH_ID (next_id a) = HASH_ID (a + 1)"
proof -
  have "(2 ^ 16 :: int) dvd 2 ^ 31" by (rule le_imp_power_dvd) simp
  then show ?thesis using assms by (simp add: next_id_mod HASH_ID_def mod_mod_cancel)
qed

text \<open>The slots that \<open>n\<close> attempts after identifier \<open>a\<close> look at.\<close>

definition window :: "int \<Rightarrow> nat \<Rightarrow> nat set" where
  "window a n = (\<lambda>k. HASH_ID (a + 1 + int k)) ` {..<n}"

lemma window_Suc: "window a (Suc n) = insert (HASH_ID (a + 1)) (window (a + 1) n)"
  by (simp only: window_def lessThan_Suc_eq_insert_0 image_insert image_image) (simp add: algebra_simps)

lemma window_next: "0 \<le> a \<Longrightarrow> a \<le> INT_MAX \<Longrightarrow> window (next_id a) n = window (a + 1) n"
proof -
  assume "0 \<le> a" "a \<le> INT_MAX"
  then have "next_id a mod 2 ^ 16 = (a + 1) mod 2 ^ 16"
    using HASH_ID_next [of a] by (simp add: HASH_ID_def eq_nat_nat_iff)
  then have "HASH_ID (next_id a + 1 + int k) = HASH_ID (a + 1 + 1 + int k)" for k
    unfolding HASH_ID_def by (metis (no_types, lifting) add.assoc mod_add_left_eq)
  then show ?thesis by (simp add: window_def)
qed

lemma window_all: "window a MAX_SOCKET = {..<MAX_SOCKET}"
proof
  show "window a MAX_SOCKET \<subseteq> {..<MAX_SOCKET}" by (auto simp: window_def HASH_ID_less)
  show "{..<MAX_SOCKET} \<subseteq> window a MAX_SOCKET"
  proof
    fix k assume k: "k \<in> {..<MAX_SOCKET}"
    define d where "d = nat ((int k - (a + 1)) mod 2 ^ 16)"
    have d: "d < MAX_SOCKET" by (simp add: d_def MAX_SOCKET_def MAX_SOCKET_P_def nat_less_iff)
    have "(a + 1 + int d) mod 2 ^ 16 = int k mod 2 ^ 16" by (simp add: d_def mod_add_right_eq)
    then have "HASH_ID (a + 1 + int d) = k" using k
      by (simp add: HASH_ID_def MAX_SOCKET_def MAX_SOCKET_P_def)
    with d show "k \<in> window a MAX_SOCKET" by (force simp: window_def)
  qed
qed

lemma reserve_loop:
  assumes "0 \<le> ss_alloc_id ss" "ss_alloc_id ss \<le> INT_MAX" "reserve_loop n ss = (i, ss')"
  shows "(\<exists>a. 0 \<le> a \<and> a \<le> INT_MAX \<and> i = - 1 \<and> ss' = ss\<lparr>ss_alloc_id := a\<rparr> \<and> (\<forall>k \<in> window (ss_alloc_id ss) n. \<not> free_slot ss k))
    \<or> (0 \<le> i \<and> i \<le> INT_MAX \<and> free_slot ss (HASH_ID i)
        \<and> ss' = put_socket (HASH_ID i) (reserved_socket i (ss_slot ss (HASH_ID i))) (ss\<lparr>ss_alloc_id := i\<rparr>))"
  using assms
proof (induction n arbitrary: ss)
  case 0
  then show ?case by (auto simp: window_def intro!: exI [of _ "ss_alloc_id ss"])
next
  case (Suc n)
  note a = Suc.prems(1,2)
  let ?i = "next_id (ss_alloc_id ss)"
  let ?ss = "ss\<lparr>ss_alloc_id := ?i\<rparr>"
  note r = next_id_range [OF a]
  show ?case
  proof (cases "free_slot ss (HASH_ID ?i)")
    case True
    then have "(i, ss') = (?i, put_socket (HASH_ID ?i) (reserved_socket ?i (ss_slot ss (HASH_ID ?i))) ?ss)"
      using Suc.prems(3) by (auto simp: free_slot_def Let_def)
    then have e: "i = ?i" "ss' = put_socket (HASH_ID ?i) (reserved_socket ?i (ss_slot ss (HASH_ID ?i))) ?ss" by blast+
    show ?thesis unfolding e using r True by blast
  next
    case False
    then have "reserve_loop n ?ss = (i, ss')" using Suc.prems(3) by (simp add: free_slot_def Let_def)
    from Suc.IH [OF _ _ this] r have IH: "(\<exists>b. 0 \<le> b \<and> b \<le> INT_MAX \<and> i = - 1 \<and> ss' = ?ss\<lparr>ss_alloc_id := b\<rparr> \<and> (\<forall>k \<in> window ?i n. \<not> free_slot ?ss k))
      \<or> (0 \<le> i \<and> i \<le> INT_MAX \<and> free_slot ?ss (HASH_ID i)
        \<and> ss' = put_socket (HASH_ID i) (reserved_socket i (ss_slot ?ss (HASH_ID i))) (?ss\<lparr>ss_alloc_id := i\<rparr>))"
      by simp
    have w: "window (ss_alloc_id ss) (Suc n) = insert (HASH_ID ?i) (window ?i n)"
      by (simp add: window_Suc window_next [OF a] HASH_ID_next [OF a])
    have f: "free_slot ?ss k = free_slot ss k" for k by (simp add: free_slot_def)
    from IH show ?thesis
    proof
      assume "\<exists>b. 0 \<le> b \<and> b \<le> INT_MAX \<and> i = - 1 \<and> ss' = ?ss\<lparr>ss_alloc_id := b\<rparr> \<and> (\<forall>k \<in> window ?i n. \<not> free_slot ?ss k)"
      then obtain b where "0 \<le> b" "b \<le> INT_MAX" "i = - 1" "ss' = ss\<lparr>ss_alloc_id := b\<rparr>"
        "\<forall>k \<in> window (ss_alloc_id ss) (Suc n). \<not> free_slot ss k"
        using False w f by auto
      then show ?thesis by blast
    next
      assume "0 \<le> i \<and> i \<le> INT_MAX \<and> free_slot ?ss (HASH_ID i)
        \<and> ss' = put_socket (HASH_ID i) (reserved_socket i (ss_slot ?ss (HASH_ID i))) (?ss\<lparr>ss_alloc_id := i\<rparr>)"
      then show ?thesis by (simp add: f)
    qed
  qed
qed

text \<open>C25: \<^verbatim>\<open>reserve_id\<close> fails exactly when all the 65536 slots are in use, and otherwise returns a
  nonnegative identifier whose slot was free; that slot becomes reserved for the identifier, and no other
  slot changes. The counter stays in the range of a nonnegative \<^verbatim>\<open>int\<close>, so this holds of the next call too,
  also after the counter has wrapped.\<close>

theorem reserve_id_correct:
  assumes "0 \<le> ss_alloc_id ss" "ss_alloc_id ss \<le> INT_MAX" "reserve_id ss = (i, ss')"
  shows "0 \<le> ss_alloc_id ss' \<and> ss_alloc_id ss' \<le> INT_MAX
    \<and> (if \<forall>k < MAX_SOCKET. sk_type (ss_slot ss k) \<noteq> SOCKET_TYPE_INVALID then i = - 1 \<and> ss_slot ss' = ss_slot ss
       else 0 \<le> i \<and> i \<le> INT_MAX \<and> sk_type (ss_slot ss (HASH_ID i)) = SOCKET_TYPE_INVALID
         \<and> sk_type (ss_slot ss' (HASH_ID i)) = SOCKET_TYPE_RESERVE \<and> sk_id (ss_slot ss' (HASH_ID i)) = i
         \<and> (\<forall>k. k \<noteq> HASH_ID i \<longrightarrow> ss_slot ss' k = ss_slot ss k))"
proof (cases "\<forall>k < MAX_SOCKET. \<not> free_slot ss k")
  case True
  then have "\<not> free_slot ss (HASH_ID i)" using HASH_ID_less by blast
  with reserve_loop [OF assms(1,2) assms(3) [unfolded reserve_id_def]] obtain a
    where "0 \<le> a" "a \<le> INT_MAX" "i = - 1" "ss' = ss\<lparr>ss_alloc_id := a\<rparr>" by blast
  with True show ?thesis by (simp add: free_slot_def)
next
  case False
  then have "\<not> (\<forall>k \<in> window (ss_alloc_id ss) MAX_SOCKET. \<not> free_slot ss k)" by (simp add: window_all Ball_def)
  with reserve_loop [OF assms(1,2) assms(3) [unfolded reserve_id_def]] have
    i: "0 \<le> i" "i \<le> INT_MAX" "free_slot ss (HASH_ID i)"
      "ss' = put_socket (HASH_ID i) (reserved_socket i (ss_slot ss (HASH_ID i))) (ss\<lparr>ss_alloc_id := i\<rparr>)"
    by blast+
  have "\<not> (\<forall>k < MAX_SOCKET. sk_type (ss_slot ss k) \<noteq> SOCKET_TYPE_INVALID)" using False by (simp add: free_slot_def)
  then show ?thesis using i(1-3) by (simp only: if_False) (simp add: i(4) put_socket_def reserved_socket_def free_slot_def)
qed


lemma reserve_id_created:
  "reserve_id (socket_server_create junk mem) =
     (1, put_socket 1 (reserved_socket 1 (ss_slot (socket_server_create junk mem) 1)) ((socket_server_create junk mem)\<lparr>ss_alloc_id := 1\<rparr>))"
proof -
  have "reserve_id ss = reserve_loop (Suc 65535) ss" for ss by (simp add: reserve_id_def MAX_SOCKET_def MAX_SOCKET_P_def)
  then show ?thesis
    by (simp only: reserve_loop.simps) (simp add: socket_server_create_def next_id_def INT_MAX_def HASH_ID_def Let_def)
qed

lemma reserve_id_correct_witness:
  "\<forall>junk mem. sk_type (ss_slot (snd (reserve_id (socket_server_create junk mem))) 1) = SOCKET_TYPE_RESERVE"
proof (intro allI)
  fix junk mem
  let ?ss = "socket_server_create junk mem"
  have "0 \<le> ss_alloc_id ?ss" "ss_alloc_id ?ss \<le> INT_MAX" by (simp_all add: socket_server_create_def INT_MAX_def)
  note t = reserve_id_correct [OF this reserve_id_created]
  have "\<not> (\<forall>k < MAX_SOCKET. sk_type (ss_slot ?ss k) \<noteq> SOCKET_TYPE_INVALID)"
    by (auto simp: socket_server_create_def MAX_SOCKET_def MAX_SOCKET_P_def intro!: exI [of _ 0])
  with t have "sk_type (ss_slot (put_socket 1 (reserved_socket 1 (ss_slot ?ss 1)) (?ss\<lparr>ss_alloc_id := 1\<rparr>)) (HASH_ID 1)) = SOCKET_TYPE_RESERVE"
    by (simp only: if_False)
  then show "sk_type (ss_slot (snd (reserve_id ?ss)) 1) = SOCKET_TYPE_RESERVE"
    by (simp add: reserve_id_created HASH_ID_def)
qed

end
