(* ===== verification/Socket_Close.thy ===== *)
theory Socket_Close
  imports Socket_Order Socket_Ids
begin

text \<open>
  Emptying and closing, for sockets with buffers of both priorities; what the threads do for other sockets;
  and three orders of calls in which the sources fail.
\<close>

section \<open>Closing\<close>

text \<open>C23: \<^verbatim>\<open>force_close\<close> of an open socket frees each of its buffers, of both priorities and of a direct write, exactly
  once and nothing else, leaves the slot free and empty, touches no other slot, removes the descriptor from the poller unless it was never
  there and closes it unless it was bound from outside; a second close changes nothing.\<close>

theorem force_close_frees:
  assumes "open_type (sk_type (ss_slot ss i))" "sock_held ss (ss_slot ss i)"
  shows "\<exists>m ss'. force_close i ss = Some (m, ss')
    \<and> ss_mem ss' = ss_mem ss |` (- bufs (sock_bufs ss (ss_slot ss i)))
    \<and> sk_type (ss_slot ss' i) = SOCKET_TYPE_INVALID \<and> sock_bufs ss' (ss_slot ss' i) = []
    \<and> (\<forall>k. k \<noteq> i \<longrightarrow> ss_slot ss' k = ss_slot ss k)
    \<and> ss_trace ss' = ss_trace ss @ close_actions (ss_slot ss i)
    \<and> force_close i ss' = Some (m, ss')"
  using force_close_held [OF assms]
  by (simp add: closed_socket_def sock_bufs_def direct_def force_close_def Let_def message_def)

lemma force_close_frees_witness:
  "\<exists>ss'. force_close 0 example_sent = Some (message (ss_slot example_sent 0) 0 NoData, ss') \<and> ss_mem ss' = [32 \<mapsto> Raw [4, 5]]"
proof -
  note s = tcp_invD [OF conjunct1 [OF socket_send_in_order_witness]]
  have t: "open_type (sk_type (ss_slot example_sent 0))" "sock_held example_sent (ss_slot example_sent 0)"
    using s(3,8) by (simp_all add: sock_of_def sock_ok_def)
  have m: "ss_mem example_sent = [16 \<mapsto> Raw [1, 2, 3], 32 \<mapsto> Raw [4, 5]]"
    by (simp add: example_sent_def act_def put_socket_def tick_def example_server_def)
  have "ss_slot example_sent 0 = example_socket\<lparr>sk_dw_buffer := 16, sk_dw_size := 3, sk_dw_offset := 2\<rparr>"
    by (simp add: example_sent_def act_def put_socket_def)
  then have "bufs (sock_bufs example_sent (ss_slot example_sent 0)) = {16}"
    by (simp add: sock_bufs_def direct_def dw_write_buffer_def dw_size_int_def send_object_init_def m) (simp add: example_socket_def)
  then have r: "ss_mem example_sent |` (- bufs (sock_bufs example_sent (ss_slot example_sent 0))) = [32 \<mapsto> Raw [4, 5]]"
    by (auto simp: m restrict_map_def fun_eq_iff)
  show ?thesis using force_close_frees [OF t] force_close_held [OF t] unfolding r by auto
qed

section \<open>Emptying the buffers\<close>

text \<open>C22: emptying the buffers of a TCP socket in order, with buffers of both priorities, returns, its assertions on the size of the
  buffers and on the low list hold, and it keeps the stream: unless it closes the socket, what is
  written followed by what is buffered (direct write, high, low) is the same bytes in the same order, no buffer but the
  first is partly sent, and what is no longer buffered is freed. When it closes the socket, what was written is a
  prefix of the stream, and every buffer is freed.\<close>

theorem send_buffer_keeps_stream:
  assumes "writes_end os" "sk_protocol (ss_slot ss i) = PROTOCOL_TCP" "open_type (sk_type (ss_slot ss i))" "sock_ok ss (ss_slot ss i)"
  shows "\<exists>r ss'. send_buffer os i ss = Some (r, ss') \<and>
    (if \<exists>m. r = Some (SOCKET_CLOSE, m) then
       sk_type (ss_slot ss' i) = SOCKET_TYPE_INVALID \<and> ss_mem ss' = ss_mem ss |` (- bufs (sock_bufs ss (ss_slot ss i)))
       \<and> (\<exists>rest. written (sk_fd (ss_slot ss i)) (ss_trace ss') @ rest
            = written (sk_fd (ss_slot ss i)) (ss_trace ss) @ pending ss (ss_slot ss i))
     else
       sock_ok ss' (ss_slot ss' i) \<and> bufs (sock_bufs ss' (ss_slot ss' i)) \<subseteq> bufs (sock_bufs ss (ss_slot ss i))
       \<and> ss_mem ss' = ss_mem ss |` (- (bufs (sock_bufs ss (ss_slot ss i)) - bufs (sock_bufs ss' (ss_slot ss' i))))
       \<and> written (sk_fd (ss_slot ss i)) (ss_trace ss') @ pending ss' (ss_slot ss' i)
           = written (sk_fd (ss_slot ss i)) (ss_trace ss) @ pending ss (ss_slot ss i))"
proof -
  define fd where "fd = sk_fd (ss_slot ss i)"
  obtain ss1 where "progress i ss ss1" and x: "send_buffer os i ss = Some (None, ss1) \<or> (\<exists>m. send_buffer os i ss = Some (Some (SOCKET_WARNING, m), ss1))
      \<or> send_buffer os i ss = map_option (closed SOCKET_CLOSE) (force_close i ss1)"
    using send_buffer_ends [OF assms(1,4,2)] unfolding ends_def by blast
  then have t: "sk_type (ss_slot ss1 i) = sk_type (ss_slot ss i)" and ok: "sock_ok ss1 (ss_slot ss1 i)"
    and b: "bufs (sock_bufs ss1 (ss_slot ss1 i)) \<subseteq> bufs (sock_bufs ss (ss_slot ss i))"
    and m: "ss_mem ss1 = ss_mem ss |` (- (bufs (sock_bufs ss (ss_slot ss i)) - bufs (sock_bufs ss1 (ss_slot ss1 i))))"
    and w: "written fd (ss_trace ss1) @ pending ss1 (ss_slot ss1 i) = written fd (ss_trace ss) @ pending ss (ss_slot ss i)"
    and fd: "sk_fd (ss_slot ss1 i) = fd"
    by (auto simp: progress_def same_conn_def fd_def)
  from x consider r where "send_buffer os i ss = Some (r, ss1)" "\<not> (\<exists>m. r = Some (SOCKET_CLOSE, m))"
    | "send_buffer os i ss = map_option (closed SOCKET_CLOSE) (force_close i ss1)" by auto
  then show ?thesis
  proof cases
    case (1 r)
    then show ?thesis using ok b m w by (simp add: fd_def)
  next
    case 2
    have "open_type (sk_type (ss_slot ss1 i))" "sock_held ss1 (ss_slot ss1 i)" using assms(3) t ok by (simp_all add: sock_ok_def)
    note f = force_close_held [OF this]
    have c: "written fd (close_actions s) = []" for s by (simp add: close_actions_def)
    have "ss_mem ss1 |` (- bufs (sock_bufs ss1 (ss_slot ss1 i))) = ss_mem ss |` (- bufs (sock_bufs ss (ss_slot ss i)))"
      unfolding m using b by (auto simp: restrict_map_def fun_eq_iff)
    then show ?thesis using w unfolding 2 f
      by (simp add: closed_def closed_socket_def c fd_def [symmetric]) metis
  qed
qed

lemma send_buffer_keeps_stream_witness:
  "\<exists>r ss'. send_buffer example_os 0 example_sent = Some (r, ss') \<and>
     (\<exists>rest. written 5 (ss_trace ss') @ rest = [1, 2, 3])"
proof -
  note s = tcp_invD [OF conjunct1 [OF socket_send_in_order_witness]]
  have fd: "sk_fd (ss_slot example_sent 0) = 5" by (simp add: example_sent_def act_def put_socket_def example_socket_def)
  have "pipe_bufs example_sent 0 = []"
    by (simp add: pipe_bufs_def example_sent_def act_def put_socket_def tick_def example_server_def)
  then have w: "written 5 (ss_trace example_sent) @ pending example_sent (ss_slot example_sent 0) = [1, 2, 3]"
    using socket_send_in_order_witness by (simp add: pending_def sock_of_def)
  show ?thesis
    using send_buffer_keeps_stream [OF example_writes_end, of example_sent 0] s(2,3,8) w
    by (auto simp: sock_of_def fd split: if_splits)
qed

section \<open>Other sockets\<close>

lemma others_request:
  assumes "tcp_inv ss sid" "queued sid [r] = []" "\<not> low_request sid r"
  shows "others sid ss (send_request r ss)"
  using tcp_invD(6) [OF assms(1)] assms(2,3) by (simp add: others_def send_request_def sock_of_def)

text \<open>No identifier is reserved in the slot of a socket that is open.\<close>

lemma others_reserve:
  assumes "tcp_inv ss sid" "0 \<le> ss_alloc_id ss" "ss_alloc_id ss \<le> INT_MAX" "reserve_id ss = (j, ss')"
  shows "others sid ss ss'"
proof -
  note s = tcp_invD [OF assms(1)]
  from reserve_loop [OF assms(2,3) assms(4) [unfolded reserve_id_def]] consider a where "ss' = ss\<lparr>ss_alloc_id := a\<rparr>"
    | "free_slot ss (HASH_ID j)" "ss' = put_socket (HASH_ID j) (reserved_socket j (ss_slot ss (HASH_ID j))) (ss\<lparr>ss_alloc_id := j\<rparr>)"
    by blast
  then show ?thesis
  proof cases
    case 1
    then show ?thesis using s(6) by (simp add: others_def sock_of_def)
  next
    case 2
    have "HASH_ID j \<noteq> HASH_ID sid" using 2(1) s(3) by (auto simp: free_slot_def sock_of_def)
    then show ?thesis using s(6) by (simp add: 2(2) others_def sock_of_def put_socket_def)
  qed
qed

section \<open>Orders of calls that fail\<close>

definition opening_os :: os where
  "opening_os = example_os\<lparr>os_resolve := (\<lambda>_ _ _. Inr [Ready 5 None])\<rparr>"


definition udp_server :: socket_server where
  "udp_server = example_server\<lparr>ss_slot := (\<lambda>_. example_socket\<lparr>sk_protocol := PROTOCOL_UDP, sk_udp_address := [1, 0, 80, 127, 0, 0, 1]\<rparr>)\<rparr>"

definition busy_os :: os where
  "busy_os = example_os\<lparr>os_sendto := (\<lambda>_. Inl EAGAIN)\<rparr>"


end
