(* ===== verification/Socket_Types.thy ===== *)
theory Socket_Types
  imports Socket_Order
begin

text \<open>
  The life of a socket: how the requests and the events change the types of the slots.
\<close>

definition types :: "socket_server \<Rightarrow> nat \<Rightarrow> socket_type" where
  "types ss k = sk_type (ss_slot ss k)"

text \<open>The steps of one slot.\<close>

inductive life :: "socket_type \<Rightarrow> socket_type \<Rightarrow> bool" where
  "life t t"
| "t \<in> {SOCKET_TYPE_CONNECTED, SOCKET_TYPE_CONNECTING, SOCKET_TYPE_PLISTEN, SOCKET_TYPE_BIND} \<Longrightarrow> life SOCKET_TYPE_RESERVE t"
| "life t SOCKET_TYPE_INVALID"
| "life SOCKET_TYPE_INVALID SOCKET_TYPE_RESERVE"
| "life SOCKET_TYPE_INVALID SOCKET_TYPE_PACCEPT"
| "life SOCKET_TYPE_CONNECTING SOCKET_TYPE_CONNECTED"
| "life SOCKET_TYPE_PACCEPT SOCKET_TYPE_CONNECTED"
| "life SOCKET_TYPE_PLISTEN SOCKET_TYPE_LISTEN"
| "t \<noteq> SOCKET_TYPE_INVALID \<Longrightarrow> life t SOCKET_TYPE_HALFCLOSE"

text \<open>What writing and sending can do: nothing, or close one slot.\<close>

definition closes :: "socket_server \<Rightarrow> outcome \<times> socket_server \<Rightarrow> nat \<Rightarrow> bool" where
  "closes ss x i \<longleftrightarrow> types (snd x) = types ss \<or> types (snd x) = (types ss)(i := SOCKET_TYPE_INVALID) \<and> (\<exists>m. fst x = Some (SOCKET_CLOSE, m))"

lemma types_simps [simp]:
  "types (act a ss) = types ss" "types (tick ss) = types ss" "types (ss\<lparr>ss_mem := m\<rparr>) = types ss"
  "types (ss\<lparr>ss_trace := tr\<rparr>) = types ss" "types (ss\<lparr>ss_pipe := p\<rparr>) = types ss" "types (ss\<lparr>ss_time := n\<rparr>) = types ss"
  "types (ss\<lparr>ss_ev := ev\<rparr>) = types ss" "types (ss\<lparr>ss_event_index := n\<rparr>) = types ss" "types (ss\<lparr>ss_alloc_id := j\<rparr>) = types ss"
  "types (put_socket i s ss) = (types ss)(i := sk_type s)" "types (set_type i t ss) = (types ss)(i := t)"
  by (simp_all add: types_def fun_eq_iff act_def tick_def put_socket_def set_type_def)

lemma types_upd_same [simp]: "(types ss)(i := sk_type (ss_slot ss i)) = types ss"
  by (simp add: types_def fun_eq_iff)

lemma ss_slot_simps [simp]: "ss_slot (act a ss) = ss_slot ss" "ss_slot (tick ss) = ss_slot ss" "ss_slot (put_socket i s ss) = (ss_slot ss)(i := s)"
  by (simp_all add: act_def tick_def put_socket_def)

lemma sk_type_set_wb_list [simp]: "sk_type (set_wb_list p l s) = sk_type s"
  by (cases p) (simp_all add: set_wb_list_def)

lemma free_types:
  "free_raw a ss = Some ss' \<Longrightarrow> ss_slot ss' = ss_slot ss" "soi_free a ss = Some ss' \<Longrightarrow> ss_slot ss' = ss_slot ss"
  "so_free u a ss = Some ss' \<Longrightarrow> ss_slot ss' = ss_slot ss" "write_buffer_free wb ss = Some ss' \<Longrightarrow> ss_slot ss' = ss_slot ss"
  "free_buffer a sz ss = Some ss' \<Longrightarrow> ss_slot ss' = ss_slot ss"
  by (auto simp: free_raw_def soi_free_def so_free_def write_buffer_free_def free_buffer_def
      split: if_splits option.splits memobj.splits Option.bind_splits)

lemma free_wb_list_types: "free_wb_list wbs ss = Some ss' \<Longrightarrow> ss_slot ss' = ss_slot ss"
  by (induction wbs arbitrary: ss) (auto split: Option.bind_splits dest: free_types)

lemma types_eqI: "ss_slot ss' = ss_slot ss \<Longrightarrow> types ss' = types ss"
  by (simp add: types_def fun_eq_iff)

lemma force_close_types:
  assumes "force_close i ss = Some (m, ss')"
  shows "types ss' = (types ss)(i := SOCKET_TYPE_INVALID) \<and> types ss i \<noteq> SOCKET_TYPE_RESERVE"
proof (cases "sk_type (ss_slot ss i) = SOCKET_TYPE_INVALID")
  case True
  then show ?thesis using assms by (auto simp: force_close_def types_def fun_eq_iff)
next
  case False
  then show ?thesis using assms
    by (auto simp: force_close_def Let_def types_def fun_eq_iff split: if_splits Option.bind_splits dest!: free_wb_list_types free_types)
qed

lemma closed_types:
  assumes "map_option (closed SOCKET_CLOSE) (force_close i ss) = Some x"
  shows "closes ss x i"
  using assms force_close_types [of i ss] by (auto simp: closes_def closed_def)

lemma sys_write_types: "sys_write os fd bs ss = (r, ss') \<Longrightarrow> ss_slot ss' = ss_slot ss"
  by (auto simp: sys_write_def split: sum.splits)

lemma closes_trans: "types ss1 = types ss \<Longrightarrow> closes ss1 x i \<Longrightarrow> closes ss x i"
  by (simp add: closes_def)

lemma send_list_tcp_types:
  assumes "send_list_tcp os i p ss = Some x"
  shows "closes ss x i"
proof (rule send_list_tcp.raw_induct [of "\<lambda>os i p ss x. closes ss x i", OF _ assms], goal_cases)
  case (1 f os i p ss x)
  note IH = 1(1)
  show ?case
  proof (cases "wb_list p (ss_slot ss i)")
    case Nil
    with 1(2) show ?thesis by (auto simp: closes_def)
  next
    case (Cons tmp rest)
    obtain r ss1 where w: "sys_write os (sk_fd (ss_slot ss i)) (wb_bytes tmp) ss = (r, ss1)" by fastforce
    have t: "types ss1 = types ss" by (rule types_eqI [OF sys_write_types [OF w]])
    have "closes ss1 x i"
    proof (cases r)
      case (Inl e)
      with 1(2) IH closed_types show ?thesis
        by (auto simp: Cons w closes_def split: if_splits)
    next
      case (Inr n)
      with 1(2) consider "types (snd x) = types ss1" | s' l ss2 where "write_buffer_free tmp (put_socket i (set_wb_list p l s') ss1) = Some ss2"
          "sk_type s' = sk_type (ss_slot ss1 i)" "f os i p ss2 = Some x"
        by (auto simp: Cons w Let_def split: if_splits Option.bind_splits)
      then show ?thesis
      proof cases
        case 1 then show ?thesis by (simp add: closes_def)
      next
        case (2 s' l ss2)
        have "types ss2 = types ss1" using types_eqI [OF free_types(4) [OF 2(1)]] 2(2) by simp
        with IH [OF 2(3)] show ?thesis by (rule closes_trans [rotated])
      qed
    qed
    with t show ?thesis by (rule closes_trans)
  qed
qed

lemma drop_udp_types: "drop_udp i p tmp rest ss = Some ss' \<Longrightarrow> types ss' = types ss"
  by (auto simp: drop_udp_def Let_def dest!: free_types(4) types_eqI)

lemma send_list_udp_types: "send_list_udp os i p wbs ss = Some x \<Longrightarrow> types (snd x) = types ss \<and> fst x = None"
proof (induction wbs arbitrary: ss)
  case Nil
  then show ?case by auto
next
  case (Cons tmp rest)
  then show ?case
    by (auto simp: sys_sendto_def Let_def split: Option.bind_splits option.splits sum.splits if_splits prod.splits dest!: drop_udp_types)
qed

lemma send_list_types: "send_list os i p ss = Some x \<Longrightarrow> closes ss x i"
  using send_list_tcp_types send_list_udp_types by (auto simp: send_list_def closes_def split: if_splits)

lemma raise_uncomplete_types: "raise_uncomplete i ss = Some ss' \<Longrightarrow> types ss' = types ss"
  by (auto simp: raise_uncomplete_def Let_def split: list.splits if_splits)

lemma send_buffer_done_types: "send_buffer_done i ss = Some x \<Longrightarrow> closes ss x i"
  using closed_types [of i "act (PollWrite (sk_fd (ss_slot ss i)) False) ss" x]
  by (auto simp: send_buffer_done_def Let_def closes_def split: if_splits)

lemma send_buffer_rest_types:
  assumes "send_buffer_rest os i ss = Some x"
  shows "closes ss x i"
proof -
  obtain r ss1 where 1: "send_list os i High ss = Some (r, ss1)" using assms
    by (auto simp: send_buffer_rest_def split: if_splits Option.bind_splits)
  note t1 = send_list_types [OF 1]
  show ?thesis
  proof (cases "r = None \<and> sk_high (ss_slot ss1 i) = []")
    case False
    then show ?thesis using assms 1 t1 by (cases r) (auto simp: send_buffer_rest_def split: if_splits)
  next
    case True
    then have t1: "types ss1 = types ss" using t1 by (simp add: closes_def)
    have "closes ss1 x i"
    proof (cases "sk_low (ss_slot ss1 i) = []")
      case low: True
      then show ?thesis using assms 1 True send_buffer_done_types by (auto simp: send_buffer_rest_def split: if_splits)
    next
      case low: False
      obtain r2 ss2 where 2: "send_list os i Low ss1 = Some (r2, ss2)" using assms 1 True low
        by (auto simp: send_buffer_rest_def split: if_splits Option.bind_splits)
      note t2 = send_list_types [OF 2]
      have x: "x = (r2, ss2) \<and> r2 \<noteq> None \<or> r2 = None \<and> (\<exists>ss3. x = (None, ss3) \<and> types ss3 = types ss2) \<or> r2 = None \<and> send_buffer_done i ss2 = Some x"
        using assms 1 2 True low
        by (cases r2) (auto simp: send_buffer_rest_def split: if_splits dest: raise_uncomplete_types)
      then show ?thesis
      proof (elim disjE conjE exE)
        assume "r2 = None" "send_buffer_done i ss2 = Some x"
        then have "types ss2 = types ss1" "closes ss2 x i"
          using t2 send_buffer_done_types [of i ss2 x] by (simp_all add: closes_def)
        then show ?thesis by (rule closes_trans)
      qed (use t2 in \<open>auto simp: closes_def\<close>)
    qed
    then show ?thesis by (rule closes_trans [OF t1])
  qed
qed

lemma send_buffer_types:
  assumes "send_buffer os i ss = Some x"
  shows "closes ss x i"
proof -
  obtain ss1 where "types ss1 = types ss" "send_buffer_rest os i ss1 = Some x"
  proof (cases "sk_dw_buffer (ss_slot ss i) = 0")
    case True
    then show thesis using assms that [of ss] by (simp add: send_buffer_def Let_def)
  next
    case False
    then obtain buf where "dw_write_buffer ss (ss_slot ss i) = Some buf" using assms
      by (auto simp: send_buffer_def Let_def split: Option.bind_splits)
    then show thesis using assms False by (intro that) (auto simp: send_buffer_def Let_def)
  qed
  then show ?thesis using send_buffer_rest_types closes_trans by blast
qed

lemma append_sendbuffer_types: "append_sendbuffer ss i p b sz a = Some ss' \<Longrightarrow> types ss' = types ss"
  by (auto simp: append_sendbuffer_def Let_def split: Option.bind_splits)

lemma send_warning_types: "send_warning i ss = Some x \<Longrightarrow> types (snd x) = types ss"
  by (auto simp: send_warning_def Let_def split: if_splits)

lemma so_drop_types: "so_drop b sz ss = Some x \<Longrightarrow> types (snd x) = types ss"
  by (auto simp: so_drop_def dest!: free_types(5) types_eqI)

lemma sys_sendto_types: "sys_sendto os fd bs sa ss = (r, ss') \<Longrightarrow> types ss' = types ss"
  by (auto simp: sys_sendto_def split: sum.splits)

lemma send_socket_types:
  assumes "send_socket os sid b sz p a ss = Some x"
  shows "types (snd x) = types ss"
  using assms
  by (auto simp: send_socket_def Let_def split: if_splits Option.bind_splits option.splits prod.splits
      dest!: append_sendbuffer_types send_warning_types so_drop_types sys_sendto_types)

section \<open>Requests\<close>

lemma life_upd:
  assumes "types ss' = (types ss)(i := t)" "life (types ss i) t"
  shows "life (types ss k) (types ss' k)"
  using assms by (auto intro: life.intros)

lemma life_same: "types ss' = types ss \<Longrightarrow> life (types ss k) (types ss' k)"
  by (simp add: life.intros(1))

lemma closes_life: "closes ss x i \<Longrightarrow> life (types ss k) (types (snd x) k)"
  by (auto simp: closes_def intro: life_same life_upd life.intros)

lemma force_close_life: "force_close i ss = Some (m, ss') \<Longrightarrow> life (types ss k) (types ss' k)"
  by (metis force_close_types life_upd life.intros(3))

lemma new_fd_types:
  assumes "new_fd os sid fd proto opaque add ss = Some (ns, ss')"
  shows "types ss (HASH_ID sid) = SOCKET_TYPE_RESERVE \<and> (case ns of None \<Rightarrow> types ss' = (types ss)(HASH_ID sid := SOCKET_TYPE_INVALID)
     | Some k \<Rightarrow> k = HASH_ID sid \<and> types ss' = types ss)"
  using assms by (auto simp: new_fd_def Let_def types_def fun_eq_iff split: if_splits)

lemma open_failed_types: "open_failed sid opaque d ss = Some x \<Longrightarrow> types (snd x) = (types ss)(HASH_ID sid := SOCKET_TYPE_INVALID)"
  by (auto simp: open_failed_def)

text \<open>A slot that was taken for a new descriptor gets type \<open>t\<close>, or is free again.\<close>

definition takes :: "socket_server \<Rightarrow> socket_server \<Rightarrow> nat \<Rightarrow> socket_type set \<Rightarrow> bool" where
  "takes ss ss' i ts \<longleftrightarrow> types ss' = (types ss)(i := SOCKET_TYPE_INVALID)
     \<or> types ss i = SOCKET_TYPE_RESERVE \<and> (\<exists>t \<in> ts. types ss' = (types ss)(i := t))"

lemma takes_life:
  assumes "takes ss ss' i ts" "ts \<subseteq> {SOCKET_TYPE_CONNECTED, SOCKET_TYPE_CONNECTING, SOCKET_TYPE_PLISTEN, SOCKET_TYPE_BIND}"
  shows "life (types ss k) (types ss' k)"
  using assms(1) unfolding takes_def
proof (elim disjE conjE bexE)
  assume "types ss' = (types ss)(i := SOCKET_TYPE_INVALID)"
  then show ?thesis by (rule life_upd) (rule life.intros)
next
  fix t assume t: "types ss i = SOCKET_TYPE_RESERVE" "t \<in> ts" "types ss' = (types ss)(i := t)"
  have "life (types ss i) t" unfolding t(1) using assms(2) t(2) by (intro life.intros(2)) blast
  with t(3) show ?thesis by (rule life_upd)
qed

lemma listen_socket_types: "listen_socket os sid fd opaque ss = Some x \<Longrightarrow> takes ss (snd x) (HASH_ID sid) {SOCKET_TYPE_PLISTEN}"
  by (auto simp: listen_socket_def takes_def split: Option.bind_splits option.splits dest!: new_fd_types open_failed_types)

lemma bind_socket_types: "bind_socket os sid fd opaque ss = Some x \<Longrightarrow> takes ss (snd x) (HASH_ID sid) {SOCKET_TYPE_BIND}"
  by (auto simp: bind_socket_def takes_def split: Option.bind_splits option.splits dest!: new_fd_types)

lemma add_udp_socket_types: "add_udp_socket os sid fd v6 opaque ss = Some ss' \<Longrightarrow> takes ss ss' (HASH_ID sid) {SOCKET_TYPE_CONNECTED}"
  by (auto simp: add_udp_socket_def takes_def split: Option.bind_splits option.splits dest!: new_fd_types)

lemma open_socket_types:
  assumes "open_socket os sid port host opaque ss = Some x"
  shows "takes ss (snd x) (HASH_ID sid) {SOCKET_TYPE_CONNECTED, SOCKET_TYPE_CONNECTING}"
  using assms
  by (auto simp: open_socket_def takes_def Let_def split: sum.splits prod.splits attempt.splits Option.bind_splits option.splits
      dest!: new_fd_types open_failed_types)

lemma start_socket_types:
  assumes "start_socket os sid opaque ss = Some x"
  shows "life (types ss k) (types (snd x) k)"
proof -
  let ?i = "HASH_ID sid"
  consider "types (snd x) = types ss" | "types (snd x) = (types ss)(?i := SOCKET_TYPE_INVALID)"
    | "types ss ?i = SOCKET_TYPE_PACCEPT" "types (snd x) = (types ss)(?i := SOCKET_TYPE_CONNECTED)"
    | "types ss ?i = SOCKET_TYPE_PLISTEN" "types (snd x) = (types ss)(?i := SOCKET_TYPE_LISTEN)"
    using assms
    by (auto simp: start_socket_def Let_def types_def [of ss ?i] fun_upd_idem split: if_splits option.splits dest!: force_close_types)
  then show ?thesis
  proof cases
    case 1 then show ?thesis by (rule life_same)
  next
    case 2 then show ?thesis by (rule life_upd) (rule life.intros)
  next
    case 3 from 3(2) show ?thesis by (rule life_upd) (simp add: 3(1) life.intros)
  next
    case 4 from 4(2) show ?thesis by (rule life_upd) (simp add: 4(1) life.intros)
  qed
qed

lemma close_socket_types:
  assumes "close_socket os sid shutdown opaque ss = Some x"
  shows "life (types ss k) (types (snd x) k)"
proof -
  let ?i = "HASH_ID sid"
  define s where "s = ss_slot ss ?i"
  show ?thesis
  proof (cases "sk_type s = SOCKET_TYPE_INVALID \<or> sk_id s \<noteq> sid")
    case True
    then show ?thesis using assms by (auto simp: close_socket_def Let_def s_def intro: life.intros(1))
  next
    case False
    define flush where "flush = (if nomore_sending_data s then Some (None, ss) else send_buffer os ?i ss)"
    obtain r ss1 where 1: "flush = Some (r, ss1)" using assms False
      by (cases flush) (auto simp: close_socket_def Let_def s_def flush_def)
    have c: "closes ss (r, ss1) ?i"
      using 1 send_buffer_types [of os ?i ss "(r, ss1)"] by (auto simp: flush_def closes_def split: if_splits)
    from assms False 1 consider "x = (r, ss1)"
      | m ss2 where "r = None \<or> fst (the r) = SOCKET_WARNING" "force_close ?i ss1 = Some (m, ss2)" "snd x = ss2"
      | "r = None \<or> fst (the r) = SOCKET_WARNING" "snd x = set_type ?i SOCKET_TYPE_HALFCLOSE ss1"
      by (cases r) (auto simp: close_socket_def Let_def s_def [symmetric] flush_def [symmetric] split: if_splits Option.bind_splits)
    then show ?thesis
    proof cases
      case 1
      then show ?thesis using closes_life [OF c] by simp
    next
      case (2 m ss2)
      then have "types ss1 = types ss" using c by (auto simp: closes_def)
      then show ?thesis using force_close_life [OF 2(2), of k] 2(3) by simp
    next
      case 3
      then have "types (snd x) = (types ss)(?i := SOCKET_TYPE_HALFCLOSE)" using c by (auto simp: closes_def)
      moreover have "types ss ?i \<noteq> SOCKET_TYPE_INVALID" using False by (simp add: types_def s_def)
      ultimately show ?thesis by (rule life_upd [OF _ life.intros(9)])
    qed
  qed
qed

lemma dec_sending_ref_types: "dec_sending_ref sid ss = Some ss' \<Longrightarrow> types ss' = types ss"
  by (auto simp: dec_sending_ref_def Let_def split: if_splits)

lemma setopt_socket_types: "types (setopt_socket sid what v ss) = types ss"
  by (simp add: setopt_socket_def Let_def)

lemma set_udp_address_types: "types (snd (set_udp_address sid address ss)) = types ss"
  by (simp add: set_udp_address_def Let_def)

lemma ctrl_request_types:
  assumes "ctrl_request os req ss = Some x"
  shows "life (types ss k) (types (snd x) k)"
proof (cases req)
  case (Req_S sid opaque)
  then show ?thesis using assms start_socket_types by (simp add: ctrl_request_def)
next
  case (Req_B sid fd opaque)
  then show ?thesis using assms bind_socket_types [of os sid fd opaque ss x] by (auto simp: ctrl_request_def intro: takes_life)
next
  case (Req_L sid fd opaque)
  then show ?thesis using assms listen_socket_types [of os sid fd opaque ss x] by (auto simp: ctrl_request_def intro: takes_life)
next
  case (Req_K sid sh opaque)
  then show ?thesis using assms close_socket_types by (simp add: ctrl_request_def)
next
  case (Req_O sid port host opaque)
  then show ?thesis using assms open_socket_types [of os sid port host opaque ss x] by (auto simp: ctrl_request_def intro: takes_life)
next
  case Req_X
  then show ?thesis using assms by (auto simp: ctrl_request_def intro: life_same)
next
  case (Req_D sid sz b)
  then show ?thesis using assms
    by (auto simp: ctrl_request_def split: Option.bind_splits dest!: send_socket_types dec_sending_ref_types intro!: life_same)
next
  case (Req_P sid sz b)
  then show ?thesis using assms
    by (auto simp: ctrl_request_def split: Option.bind_splits dest!: send_socket_types dec_sending_ref_types intro!: life_same)
next
  case (Req_A sid sz b a)
  then show ?thesis using assms by (auto simp: ctrl_request_def dest!: send_socket_types intro!: life_same)
next
  case (Req_C sid a)
  then show ?thesis using assms set_udp_address_types by (auto simp: ctrl_request_def intro!: life_same)
next
  case (Req_T sid w v)
  then show ?thesis using assms setopt_socket_types by (auto simp: ctrl_request_def intro!: life_same)
next
  case (Req_U sid fd v6 opaque)
  then show ?thesis using assms add_udp_socket_types [of os sid fd v6 opaque ss] by (auto simp: ctrl_request_def intro: takes_life)
qed

section \<open>Events\<close>

lemma forward_message_tcp_types:
  assumes "forward_message_tcp os i ss = Some x"
  shows "life (types ss k) (types (snd x) k)"
proof -
  have "types (snd x) = types ss \<or> types (snd x) = (types ss)(i := SOCKET_TYPE_INVALID)"
    using assms
    by (auto simp: forward_message_tcp_def Let_def closed_def split: sum.splits if_splits dest!: force_close_types)
  then show ?thesis by (auto intro: life_same life_upd life.intros)
qed

lemma forward_message_udp_types:
  assumes "forward_message_udp os i ss = Some x"
  shows "life (types ss k) (types (snd x) k)"
proof -
  have "types (snd x) = types ss \<or> types (snd x) = (types ss)(i := SOCKET_TYPE_INVALID)"
    using assms
    by (auto simp: forward_message_udp_def Let_def split: sum.splits if_splits prod.splits dest!: force_close_types)
  then show ?thesis by (auto intro: life_same life_upd life.intros)
qed

lemma report_connect_types:
  assumes "report_connect os i ss = Some x" "types ss i = SOCKET_TYPE_CONNECTING"
  shows "life (types ss k) (types (snd x) k)"
proof -
  consider "types (snd x) = (types ss)(i := SOCKET_TYPE_CONNECTED)" | "types (snd x) = (types ss)(i := SOCKET_TYPE_INVALID)"
    using assms(1) by (auto simp: report_connect_def Let_def split: option.splits if_splits dest!: force_close_types)
  then show ?thesis
  proof cases
    case 1 then show ?thesis by (rule life_upd) (simp add: assms(2) life.intros)
  next
    case 2 then show ?thesis by (rule life_upd) (rule life.intros)
  qed
qed

lemma reserve_loop_types:
  "reserve_loop n ss = (j, ss') \<Longrightarrow>
     types ss' = types ss \<and> j = - 1 \<or> types ss (HASH_ID j) = SOCKET_TYPE_INVALID \<and> types ss' = (types ss)(HASH_ID j := SOCKET_TYPE_RESERVE)"
proof (induction n arbitrary: ss)
  case 0
  then show ?case by auto
next
  case (Suc n)
  let ?ss = "ss\<lparr>ss_alloc_id := next_id (ss_alloc_id ss)\<rparr>"
  show ?case
  proof (cases "sk_type (ss_slot ss (HASH_ID (next_id (ss_alloc_id ss)))) = SOCKET_TYPE_INVALID")
    case True
    then show ?thesis using Suc.prems by (auto simp: Let_def reserved_socket_def types_def [of ss])
  next
    case False
    then show ?thesis using Suc.prems Suc.IH [of ?ss] by (simp add: Let_def)
  qed
qed

lemma report_accept_types:
  assumes "report_accept os i ss = Some x"
  shows "life (types ss k) (types (snd x) k)"
proof (cases "os_accept os (ss_time ss)")
  case (Inl e)
  then show ?thesis using assms by (auto simp: report_accept_def Let_def split: if_splits intro!: life_same)
next
  case (Inr fp)
  obtain j ss1 where 1: "reserve_id (tick ss) = (j, ss1)" by fastforce
  note r = reserve_loop_types [OF 1 [unfolded reserve_id_def]]
  show ?thesis
  proof (cases "j < 0")
    case True
    then have "types (snd x) = types ss1" using assms Inr 1 by (auto simp: report_accept_def Let_def split: prod.splits)
    with r show ?thesis by (auto intro: life.intros)
  next
    case False
    then have "types ss (HASH_ID j) = SOCKET_TYPE_INVALID" "types ss1 = (types ss)(HASH_ID j := SOCKET_TYPE_RESERVE)" using r by auto
    moreover have "types (snd x) = (types ss1)(HASH_ID j := SOCKET_TYPE_PACCEPT) \<or> types (snd x) = (types ss1)(HASH_ID j := SOCKET_TYPE_INVALID)"
      using assms Inr 1 False
      by (auto simp: report_accept_def Let_def split: prod.splits option.splits Option.bind_splits dest!: new_fd_types)
    ultimately show ?thesis by (auto intro: life.intros)
  qed
qed

text \<open>An event of a socket that is neither connecting nor listening.\<close>

definition socket_event_of :: "os \<Rightarrow> nat \<Rightarrow> event \<Rightarrow> nat \<Rightarrow> socket_server \<Rightarrow> (outcome \<times> socket_server) option" where
  "socket_event_of os n e i ss =
     (let s = ss_slot ss i in
      if ev_read e then do {
        (r, ss) \<leftarrow> (if sk_protocol s = PROTOCOL_TCP then forward_message_tcp os i ss else forward_message_udp os i ss);
        let t = map_option fst r;
        if sk_protocol s \<noteq> PROTOCOL_TCP \<and> t = Some SOCKET_UDP then Some (r, again n e ss)
        else if ev_write e \<and> t \<noteq> Some SOCKET_CLOSE \<and> t \<noteq> Some SOCKET_ERR then Some (r, again n (e\<lparr>ev_read := False\<rparr>) ss)
        else Some (r, ss)
      }
      else if ev_write e then send_buffer os i ss
      else if ev_error e then
        let text = (case os_sockerr os (ss_time ss) of Some err \<Rightarrow> os_strerror os err | None \<Rightarrow> ''Unknown error'') in
        map_option (\<lambda>(m, ss). (Some (SOCKET_ERR, m\<lparr>sm_data := Text text\<rparr>), ss)) (force_close i (tick ss))
      else if ev_eof e then map_option (closed SOCKET_CLOSE) (force_close i ss)
      else Some (None, ss))"

lemma handle_event_cases:
  "handle_event os n e i ss =
     (case types ss i of
        SOCKET_TYPE_CONNECTING \<Rightarrow> report_connect os i ss
      | SOCKET_TYPE_LISTEN \<Rightarrow> report_accept os i ss
      | SOCKET_TYPE_INVALID \<Rightarrow> Some (None, ss)
      | _ \<Rightarrow> socket_event_of os n e i ss)"
  unfolding handle_event_def socket_event_of_def types_def Let_def by (rule refl)

lemma again_types [simp]: "types (again n e ss) = types ss"
  by (simp add: again_def)

lemma socket_event_of_types:
  assumes "socket_event_of os n e i ss = Some x"
  shows "life (types ss k) (types (snd x) k)"
proof (cases "ev_read e")
  case True
  define y where "y = (if sk_protocol (ss_slot ss i) = PROTOCOL_TCP then forward_message_tcp os i ss else forward_message_udp os i ss)"
  obtain r ss1 where 1: "y = Some (r, ss1)"
    using assms True by (cases y) (auto simp: socket_event_of_def Let_def y_def)
  then have "life (types ss k) (types (snd (r, ss1)) k)"
    unfolding y_def using forward_message_tcp_types forward_message_udp_types by (metis (full_types))
  moreover have "types (snd x) = types ss1"
    using assms True 1 by (auto simp: socket_event_of_def Let_def y_def [symmetric] split: if_splits)
  ultimately show ?thesis by simp
next
  case False
  with assms consider "send_buffer os i ss = Some x" | m ss1 ss2 where "force_close i ss1 = Some (m, ss2)" "types ss1 = types ss" "snd x = ss2"
    | "types (snd x) = types ss"
    by (auto simp: socket_event_of_def Let_def closed_def split: if_splits)
  then show ?thesis
  proof cases
    case 1 then show ?thesis by (rule closes_life [OF send_buffer_types])
  next
    case (2 m ss1 ss2)
    from force_close_life [OF 2(1), of k] show ?thesis by (simp only: 2(2,3))
  next
    case 3 then show ?thesis by (rule life_same)
  qed
qed

lemma handle_event_types:
  assumes "handle_event os n e i ss = Some x"
  shows "life (types ss k) (types (snd x) k)"
  using assms report_connect_types [of os i ss x] report_accept_types [of os i ss x] socket_event_of_types [of os n e i ss x]
  unfolding handle_event_cases by (cases "types ss i") (auto intro: life_same)

text \<open>C24: the life of a socket. Every request and every event of the poller changes the type of each slot along
  the steps of \<open>life\<close>, or not at all: a reserved slot becomes connected, connecting, a listener not yet started, or
  bound; a connecting one connected; an accepted one connected and a listener listening once it is started; an accepted
  connection takes a free slot; any slot in use can become half closed, and any slot free. In particular a listener never carries data, and a half-closed
  socket can only be closed.\<close>

theorem socket_types_follow_life:
  "(\<forall>x k. ctrl_request os req ss = Some x \<longrightarrow> life (types ss k) (types (snd x) k))
   \<and> (\<forall>x k. handle_event os n e i ss = Some x \<longrightarrow> life (types ss k) (types (snd x) k))
   \<and> (\<forall>t. life SOCKET_TYPE_HALFCLOSE t \<longrightarrow> t = SOCKET_TYPE_HALFCLOSE \<or> t = SOCKET_TYPE_INVALID)
   \<and> (\<forall>t. life SOCKET_TYPE_LISTEN t \<longrightarrow> t \<in> {SOCKET_TYPE_LISTEN, SOCKET_TYPE_HALFCLOSE, SOCKET_TYPE_INVALID})"
  using ctrl_request_types handle_event_types by (auto elim: life.cases)

definition listening_server :: socket_server where
  "listening_server = example_server\<lparr>ss_slot := (\<lambda>_. example_socket\<lparr>sk_type := SOCKET_TYPE_PLISTEN\<rparr>)\<rparr>"

text \<open>Starting a listener.\<close>

lemma socket_types_follow_life_witness:
  "\<exists>x. ctrl_request example_os (Req_S 0 9) listening_server = Some x \<and> life SOCKET_TYPE_PLISTEN (types (snd x) 0)
     \<and> types (snd x) 0 = SOCKET_TYPE_LISTEN"
proof -
  have "types listening_server 0 = SOCKET_TYPE_PLISTEN" by (simp add: listening_server_def types_def)
  moreover obtain x where x: "ctrl_request example_os (Req_S 0 9) listening_server = Some x" "types (snd x) 0 = SOCKET_TYPE_LISTEN"
    by (simp add: ctrl_request_def start_socket_def Let_def listening_server_def example_os_def example_socket_def)
  moreover have "life (types listening_server 0) (types (snd x) 0)"
    using socket_types_follow_life [of example_os "Req_S 0 9" listening_server] x(1) by blast
  ultimately show ?thesis by metis
qed

end
