(* ===== verification/Lua_Result.thy ===== *)
theory Lua_Result
  imports Skynet_Prelude
begin

text \<open>
  The outcome of a C function called from Lua: a value, a Lua error (\<^verbatim>\<open>luaL_error\<close>,
  which does not return), or undefined behaviour of C such as an access outside an
  array. A Lua string is the list of its bytes.
\<close>

datatype 'a cres = Ok 'a | LuaError string | Undefined

fun cres_bind :: "'a cres \<Rightarrow> ('a \<Rightarrow> 'b cres) \<Rightarrow> 'b cres" where
  "cres_bind (Ok x) f = f x"
| "cres_bind (LuaError e) f = LuaError e"
| "cres_bind Undefined f = Undefined"

type_synonym bytes = "u8 list"

section \<open>Words and their bytes\<close>

text \<open>Four bytes, the most significant first (\<^verbatim>\<open>GET_UINT32\<close>, \<^verbatim>\<open>PUT_UINT32\<close>).\<close>

definition get_be32 :: "u8 \<Rightarrow> u8 \<Rightarrow> u8 \<Rightarrow> u8 \<Rightarrow> u32" where
  "get_be32 a b c d = push_bit 24 (ucast a) OR push_bit 16 (ucast b) OR push_bit 8 (ucast c) OR ucast d"

definition put_be32 :: "u32 \<Rightarrow> bytes" where
  "put_be32 n = [ucast (drop_bit 24 n), ucast (drop_bit 16 n), ucast (drop_bit 8 n), ucast n]"

text \<open>Four bytes, the least significant first.\<close>

definition get_le32 :: "u8 \<Rightarrow> u8 \<Rightarrow> u8 \<Rightarrow> u8 \<Rightarrow> u32" where
  "get_le32 a b c d = ucast a OR push_bit 8 (ucast b) OR push_bit 16 (ucast c) OR push_bit 24 (ucast d)"

definition put_le32 :: "u32 \<Rightarrow> bytes" where
  "put_le32 n = [ucast n, ucast (drop_bit 8 n), ucast (drop_bit 16 n), ucast (drop_bit 24 n)]"

lemma bit_byte_out: "8 \<le> n \<Longrightarrow> \<not> bit (b :: u8) n"
  using bit_imp_le_length [of b n] by auto

lemma ucast_and_ff: "ucast (w AND 0xff) = (ucast (w :: 'a::len word) :: u8)"
proof -
  have "w AND 0xff = take_bit 8 w" by (simp add: take_bit_eq_mask mask_eq_exp_minus_1)
  then show ?thesis by (simp only:) (rule bit_eqI, auto simp: bit_simps)
qed

lemma put_get_be32: "put_be32 (get_be32 a b c d) = [a, b, c, d]"
proof -
  have "ucast (drop_bit 24 (get_be32 a b c d)) = a"
    unfolding get_be32_def by (rule bit_eqI) (auto simp: bit_simps bit_byte_out)
  moreover have "ucast (drop_bit 16 (get_be32 a b c d)) = b"
    unfolding get_be32_def by (rule bit_eqI) (auto simp: bit_simps bit_byte_out)
  moreover have "ucast (drop_bit 8 (get_be32 a b c d)) = c"
    unfolding get_be32_def by (rule bit_eqI) (auto simp: bit_simps bit_byte_out)
  moreover have "ucast (get_be32 a b c d) = d"
    unfolding get_be32_def by (rule bit_eqI) (auto simp: bit_simps bit_byte_out)
  ultimately show ?thesis by (simp add: put_be32_def)
qed

lemma get_put_be32:
  "get_be32 (ucast (drop_bit 24 n)) (ucast (drop_bit 16 n)) (ucast (drop_bit 8 n)) (ucast n) = n"
proof (rule bit_eqI)
  fix i :: nat
  consider "i < 8" | "8 \<le> i" "i < 16" | "16 \<le> i" "i < 24" | "24 \<le> i" "i < 32" | "32 \<le> i" by linarith
  then show "bit (get_be32 (ucast (drop_bit 24 n)) (ucast (drop_bit 16 n)) (ucast (drop_bit 8 n)) (ucast n)) i \<longleftrightarrow> bit n i"
    unfolding get_be32_def
    by cases (auto simp: bit_simps dest: bit_imp_le_length)
qed

lemma get_le32_be32: "get_le32 a b c d = get_be32 d c b a" and put_le32_be32: "put_le32 n = rev (put_be32 n)"
  by (simp_all add: get_le32_def get_be32_def put_le32_def put_be32_def ac_simps)

lemma put_get_le32: "put_le32 (get_le32 a b c d) = [a, b, c, d]"
  by (simp add: get_le32_be32 put_le32_be32 put_get_be32)

lemma get_put_le32:
  "get_le32 (ucast n) (ucast (drop_bit 8 n)) (ucast (drop_bit 16 n)) (ucast (drop_bit 24 n)) = n"
  by (simp add: get_le32_be32 get_put_be32)

lemma put_le32_xor: "put_le32 (x XOR y) = map2 (XOR) (put_le32 x) (put_le32 y)"
  by (simp add: put_le32_def drop_bit_xor unsigned_xor_eq)

end
