(* ===== verification/Netpack.thy ===== *)
theory Netpack
  imports Lua_Result Fifo_Spec
begin

text \<open>
  The packet reassembly of \<^verbatim>\<open>lualib-src/lua-netpack.c\<close>. A packet on the wire is its size in two
  bytes, the high one first, and its data. \<^verbatim>\<open>lfilter\<close> takes what arrives on the sockets, keeps
  the incomplete packet of every connection in a hash table, hands out a single complete packet
  at once, and puts several into a ring that \<^verbatim>\<open>lpop\<close> empties. The blocks a packet is assembled in
  are byte strings; the queue that Lua has not created yet is \<^term>\<open>None\<close>. An operation is
  \<^term>\<open>None\<close> when an assertion fails or the capacity of the ring overflows.
\<close>

section \<open>State\<close>

definition QUEUESIZE :: nat where
  "QUEUESIZE = 1024"

definition HASHSIZE :: nat where
  "HASHSIZE = 4096"

record netpack =
  np_id :: int
  np_size :: nat
  np_buffer :: bytes

record uncomplete =
  uc_id :: int
  uc_size :: nat
  uc_buffer :: bytes
  uc_read :: int
  uc_header :: nat

text \<open>The chain of a bucket of the hash table is a list.\<close>

record np_queue =
  nq_cap :: nat
  nq_head :: nat
  nq_tail :: nat
  nq_hash :: "nat \<Rightarrow> uncomplete list"
  nq_queue :: "netpack option list"

definition np_create :: np_queue where
  "np_create = \<lparr>nq_cap = QUEUESIZE, nq_head = 0, nq_tail = 0, nq_hash = \<lambda>_. [], nq_queue = replicate QUEUESIZE None\<rparr>"

definition get_queue :: "np_queue option \<Rightarrow> np_queue" where
  "get_queue q = (case q of None \<Rightarrow> np_create | Some q \<Rightarrow> q)"

section \<open>The ring\<close>

definition np_expand :: "np_queue \<Rightarrow> np_queue option" where
  "np_expand q =
     (if int (nq_cap q + QUEUESIZE) > INT_MAX then None
      else Some (q\<lparr>nq_cap := nq_cap q + QUEUESIZE, nq_head := 0, nq_tail := nq_cap q,
        nq_queue := map (\<lambda>i. nq_queue q ! ((nq_head q + i) mod nq_cap q)) [0..<nq_cap q] @ replicate QUEUESIZE None\<rparr>))"

definition np_push :: "np_queue \<Rightarrow> netpack \<Rightarrow> np_queue option" where
  "np_push q np =
     (let queue = (nq_queue q)[nq_tail q := Some np];
          tail = nq_tail q + 1;
          tail = (if tail \<ge> nq_cap q then tail - nq_cap q else tail);
          q = q\<lparr>nq_queue := queue, nq_tail := tail\<rparr>
      in if nq_head q = tail then np_expand q else Some q)"

definition push_data :: "int \<Rightarrow> bytes \<Rightarrow> nat \<Rightarrow> np_queue option \<Rightarrow> np_queue option" where
  "push_data fd buffer sz q = np_push (get_queue q) \<lparr>np_id = fd, np_size = sz, np_buffer = buffer\<rparr>"

definition np_pop :: "np_queue \<Rightarrow> (netpack option \<times> np_queue) option" where
  "np_pop q =
     (if nq_head q = nq_tail q then Some (None, q)
      else case nq_queue q ! nq_head q of
        None \<Rightarrow> None
      | Some np \<Rightarrow>
          let head = nq_head q + 1 in
          Some (Some np, q\<lparr>nq_head := if head \<ge> nq_cap q then 0 else head\<rparr>))"

definition lpop :: "np_queue option \<Rightarrow> (netpack option \<times> np_queue option) option" where
  "lpop q = (case q of None \<Rightarrow> Some (None, None) | Some q \<Rightarrow> map_option (map_prod id Some) (np_pop q))"

definition np_contents :: "np_queue \<Rightarrow> netpack list" where
  "np_contents q =
     map (\<lambda>i. the (nq_queue q ! ((nq_head q + i) mod nq_cap q))) [0..<(nq_tail q + nq_cap q - nq_head q) mod nq_cap q]"

definition lclear :: "np_queue \<Rightarrow> np_queue" where
  "lclear q = q\<lparr>nq_hash := \<lambda>_. [], nq_head := 0, nq_tail := 0\<rparr>"

section \<open>Incomplete packets\<close>

definition hash_fd :: "int \<Rightarrow> nat" where
  "hash_fd fd = unat (of_int (drop_bit 24 fd + drop_bit 12 fd + fd) :: u32) mod HASHSIZE"

fun uc_remove :: "int \<Rightarrow> uncomplete list \<Rightarrow> (uncomplete \<times> uncomplete list) option" where
  "uc_remove fd [] = None"
| "uc_remove fd (uc # ucs) =
     (if uc_id uc = fd then Some (uc, ucs) else map_option (\<lambda>(u, us). (u, uc # us)) (uc_remove fd ucs))"

definition find_uncomplete :: "np_queue option \<Rightarrow> int \<Rightarrow> uncomplete option \<times> np_queue option" where
  "find_uncomplete q fd =
     (case q of
        None \<Rightarrow> (None, q)
      | Some q' \<Rightarrow>
          let h = hash_fd fd in
          case uc_remove fd (nq_hash q' h) of
            None \<Rightarrow> (None, q)
          | Some (uc, ucs) \<Rightarrow> (Some uc, Some (q'\<lparr>nq_hash := (nq_hash q')(h := ucs)\<rparr>)))"

text \<open>The new entry of \<^verbatim>\<open>save_uncomplete\<close>, filled in by its caller, becomes the first of its bucket.\<close>

definition save_uncomplete :: "np_queue option \<Rightarrow> uncomplete \<Rightarrow> np_queue" where
  "save_uncomplete q uc =
     (let q = get_queue q; h = hash_fd (uc_id uc) in q\<lparr>nq_hash := (nq_hash q)(h := uc # nq_hash q h)\<rparr>)"

definition close_uncomplete :: "np_queue option \<Rightarrow> int \<Rightarrow> np_queue option" where
  "close_uncomplete q fd = snd (find_uncomplete q fd)"

definition read_size :: "u8 \<Rightarrow> u8 \<Rightarrow> nat" where
  "read_size a b = unat a * 256 + unat b"

section \<open>Filtering\<close>

function push_more :: "int \<Rightarrow> bytes \<Rightarrow> np_queue option \<Rightarrow> np_queue option option" where
  "push_more fd buffer q =
     (case buffer of
        [] \<Rightarrow> None
      | [b] \<Rightarrow> Some (Some (save_uncomplete q
          \<lparr>uc_id = fd, uc_size = 0, uc_buffer = [], uc_read = - 1, uc_header = unat b\<rparr>))
      | a # b # buffer \<Rightarrow>
          let pack_size = read_size a b in
          if length buffer < pack_size
          then Some (Some (save_uncomplete q
            \<lparr>uc_id = fd, uc_size = pack_size, uc_buffer = buffer, uc_read = int (length buffer), uc_header = 0\<rparr>))
          else do {
            q \<leftarrow> push_data fd (take pack_size buffer) pack_size q;
            let buffer = drop pack_size buffer in
            if buffer \<noteq> [] then push_more fd buffer (Some q) else Some (Some q)
          })"
  by pat_completeness auto
termination by (relation "measure (\<lambda>(fd, buffer, q). length buffer)") auto

declare push_more.simps [simp del]

datatype np_event =
    NpNone
  | NpData int bytes nat
  | NpMore
  | NpError int
  | NpOpen int
  | NpClose int
  | NpWarning int int

definition filter_data_fresh :: "int \<Rightarrow> bytes \<Rightarrow> np_queue option \<Rightarrow> (np_event \<times> np_queue option) option" where
  "filter_data_fresh fd buffer q =
     (case buffer of
        [] \<Rightarrow> None
      | [b] \<Rightarrow> Some (NpNone, Some (save_uncomplete q
          \<lparr>uc_id = fd, uc_size = 0, uc_buffer = [], uc_read = - 1, uc_header = unat b\<rparr>))
      | a # b # buffer \<Rightarrow>
          let pack_size = read_size a b in
          if length buffer < pack_size
          then Some (NpNone, Some (save_uncomplete q
            \<lparr>uc_id = fd, uc_size = pack_size, uc_buffer = buffer, uc_read = int (length buffer), uc_header = 0\<rparr>))
          else if length buffer = pack_size then Some (NpData fd buffer pack_size, q)
          else do {
            q \<leftarrow> push_data fd (take pack_size buffer) pack_size q;
            q \<leftarrow> push_more fd (drop pack_size buffer) (Some q);
            Some (NpMore, q)
          })"

definition filter_data_fill :: "int \<Rightarrow> uncomplete \<Rightarrow> bytes \<Rightarrow> np_queue \<Rightarrow> (np_event \<times> np_queue option) option" where
  "filter_data_fill fd uc buffer q =
     (let need = nat (int (uc_size uc) - uc_read uc) in
      if length buffer < need
      then let uc = uc\<lparr>uc_buffer := uc_buffer uc @ buffer, uc_read := uc_read uc + int (length buffer)\<rparr>;
               h = hash_fd fd
           in Some (NpNone, Some (q\<lparr>nq_hash := (nq_hash q)(h := uc # nq_hash q h)\<rparr>))
      else let data = uc_buffer uc @ take need buffer;
               buffer = drop need buffer
           in if buffer = [] then Some (NpData fd data (uc_size uc), Some q)
              else do {
                q \<leftarrow> push_data fd data (uc_size uc) (Some q);
                q \<leftarrow> push_more fd buffer (Some q);
                Some (NpMore, q)
              })"

definition filter_data :: "int \<Rightarrow> bytes \<Rightarrow> np_queue option \<Rightarrow> (np_event \<times> np_queue option) option" where
  "filter_data fd buffer q =
     (case find_uncomplete q fd of
        (None, q) \<Rightarrow> filter_data_fresh fd buffer q
      | (Some uc, None) \<Rightarrow> None
      | (Some uc, Some q) \<Rightarrow>
          if uc_read uc < 0
          then if uc_read uc \<noteq> - 1 then None
               else (case buffer of
                 [] \<Rightarrow> None
               | b # buffer \<Rightarrow>
                   let pack_size = unat b + uc_header uc * 256 in
                   filter_data_fill fd (uc\<lparr>uc_size := pack_size, uc_buffer := [], uc_read := 0\<rparr>) buffer q)
          else filter_data_fill fd uc buffer q)"

text \<open>The socket messages; the texts of the events are not read by this module.\<close>

datatype socket_event =
    SockData int bytes
  | SockConnect int
  | SockClose int
  | SockAccept int int
  | SockError int
  | SockWarning int int

definition lfilter :: "np_queue option \<Rightarrow> socket_event \<Rightarrow> (np_event \<times> np_queue option) option" where
  "lfilter q message =
     (case message of
        SockData fd buffer \<Rightarrow> filter_data fd buffer q
      | SockConnect fd \<Rightarrow> Some (NpNone, q)
      | SockClose fd \<Rightarrow> Some (NpClose fd, close_uncomplete q fd)
      | SockAccept fd ud \<Rightarrow> Some (NpOpen ud, q)
      | SockError fd \<Rightarrow> Some (NpError fd, close_uncomplete q fd)
      | SockWarning fd ud \<Rightarrow> Some (NpWarning fd ud, q))"

section \<open>Packing\<close>

definition write_size :: "nat \<Rightarrow> bytes" where
  "write_size len = [of_nat (len div 256 mod 256), of_nat (len mod 256)]"

definition lpack :: "bytes \<Rightarrow> bytes cres" where
  "lpack data =
     (if length data \<ge> 0x10000 then LuaError ''Invalid size (too long) of data''
      else Ok (write_size (length data) @ data))"

definition ltostring :: "(bytes \<times> nat) option \<Rightarrow> bytes" where
  "ltostring ptr = (case ptr of None \<Rightarrow> [] | Some (buffer, sz) \<Rightarrow> take sz buffer)"

section \<open>The ring is a first-in first-out queue\<close>

definition np_limit :: nat where
  "np_limit = 2 ^ 31 - 1024"

definition np_inv :: "np_queue \<Rightarrow> bool" where
  "np_inv q \<longleftrightarrow> 0 < nq_cap q \<and> nq_head q < nq_cap q \<and> nq_tail q < nq_cap q \<and> length (nq_queue q) = nq_cap q \<and>
     (\<forall>i < (nq_tail q + nq_cap q - nq_head q) mod nq_cap q. nq_queue q ! ((nq_head q + i) mod nq_cap q) \<noteq> None)"

definition np_rep :: "np_queue \<Rightarrow> netpack list \<Rightarrow> bool" where
  "np_rep q xs \<longleftrightarrow> nq_head q < nq_cap q \<and> length (nq_queue q) = nq_cap q \<and> length xs < nq_cap q \<and>
     nq_tail q = (nq_head q + length xs) mod nq_cap q \<and>
     (\<forall>i < length xs. nq_queue q ! ((nq_head q + i) mod nq_cap q) = Some (xs ! i))"

lemma np_count:
  assumes "h < c" "n < (c :: nat)"
  shows "((h + n) mod c + c - h) mod c = n"
proof (cases "h + n < c")
  case True
  then show ?thesis using assms by (simp add: le_mod_geq)
next
  case False
  then have "(h + n) mod c = h + n - c" using assms by (simp add: le_mod_geq)
  with False assms show ?thesis by simp
qed

lemma np_rep_contents: "np_rep q xs \<Longrightarrow> np_contents q = xs \<and> np_inv q"
  by (auto simp: np_rep_def np_contents_def np_inv_def np_count intro!: nth_equalityI)

lemma np_inv_rep:
  assumes "np_inv q"
  shows "np_rep q (np_contents q)"
proof -
  let ?n = "(nq_tail q + nq_cap q - nq_head q) mod nq_cap q"
  have "(nq_head q + ?n) mod nq_cap q = (nq_head q + (nq_tail q + nq_cap q - nq_head q)) mod nq_cap q"
    by (simp add: mod_add_right_eq)
  also have "\<dots> = nq_tail q" using assms by (simp add: np_inv_def)
  finally have "nq_tail q = (nq_head q + ?n) mod nq_cap q" ..
  with assms show ?thesis by (auto simp: np_rep_def np_contents_def np_inv_def)
qed

lemma mod_ring_inj:
  assumes "i < c" "j < (c :: nat)" "(h + i) mod c = (h + j) mod c"
  shows "i = j"
proof -
  have "i = j" if "i \<le> j" "j < c" "(h + i) mod c = (h + j) mod c" for i j
  proof -
    have "c dvd (h + j) - (h + i)" using that by (metis mod_eq_dvd_iff_nat add_le_cancel_left)
    then have "c dvd j - i" by simp
    with that show ?thesis by (auto dest: dvd_imp_le)
  qed
  with assms show ?thesis by (metis nat_le_linear)
qed

lemma np_push_rep:
  assumes rep: "np_rep q xs" and room: "length xs + 1 < np_limit"
  shows "\<exists>q'. np_push q x = Some q' \<and> np_rep q' (xs @ [x]) \<and> nq_hash q' = nq_hash q"
proof -
  let ?c = "nq_cap q" and ?h = "nq_head q"
  have r: "?h < ?c" "length (nq_queue q) = ?c" "length xs < ?c" "nq_tail q = (?h + length xs) mod ?c"
    "\<And>i. i < length xs \<Longrightarrow> nq_queue q ! ((?h + i) mod ?c) = Some (xs ! i)"
    using rep by (auto simp: np_rep_def)
  define queue where "queue = (nq_queue q)[nq_tail q := Some x]"
  have cell: "queue ! ((?h + i) mod ?c) = Some ((xs @ [x]) ! i)" if "i \<le> length xs" for i
  proof (cases "i = length xs")
    case False
    then have "(?h + i) mod ?c \<noteq> nq_tail q" using that r mod_ring_inj [of i ?c "length xs" ?h] by auto
    with False that r show ?thesis by (simp add: queue_def nth_append)
  qed (use r in \<open>simp add: queue_def\<close>)
  have tail: "(if nq_tail q + 1 \<ge> ?c then nq_tail q + 1 - ?c else nq_tail q + 1) = (?h + length (xs @ [x])) mod ?c"
  proof -
    have "nq_tail q < ?c" using r by simp
    moreover have "(?h + length (xs @ [x])) mod ?c = (nq_tail q + 1) mod ?c" using r(4) by (simp add: mod_Suc_eq)
    ultimately show ?thesis by (auto simp: le_mod_geq)
  qed
  define q1 where "q1 = q\<lparr>nq_queue := queue, nq_tail := (?h + length (xs @ [x])) mod ?c\<rparr>"
  have push: "np_push q x = (if ?h = (?h + length (xs @ [x])) mod ?c then np_expand q1 else Some q1)"
    unfolding np_push_def Let_def tail queue_def [symmetric] q1_def by simp
  have len: "length queue = ?c" using r by (simp add: queue_def)
  show ?thesis
  proof (cases "length xs + 1 = ?c")
    case True
    then have full: "(?h + length (xs @ [x])) mod ?c = ?h" using r by simp
    have "int (?c + QUEUESIZE) \<le> INT_MAX" using True room by (simp add: np_limit_def QUEUESIZE_def INT_MAX_def)
    then have "np_expand q1 = Some (q1\<lparr>nq_cap := ?c + QUEUESIZE, nq_head := 0, nq_tail := ?c,
        nq_queue := map (\<lambda>i. queue ! ((?h + i) mod ?c)) [0..<?c] @ replicate QUEUESIZE None\<rparr>)"
      by (simp add: np_expand_def q1_def)
    moreover have "np_rep (q1\<lparr>nq_cap := ?c + QUEUESIZE, nq_head := 0, nq_tail := ?c,
        nq_queue := map (\<lambda>i. queue ! ((?h + i) mod ?c)) [0..<?c] @ replicate QUEUESIZE None\<rparr>) (xs @ [x])"
      using True cell by (auto simp: np_rep_def QUEUESIZE_def nth_append)
    ultimately show ?thesis using full push by (simp add: q1_def)
  next
    case False
    then have l: "length (xs @ [x]) < ?c" using r by simp
    then have "(?h + length (xs @ [x])) mod ?c \<noteq> ?h"
      using r mod_ring_inj [of "length (xs @ [x])" ?c 0 ?h] by auto
    moreover have "np_rep q1 (xs @ [x])" using l cell r len by (auto simp: np_rep_def q1_def)
    ultimately show ?thesis using push by (auto simp: q1_def)
  qed
qed

lemma np_pop_rep:
  "np_rep q [] \<Longrightarrow> np_pop q = Some (None, q)"
  "np_rep q (x # xs) \<Longrightarrow> \<exists>q'. np_pop q = Some (Some x, q') \<and> np_rep q' xs \<and> nq_hash q' = nq_hash q"
proof -
  show "np_rep q [] \<Longrightarrow> np_pop q = Some (None, q)" by (auto simp: np_rep_def np_pop_def)
  assume rep: "np_rep q (x # xs)"
  let ?c = "nq_cap q" and ?h = "nq_head q"
  have r: "?h < ?c" "length xs + 1 < ?c" "nq_tail q = (?h + (length xs + 1)) mod ?c" "nq_queue q ! ?h = Some x"
    and cell: "\<And>i. i < length xs + 1 \<Longrightarrow> nq_queue q ! ((?h + i) mod ?c) = Some ((x # xs) ! i)"
    using rep by (auto simp: np_rep_def)
  have "?h \<noteq> nq_tail q" using r mod_ring_inj [of "length xs + 1" ?c 0 ?h] by auto
  moreover have nh: "(if ?h + 1 \<ge> ?c then 0 else ?h + 1) = (?h + 1) mod ?c" using r by (auto simp: le_mod_geq)
  moreover have "((?h + 1) mod ?c + i) mod ?c = (?h + Suc i) mod ?c" for i by (simp add: mod_add_left_eq)
  ultimately show "\<exists>q'. np_pop q = Some (Some x, q') \<and> np_rep q' xs \<and> nq_hash q' = nq_hash q"
    using r rep cell [of "Suc _"] by (auto simp: np_pop_def np_rep_def Let_def)
qed

interpretation npf: fifo np_push np_pop np_contents np_inv np_limit
proof unfold_locales
  fix q x
  assume "np_inv q" "length (np_contents q) + 1 < np_limit"
  then show "\<exists>q'. np_push q x = Some q' \<and> np_inv q' \<and> np_contents q' = np_contents q @ [x]"
    using np_push_rep [OF np_inv_rep] np_rep_contents by blast
next
  fix q
  assume "np_inv q" "np_contents q = []"
  then show "\<exists>q'. np_pop q = Some (None, q') \<and> np_inv q' \<and> np_contents q' = []"
    using np_pop_rep(1) np_inv_rep by metis
next
  fix q x xs
  assume "np_inv q" "np_contents q = x # xs"
  then show "\<exists>q'. np_pop q = Some (Some x, q') \<and> np_inv q' \<and> np_contents q' = xs"
    using np_pop_rep(2) np_inv_rep np_rep_contents by metis
qed

section \<open>Frames\<close>

text \<open>The reference: the complete packets at the front of a stream, and the bytes that are left.\<close>

function unframe :: "bytes \<Rightarrow> bytes list \<times> bytes" where
  "unframe bs =
     (case bs of
        a # b # rest \<Rightarrow>
          let n = read_size a b in
          if length rest < n then ([], bs)
          else let (ps, r) = unframe (drop n rest) in (take n rest # ps, r)
      | _ \<Rightarrow> ([], bs))"
  by pat_completeness auto
termination by (relation "measure length") auto

declare unframe.simps [simp del]

lemma unframe_simps [simp]:
  "unframe [] = ([], [])"
  "unframe [a] = ([], [a])"
  "unframe (a # b # rest) =
     (if length rest < read_size a b then ([], a # b # rest)
      else (take (read_size a b) rest # fst (unframe (drop (read_size a b) rest)), snd (unframe (drop (read_size a b) rest))))"
  by (simp_all add: unframe.simps [of "[]"] unframe.simps [of "[a]"] unframe.simps [of "a # b # rest"] Let_def split_beta)

lemma unframe_append:
  "unframe (xs @ ys) =
     (fst (unframe xs) @ fst (unframe (snd (unframe xs) @ ys)), snd (unframe (snd (unframe xs) @ ys)))"
proof (induction xs rule: unframe.induct)
  case (1 xs)
  show ?case
  proof (cases "\<exists>a b rest. xs = a # b # rest \<and> \<not> length rest < read_size a b")
    case True
    then obtain a b rest where x: "xs = a # b # rest" "\<not> length rest < read_size a b" by blast
    with 1 [of a "b # rest" b rest] show ?thesis by simp
  next
    case False
    then have "unframe xs = ([], xs)" by (cases xs rule: remdups_adj.cases) auto
    then show ?thesis by simp
  qed
qed

lemma read_write_size: "n < 65536 \<Longrightarrow> \<exists>a b. write_size n = [a, b] \<and> read_size a b = n"
  by (auto simp: write_size_def read_size_def unat_of_nat take_bit_eq_mod)

lemma unframe_write_size:
  assumes "n < 65536"
  shows "unframe (write_size n @ rest) =
    (if length rest < n then ([], write_size n @ rest)
     else (take n rest # fst (unframe (drop n rest)), snd (unframe (drop n rest))))"
  using read_write_size [OF assms] by auto

lemma unframe_pack:
  "(\<And>p. p \<in> set ps \<Longrightarrow> length p < 65536) \<Longrightarrow>
    unframe (concat (map (\<lambda>p. write_size (length p) @ p) ps)) = (ps, [])"
  by (induction ps) (auto simp: unframe_write_size)

section \<open>The incomplete packets stand for the bytes left over\<close>

definition uc_ok :: "uncomplete \<Rightarrow> bool" where
  "uc_ok uc \<longleftrightarrow> uc_read uc = - 1 \<and> uc_header uc < 256 \<or>
     uc_read uc = int (length (uc_buffer uc)) \<and> length (uc_buffer uc) < uc_size uc \<and> uc_size uc < 65536"

definition uc_bytes :: "uncomplete \<Rightarrow> bytes" where
  "uc_bytes uc = (if uc_read uc = - 1 then [of_nat (uc_header uc)] else write_size (uc_size uc) @ uc_buffer uc)"

definition np_table :: "np_queue option \<Rightarrow> nat \<Rightarrow> uncomplete list" where
  "np_table q = (case q of None \<Rightarrow> \<lambda>_. [] | Some q \<Rightarrow> nq_hash q)"

definition np_left :: "np_queue option \<Rightarrow> int \<Rightarrow> bytes" where
  "np_left q fd = (case uc_remove fd (np_table q (hash_fd fd)) of None \<Rightarrow> [] | Some (uc, _) \<Rightarrow> uc_bytes uc)"

definition table_ok :: "(nat \<Rightarrow> uncomplete list) \<Rightarrow> bool" where
  "table_ok t \<longleftrightarrow> (\<forall>h. distinct (map uc_id (t h)) \<and> (\<forall>uc \<in> set (t h). uc_ok uc \<and> hash_fd (uc_id uc) = h))"

definition np_ok :: "np_queue option \<Rightarrow> netpack list \<Rightarrow> bool" where
  "np_ok q xs \<longleftrightarrow> np_rep (get_queue q) xs \<and> table_ok (np_table q)"

lemma uc_bytes_nonempty: "uc_bytes uc \<noteq> []"
  by (simp add: uc_bytes_def write_size_def)

lemma uc_remove_None: "uc_remove fd us = None \<longleftrightarrow> fd \<notin> uc_id ` set us"
  by (induction us) auto

lemma uc_remove_Some:
  "uc_remove fd us = Some (u, vs) \<Longrightarrow> distinct (map uc_id us) \<Longrightarrow>
    uc_id u = fd \<and> set us = insert u (set vs) \<and> fd \<notin> uc_id ` set vs \<and> distinct (map uc_id vs)"
  by (induction us arbitrary: vs) (auto split: if_splits)

lemma uc_remove_other:
  "uc_remove fd us = Some (u, vs) \<Longrightarrow> fd' \<noteq> fd \<Longrightarrow>
    map_option fst (uc_remove fd' vs) = map_option fst (uc_remove fd' us)"
proof (induction us arbitrary: vs)
  case (Cons w us)
  then show ?case by (cases "uc_id w = fd") (auto simp: option.map_comp comp_def split_beta)
qed simp

lemma np_left_fst: "np_left q fd = (case map_option fst (uc_remove fd (np_table q (hash_fd fd))) of None \<Rightarrow> [] | Some uc \<Rightarrow> uc_bytes uc)"
  by (simp add: np_left_def split_beta split: option.split)

lemma np_table_get: "np_table (Some (get_queue q)) = np_table q"
  by (simp add: np_table_def get_queue_def np_create_def split: option.split)

lemma np_left_get: "np_left (Some (get_queue q)) = np_left q"
  by (simp add: np_left_def np_table_get fun_eq_iff)

lemma save_ok:
  assumes ok: "np_ok q xs" and none: "np_left q (uc_id uc) = []" and uc: "uc_ok uc"
  shows "np_ok (Some (save_uncomplete q uc)) xs"
    and "np_left (Some (save_uncomplete q uc)) = (np_left q)(uc_id uc := uc_bytes uc)"
proof -
  let ?h = "hash_fd (uc_id uc)"
  have t: "np_table (Some (save_uncomplete q uc)) = (np_table q)(?h := uc # np_table q ?h)"
    using np_table_get [of q] by (simp add: save_uncomplete_def Let_def np_table_def)
  have "uc_remove (uc_id uc) (np_table q ?h) = None"
    using none uc_bytes_nonempty by (auto simp: np_left_def split: option.splits)
  then have "uc_id uc \<notin> uc_id ` set (np_table q ?h)" by (simp add: uc_remove_None)
  then have "table_ok ((np_table q)(?h := uc # np_table q ?h))"
    using ok uc by (auto simp: np_ok_def table_ok_def)
  moreover have "np_rep (save_uncomplete q uc) xs"
    using ok by (simp add: np_ok_def save_uncomplete_def Let_def np_rep_def)
  ultimately show "np_ok (Some (save_uncomplete q uc)) xs" by (simp add: np_ok_def get_queue_def t)
  show "np_left (Some (save_uncomplete q uc)) = (np_left q)(uc_id uc := uc_bytes uc)"
    by (auto simp: fun_eq_iff np_left_def t split: option.split)
qed

lemma push_data_ok:
  assumes ok: "np_ok q xs" and room: "length xs + 1 < np_limit"
  shows "\<exists>q'. push_data fd p n q = Some q' \<and> np_ok (Some q') (xs @ [\<lparr>np_id = fd, np_size = n, np_buffer = p\<rparr>])
    \<and> np_left (Some q') = np_left q"
proof -
  from np_push_rep [of "get_queue q" xs] ok room obtain q' where
    q': "push_data fd p n q = Some q'" "np_rep q' (xs @ [\<lparr>np_id = fd, np_size = n, np_buffer = p\<rparr>])"
      "nq_hash q' = nq_hash (get_queue q)" by (auto simp: np_ok_def push_data_def)
  then have "np_table (Some q') = np_table q" using np_table_get [of q] by (simp add: np_table_def)
  with q' ok show ?thesis by (simp add: np_ok_def get_queue_def np_left_def [abs_def])
qed

definition mk_pack :: "int \<Rightarrow> bytes \<Rightarrow> netpack" where
  "mk_pack fd p = \<lparr>np_id = fd, np_size = length p, np_buffer = p\<rparr>"

lemma unat_u8: "unat (b :: u8) < 256"
proof -
  have "unat b < 2 ^ LENGTH(8)" by (rule unsigned_less)
  then show ?thesis by simp
qed

lemma header_ok: "uc_ok \<lparr>uc_id = fd, uc_size = 0, uc_buffer = [], uc_read = - 1, uc_header = unat (b :: u8)\<rparr>"
  by (simp add: uc_ok_def unat_u8)

lemma read_size_bound: "read_size a b < 65536"
  using unat_u8 [of a] unat_u8 [of b] by (simp add: read_size_def)

lemma write_read_size: "write_size (read_size a b) = [a, b]"
  using unat_u8 [of a] unat_u8 [of b] by (simp add: write_size_def read_size_def)

lemma push_more_ok:
  assumes "np_ok q xs" "np_left q fd = []" "buffer \<noteq> []" "length xs + length buffer < np_limit"
  shows "\<exists>q'. push_more fd buffer q = Some (Some q')
    \<and> np_ok (Some q') (xs @ map (mk_pack fd) (fst (unframe buffer)))
    \<and> np_left (Some q') = (np_left q)(fd := snd (unframe buffer))"
  using assms
proof (induction buffer arbitrary: q xs rule: measure_induct_rule [of length])
  case (less buffer)
  show ?case
  proof (cases buffer rule: remdups_adj.cases)
    case 1
    with less show ?thesis by simp
  next
    case (2 b)
    with save_ok [OF less.prems(1), of "\<lparr>uc_id = fd, uc_size = 0, uc_buffer = [], uc_read = - 1, uc_header = unat b\<rparr>"]
      less.prems(2) header_ok [of fd b]
    show ?thesis by (subst push_more.simps) (simp add: uc_bytes_def)
  next
    case (3 a b rest)
    let ?n = "read_size a b"
    show ?thesis
    proof (cases "length rest < ?n")
      case True
      let ?uc = "\<lparr>uc_id = fd, uc_size = ?n, uc_buffer = rest, uc_read = int (length rest), uc_header = 0\<rparr>"
      have "uc_ok ?uc" using True read_size_bound by (simp add: uc_ok_def)
      moreover have "uc_bytes ?uc = buffer" using 3 by (simp add: uc_bytes_def write_read_size)
      ultimately show ?thesis
        using save_ok [OF less.prems(1), of ?uc] less.prems(2) 3 True by (subst push_more.simps) simp
    next
      case False
      from push_data_ok [OF less.prems(1), of fd "take ?n rest" ?n] less.prems(4) 3 False obtain q1 where
        q1: "push_data fd (take ?n rest) ?n q = Some q1" "np_ok (Some q1) (xs @ [mk_pack fd (take ?n rest)])"
          "np_left (Some q1) = np_left q" by (auto simp: mk_pack_def)
      show ?thesis
      proof (cases "drop ?n rest = []")
        case True
        with q1 3 False less.prems(2) show ?thesis by (subst push_more.simps) (simp add: fun_upd_idem)
      next
        case more: False
        have l: "np_left (Some q1) fd = []" using q1(3) less.prems(2) by simp
        have "length (drop ?n rest) < length buffer"
          "length (xs @ [mk_pack fd (take ?n rest)]) + length (drop ?n rest) < np_limit"
          using 3 less.prems(4) by auto
        from less.IH [OF this(1) q1(2) l more this(2)] obtain q2 where
          "push_more fd (drop ?n rest) (Some q1) = Some (Some q2)"
          "np_ok (Some q2) ((xs @ [mk_pack fd (take ?n rest)]) @ map (mk_pack fd) (fst (unframe (drop ?n rest))))"
          "np_left (Some q2) = (np_left q)(fd := snd (unframe (drop ?n rest)))" unfolding q1(3) by blast
        with q1 3 False more show ?thesis by (subst push_more.simps) simp
      qed
    qed
  qed
qed

text \<open>
  What one data message does: with the ring empty, the packets of the bytes left over and the new
  bytes come out, at once or through the ring, and what is left over is kept.
\<close>

definition np_out :: "np_event \<Rightarrow> netpack list \<Rightarrow> (int \<times> bytes) list" where
  "np_out ev xs =
     (case ev of NpData fd p n \<Rightarrow> [(fd, take n p)] | NpMore \<Rightarrow> map (\<lambda>np. (np_id np, take (np_size np) (np_buffer np))) xs | _ \<Rightarrow> [])"

definition np_step_ok :: "int \<Rightarrow> bytes list \<times> bytes \<Rightarrow> np_queue option \<Rightarrow> (np_event \<times> np_queue option) option \<Rightarrow> bool" where
  "np_step_ok fd u q r \<longleftrightarrow>
     (\<exists>ev q' xs. r = Some (ev, q') \<and> np_ok q' xs \<and> (ev \<noteq> NpMore \<longrightarrow> xs = []) \<and>
       np_out ev xs = map (Pair fd) (fst u) \<and> np_left q' = (np_left q)(fd := snd u))"

lemma np_out_more: "np_out NpMore (map (mk_pack fd) ps) = map (Pair fd) ps"
  by (simp add: np_out_def mk_pack_def)

lemma push_rest_ok:
  assumes "np_ok q []" "np_left q fd = []" "rest \<noteq> []" "length rest + 1 < np_limit"
  shows "np_step_ok fd (p # fst (unframe rest), snd (unframe rest)) q
    (do { q \<leftarrow> push_data fd p (length p) q; q \<leftarrow> push_more fd rest (Some q); Some (NpMore, q) })"
proof -
  from push_data_ok [OF assms(1), of fd p "length p"] assms(4) obtain q1 where
    q1: "push_data fd p (length p) q = Some q1" "np_ok (Some q1) [mk_pack fd p]" "np_left (Some q1) = np_left q"
    by (auto simp: mk_pack_def)
  have l: "np_left (Some q1) fd = []" "length [mk_pack fd p] + length rest < np_limit" using q1(3) assms by simp_all
  from push_more_ok [OF q1(2) l(1) assms(3) l(2)] obtain q2 where
    q2: "push_more fd rest (Some q1) = Some (Some q2)" "np_ok (Some q2) (map (mk_pack fd) (p # fst (unframe rest)))"
      "np_left (Some q2) = (np_left q)(fd := snd (unframe rest))" unfolding q1(3) by auto
  from q1(1) q2 np_out_more [of fd "p # fst (unframe rest)"] show ?thesis
    unfolding np_step_ok_def
    by (intro exI [of _ NpMore] exI [of _ "Some q2"] exI [of _ "map (mk_pack fd) (p # fst (unframe rest))"]) simp
qed

lemma filter_data_fresh_ok:
  assumes "np_ok q []" "np_left q fd = []" "c \<noteq> []" "length c < np_limit"
  shows "np_step_ok fd (unframe c) q (filter_data_fresh fd c q)"
proof (cases c rule: remdups_adj.cases)
  case 1
  with assms show ?thesis by simp
next
  case (2 b)
  let ?uc = "\<lparr>uc_id = fd, uc_size = 0, uc_buffer = [], uc_read = - 1, uc_header = unat b\<rparr>"
  have "filter_data_fresh fd c q = Some (NpNone, Some (save_uncomplete q ?uc))" using 2 by (simp add: filter_data_fresh_def)
  with 2 save_ok [OF assms(1), of ?uc] assms(2) header_ok [of fd b] show ?thesis
    unfolding np_step_ok_def by (intro exI [of _ NpNone] exI [of _ "Some (save_uncomplete q ?uc)"] exI [of _ "[]"])
      (simp add: np_out_def uc_bytes_def)
next
  case (3 a b rest)
  let ?n = "read_size a b"
  let ?uc = "\<lparr>uc_id = fd, uc_size = ?n, uc_buffer = rest, uc_read = int (length rest), uc_header = 0\<rparr>"
  consider "length rest < ?n" | "length rest = ?n" | "?n < length rest" by linarith
  then show ?thesis
  proof cases
    case 1
    have "uc_ok ?uc" "uc_bytes ?uc = c" using 1 3 read_size_bound by (simp_all add: uc_ok_def uc_bytes_def write_read_size)
    moreover have "filter_data_fresh fd c q = Some (NpNone, Some (save_uncomplete q ?uc))"
      using 1 3 by (simp add: filter_data_fresh_def)
    ultimately show ?thesis
      using 1 3 save_ok [OF assms(1), of ?uc] assms(2)
      unfolding np_step_ok_def by (intro exI [of _ NpNone] exI [of _ "Some (save_uncomplete q ?uc)"] exI [of _ "[]"])
        (simp add: np_out_def)
  next
    case 2
    then have "filter_data_fresh fd c q = Some (NpData fd rest ?n, q)" using 3 by (simp add: filter_data_fresh_def)
    with 2 3 assms show ?thesis
      unfolding np_step_ok_def by (intro exI [of _ "NpData fd rest ?n"] exI [of _ q] exI [of _ "[]"])
        (simp add: np_out_def fun_upd_idem)
  next
    case more: 3
    have "drop ?n rest \<noteq> []" "length (drop ?n rest) + 1 < np_limit" "length (take ?n rest) = ?n" using more 3 assms(4) by simp_all
    with push_rest_ok [OF assms(1,2) this(1,2), of "take ?n rest"] more 3 show ?thesis
      by (simp add: filter_data_fresh_def Let_def)
  qed
qed

lemma filter_data_fill_ok:
  assumes ok: "np_ok (Some q) []" "np_left (Some q) fd = []"
    and uc: "uc_id uc = fd" "uc_read uc = int (length (uc_buffer uc))" "length (uc_buffer uc) \<le> uc_size uc" "uc_size uc < 65536"
    and c: "length c + 1 < np_limit"
  shows "np_step_ok fd (unframe (write_size (uc_size uc) @ uc_buffer uc @ c)) (Some q) (filter_data_fill fd uc c q)"
proof -
  let ?k = "uc_size uc - length (uc_buffer uc)"
  have need: "nat (int (uc_size uc) - uc_read uc) = ?k" using uc by simp
  let ?uc = "uc\<lparr>uc_buffer := uc_buffer uc @ c, uc_read := uc_read uc + int (length c)\<rparr>"
  consider "length c < ?k" | "length c = ?k" | "?k < length c" by linarith
  then show ?thesis
  proof cases
    case 1
    then have "uc_ok ?uc" "uc_bytes ?uc = write_size (uc_size uc) @ uc_buffer uc @ c" "uc_id ?uc = fd"
      using uc by (auto simp: uc_ok_def uc_bytes_def)
    moreover have "filter_data_fill fd uc c q = Some (NpNone, Some (save_uncomplete (Some q) ?uc))"
      using 1 need uc(1) by (simp add: filter_data_fill_def save_uncomplete_def get_queue_def Let_def)
    moreover have "unframe (write_size (uc_size uc) @ uc_buffer uc @ c) = ([], write_size (uc_size uc) @ uc_buffer uc @ c)"
      using 1 by (simp add: unframe_write_size [OF uc(4)])
    ultimately show ?thesis
      using save_ok [OF ok(1), of ?uc] ok(2)
      unfolding np_step_ok_def by (intro exI [of _ NpNone] exI [of _ "Some (save_uncomplete (Some q) ?uc)"] exI [of _ "[]"])
        (simp add: np_out_def)
  next
    case 2
    then have "filter_data_fill fd uc c q = Some (NpData fd (uc_buffer uc @ c) (uc_size uc), Some q)"
      using need by (simp add: filter_data_fill_def Let_def)
    moreover have "unframe (write_size (uc_size uc) @ uc_buffer uc @ c) = ([uc_buffer uc @ c], [])"
      using 2 uc(3) by (simp add: unframe_write_size [OF uc(4)])
    ultimately show ?thesis using 2 uc ok
      unfolding np_step_ok_def by (intro exI [of _ "NpData fd (uc_buffer uc @ c) (uc_size uc)"] exI [of _ "Some q"] exI [of _ "[]"])
        (simp add: np_out_def fun_upd_idem)
  next
    case 3
    let ?p = "uc_buffer uc @ take ?k c"
    have p: "length ?p = uc_size uc" "drop ?k c \<noteq> []" "length (drop ?k c) + 1 < np_limit" using 3 uc c by auto
    have u: "unframe (write_size (uc_size uc) @ uc_buffer uc @ c) = (?p # fst (unframe (drop ?k c)), snd (unframe (drop ?k c)))"
      using 3 uc(3) by (simp add: unframe_write_size [OF uc(4)])
    have f: "filter_data_fill fd uc c q = do {
        q \<leftarrow> push_data fd ?p (length ?p) (Some q); q \<leftarrow> push_more fd (drop ?k c) (Some q); Some (NpMore, q) }"
      using 3 need p(1) by (simp add: filter_data_fill_def Let_def)
    show ?thesis unfolding u f by (rule push_rest_ok [OF ok p(2,3)])
  qed
qed

text \<open>Taking the incomplete packet of a connection out of the table.\<close>

lemma find_uncomplete_ok:
  assumes ok: "np_ok q xs"
  shows "case find_uncomplete q fd of
      (None, q') \<Rightarrow> q' = q \<and> np_left q fd = []
    | (Some uc, q') \<Rightarrow> \<exists>q1. q' = Some q1 \<and> np_ok q' xs \<and> np_left q' = (np_left q)(fd := []) \<and>
        np_left q fd = uc_bytes uc \<and> uc_ok uc \<and> uc_id uc = fd"
proof (cases q)
  case None
  then show ?thesis by (simp add: find_uncomplete_def np_left_def np_table_def)
next
  case (Some r)
  let ?h = "hash_fd fd"
  show ?thesis
  proof (cases "uc_remove fd (nq_hash r ?h)")
    case None
    with Some show ?thesis by (simp add: find_uncomplete_def np_left_def np_table_def)
  next
    case s: (Some a)
    obtain uc ucs where a: "a = (uc, ucs)" by (cases a)
    define q' where "q' = Some (r\<lparr>nq_hash := (nq_hash r)(?h := ucs)\<rparr>)"
    have f: "find_uncomplete q fd = (Some uc, q')" using s Some a by (simp add: find_uncomplete_def q'_def)
    have tab: "table_ok (nq_hash r)" using ok Some by (simp add: np_ok_def np_table_def)
    then have "distinct (map uc_id (nq_hash r ?h))" by (simp add: table_ok_def)
    with uc_remove_Some s a have u: "uc_id uc = fd" "set (nq_hash r ?h) = insert uc (set ucs)" "fd \<notin> uc_id ` set ucs"
      "distinct (map uc_id ucs)" by blast+
    have "table_ok ((nq_hash r)(?h := ucs))" using tab u by (auto simp: table_ok_def)
    then have "np_ok q' xs" using ok Some by (simp add: np_ok_def q'_def np_table_def get_queue_def np_rep_def)
    moreover have "np_left q' = (np_left q)(fd := [])"
    proof
      fix g
      show "np_left q' g = ((np_left q)(fd := [])) g"
      proof (cases "g = fd")
        case True
        with u(3) uc_remove_None [of fd ucs] show ?thesis by (simp add: np_left_def q'_def np_table_def)
      next
        case False
        have "map_option fst (uc_remove g (np_table q' (hash_fd g))) = map_option fst (uc_remove g (np_table q (hash_fd g)))"
          using uc_remove_other [of fd "nq_hash r ?h" uc ucs g] s a Some False by (simp add: q'_def np_table_def)
        with False show ?thesis by (simp only: np_left_fst [of q'] np_left_fst [of q g] fun_upd_other not_False_eq_True)
      qed
    qed
    moreover have "np_left q fd = uc_bytes uc" using s a Some by (simp add: np_left_def np_table_def)
    moreover have "uc_ok uc" using tab u(2) by (auto simp: table_ok_def)
    ultimately show ?thesis using f u(1) by (simp add: q'_def)
  qed
qed

lemma filter_data_ok:
  assumes ok: "np_ok q []" and c: "c \<noteq> []" "length c + 1 < np_limit"
  shows "np_step_ok fd (unframe (np_left q fd @ c)) q (filter_data fd c q)"
proof (cases "find_uncomplete q fd")
  case (Pair r q')
  show ?thesis
  proof (cases r)
    case None
    with find_uncomplete_ok [OF ok, of fd] Pair filter_data_fresh_ok [OF ok _ c(1)] c(2) show ?thesis
      by (simp add: filter_data_def)
  next
    case (Some uc)
    with find_uncomplete_ok [OF ok, of fd] Pair obtain q1 where
      q1: "q' = Some q1" "np_ok (Some q1) []" "np_left (Some q1) = (np_left q)(fd := [])"
      and uc: "np_left q fd = uc_bytes uc" "uc_ok uc" "uc_id uc = fd" by auto
    have l: "np_left (Some q1) fd = []" using q1(3) by simp
    have stp: "np_step_ok fd u q r" if "np_step_ok fd u (Some q1) r" for u r
      using that q1(3) by (simp add: np_step_ok_def)
    show ?thesis
    proof (cases "uc_read uc = - 1")
      case True
      obtain b c' where bc: "c = b # c'" using c(1) by (cases c) auto
      let ?uc = "uc\<lparr>uc_size := unat b + uc_header uc * 256, uc_buffer := [], uc_read := 0\<rparr>"
      have h: "uc_header uc < 256" using uc(2) True by (auto simp: uc_ok_def)
      then have n: "unat b + uc_header uc * 256 = read_size (of_nat (uc_header uc)) b"
        by (simp add: read_size_def unat_of_nat)
      have "np_step_ok fd (unframe (write_size (uc_size ?uc) @ uc_buffer ?uc @ c')) (Some q1) (filter_data_fill fd ?uc c' q1)"
        by (rule filter_data_fill_ok [OF q1(2) l]) (use uc bc c(2) read_size_bound n in auto)
      moreover have "write_size (uc_size ?uc) @ uc_buffer ?uc @ c' = np_left q fd @ c"
        using True uc(1) bc by (simp add: n write_read_size uc_bytes_def)
      moreover have "filter_data fd c q = filter_data_fill fd ?uc c' q1"
        using Pair Some q1(1) True bc by (simp add: filter_data_def)
      ultimately show ?thesis using stp by simp
    next
      case False
      with uc(2) have r: "uc_read uc = int (length (uc_buffer uc))" "length (uc_buffer uc) < uc_size uc" "uc_size uc < 65536"
        by (auto simp: uc_ok_def)
      have "np_step_ok fd (unframe (write_size (uc_size uc) @ uc_buffer uc @ c)) (Some q1) (filter_data_fill fd uc c q1)"
        by (rule filter_data_fill_ok [OF q1(2) l]) (use uc r c(2) in auto)
      moreover have "filter_data fd c q = filter_data_fill fd uc c q1"
        using Pair Some q1(1) r by (simp add: filter_data_def)
      ultimately show ?thesis using stp uc(1) False by (simp add: uc_bytes_def)
    qed
  qed
qed

section \<open>Sessions\<close>

text \<open>
  The loop of a server around this module: every data message is filtered; a single packet is
  taken as it is, after \<^verbatim>\<open>more\<close> the ring is emptied with \<^verbatim>\<open>lpop\<close>. The first argument of
  \<open>np_drain\<close> bounds the calls of \<^verbatim>\<open>lpop\<close>; the number of packets in the ring is enough.
\<close>

fun np_drain :: "nat \<Rightarrow> np_queue option \<Rightarrow> ((int \<times> bytes) list \<times> np_queue option) option" where
  "np_drain 0 q = (case lpop q of Some (None, q) \<Rightarrow> Some ([], q) | _ \<Rightarrow> None)"
| "np_drain (Suc n) q =
     (case lpop q of
        Some (Some np, q) \<Rightarrow>
          map_option (map_prod (Cons (np_id np, ltostring (Some (np_buffer np, np_size np)))) id) (np_drain n q)
      | Some (None, q) \<Rightarrow> Some ([], q)
      | None \<Rightarrow> None)"

fun np_session :: "(int \<times> bytes) list \<Rightarrow> np_queue option \<Rightarrow> ((int \<times> bytes) list \<times> np_queue option) option" where
  "np_session [] q = Some ([], q)"
| "np_session ((fd, c) # evs) q = do {
     (ev, q) \<leftarrow> lfilter q (SockData fd c);
     (out, q) \<leftarrow> (case ev of
        NpData g p n \<Rightarrow> Some ([(g, ltostring (Some (p, n)))], q)
      | NpMore \<Rightarrow> np_drain (length (np_contents (get_queue q))) q
      | _ \<Rightarrow> Some ([], q));
     (outs, q) \<leftarrow> np_session evs q;
     Some (out @ outs, q)
   }"

lemma np_drain_ok:
  "np_ok (Some q) xs \<Longrightarrow> \<exists>q'. np_drain (length xs) (Some q) = Some (np_out NpMore xs, Some q') \<and> np_ok (Some q') []
    \<and> np_left (Some q') = np_left (Some q)"
proof (induction xs arbitrary: q)
  case Nil
  then show ?case using np_pop_rep(1) [of q] by (simp add: np_ok_def get_queue_def lpop_def np_out_def)
next
  case (Cons x xs)
  then have "np_rep q (x # xs)" "table_ok (nq_hash q)" by (simp_all add: np_ok_def get_queue_def np_table_def)
  with np_pop_rep(2) obtain q1 where q1: "np_pop q = Some (Some x, q1)" "np_rep q1 xs" "nq_hash q1 = nq_hash q" by blast
  then have "np_ok (Some q1) xs" "np_left (Some q1) = np_left (Some q)"
    using \<open>table_ok (nq_hash q)\<close> by (simp_all add: np_ok_def get_queue_def np_table_def np_left_def [abs_def])
  with Cons.IH [of q1] q1(1) show ?case by (auto simp: lpop_def np_out_def ltostring_def)
qed

lemma np_session_step:
  assumes ok: "np_ok q []" and c: "c \<noteq> []" "length c + 1 < np_limit"
  shows "\<exists>q'. np_ok q' [] \<and> np_left q' = (np_left q)(fd := snd (unframe (np_left q fd @ c)))
    \<and> np_session ((fd, c) # evs) q =
        map_option (map_prod ((@) (map (Pair fd) (fst (unframe (np_left q fd @ c))))) id) (np_session evs q')"
proof -
  from filter_data_ok [OF ok c, of fd] obtain ev q1 xs where
    f: "filter_data fd c q = Some (ev, q1)" "np_ok q1 xs" "ev \<noteq> NpMore \<longrightarrow> xs = []"
      "np_out ev xs = map (Pair fd) (fst (unframe (np_left q fd @ c)))"
      "np_left q1 = (np_left q)(fd := snd (unframe (np_left q fd @ c)))" by (auto simp: np_step_ok_def)
  show ?thesis
  proof (cases "ev = NpMore")
    case False
    then have "(case ev of NpData g p n \<Rightarrow> Some ([(g, ltostring (Some (p, n)))], q1)
      | NpMore \<Rightarrow> np_drain (length (np_contents (get_queue q1))) q1 | _ \<Rightarrow> Some ([], q1)) = Some (np_out ev xs, q1)"
      by (cases ev) (simp_all add: np_out_def ltostring_def)
    with f False show ?thesis
      by (intro exI [of _ q1]) (auto simp: lfilter_def map_prod_def split_beta map_option_case split: option.split)
  next
    case True
    show ?thesis
    proof (cases q1)
      case None
      with f(2) have "xs = []" by (auto simp: np_ok_def get_queue_def np_create_def np_rep_def QUEUESIZE_def)
      with True f None show ?thesis
        by (intro exI [of _ q1]) (auto simp: lfilter_def np_out_def get_queue_def np_contents_def np_create_def lpop_def
            map_prod_def split_beta map_option_case split: option.split)
    next
      case (Some q2)
      from np_drain_ok [of q2 xs] f(2) Some obtain q3 where
        d: "np_drain (length xs) (Some q2) = Some (np_out NpMore xs, Some q3)" "np_ok (Some q3) []"
          "np_left (Some q3) = np_left (Some q2)" by blast
      have "np_contents (get_queue q1) = xs" using f(2) np_rep_contents by (auto simp: np_ok_def)
      with True f Some d show ?thesis
        by (intro exI [of _ "Some q3"]) (auto simp: lfilter_def map_prod_def split_beta map_option_case split: option.split)
    qed
  qed
qed

section \<open>Results\<close>

lemma np_ok_None: "np_ok None []"
  by (simp add: np_ok_def get_queue_def np_create_def np_rep_def QUEUESIZE_def table_ok_def np_table_def)

text \<open>The bytes of one connection in a sequence of messages, and the packets handed out for it.\<close>

definition of_fd :: "int \<Rightarrow> (int \<times> 'b) list \<Rightarrow> 'b list" where
  "of_fd fd evs = map snd (filter (\<lambda>e. fst e = fd) evs)"

lemma of_fd_simps [simp]:
  "of_fd fd [] = []" "of_fd fd ((g, c) # evs) = (if g = fd then c # of_fd fd evs else of_fd fd evs)"
  "of_fd fd (xs @ ys) = of_fd fd xs @ of_fd fd ys" "of_fd fd (map (Pair g) ps) = (if g = fd then ps else [])"
  by (auto simp: of_fd_def comp_def)

lemma unframe_rest: "unframe (snd (unframe xs)) = ([], snd (unframe xs))"
  using unframe_append [of xs "[]"] by (simp add: prod_eq_iff)

lemma np_session_ok:
  assumes "np_ok q []" "\<forall>e \<in> set evs. snd e \<noteq> [] \<and> length (snd e) + 1 < np_limit"
    and "\<And>fd. unframe (np_left q fd) = ([], np_left q fd)"
  shows "\<exists>out q'. np_session evs q = Some (out, q') \<and> np_ok q' [] \<and>
    (\<forall>fd. (of_fd fd out, np_left q' fd) = unframe (np_left q fd @ concat (of_fd fd evs)))"
  using assms
proof (induction evs arbitrary: q)
  case Nil
  then show ?case by simp
next
  case (Cons e evs)
  obtain g c where e: "e = (g, c)" by (cases e)
  with Cons.prems np_session_step [of q c g evs] obtain q1 where
    q1: "np_ok q1 []" "np_left q1 = (np_left q)(g := snd (unframe (np_left q g @ c)))"
      "np_session (e # evs) q =
        map_option (map_prod ((@) (map (Pair g) (fst (unframe (np_left q g @ c))))) id) (np_session evs q1)" by auto
  have "unframe (np_left q1 fd) = ([], np_left q1 fd)" for fd using Cons.prems(3) q1(2) unframe_rest by simp
  with Cons.IH [OF q1(1)] Cons.prems(2) obtain out q' where
    IH: "np_session evs q1 = Some (out, q')" "np_ok q' []"
      "\<And>fd. (of_fd fd out, np_left q' fd) = unframe (np_left q1 fd @ concat (of_fd fd evs))" by auto
  have "(of_fd fd (map (Pair g) (fst (unframe (np_left q g @ c))) @ out), np_left q' fd) =
      unframe (np_left q fd @ concat (of_fd fd ((g, c) # evs)))" for fd
    using IH(3) [of fd] q1(2) unframe_append [of "np_left q g @ c" "concat (of_fd g evs)"]
    by (cases "fd = g") (auto simp: prod_eq_iff)
  with q1(3) IH(1,2) e show ?case
    by (intro exI [of _ "map (Pair g) (fst (unframe (np_left q g @ c))) @ out"] exI [of _ q']) simp
qed

text \<open>
  C26: however the byte streams of the connections are cut into messages and however these are
  interleaved, every connection gets exactly the packets that its own stream contains, in order,
  and nothing fails.
\<close>

theorem netpack_reassembles:
  assumes "\<forall>e \<in> set evs. snd e \<noteq> [] \<and> length (snd e) + 1 < np_limit"
  shows "\<exists>out q. np_session evs None = Some (out, q) \<and>
    (\<forall>fd. of_fd fd out = fst (unframe (concat (of_fd fd evs))))"
proof -
  have "np_left None fd = []" for fd by (simp add: np_left_def np_table_def)
  with np_session_ok [OF np_ok_None assms] show ?thesis by (simp add: prod_eq_iff) blast
qed

theorem netpack_reassembles_witness:
  "\<exists>out q. np_session [(7, [0]), (9, [0, 1]), (7, [2, 65]), (9, [90, 0, 0]), (7, [66, 0, 1, 67])] None = Some (out, q)
    \<and> of_fd 7 out = [[65, 66], [67]] \<and> of_fd 9 out = [[90], []]"
proof -
  let ?evs = "[(7, [0]), (9, [0, 1]), (7, [2, 65]), (9, [90, 0, 0]), (7, [66, 0, 1, 67])] :: (int \<times> bytes) list"
  have "\<forall>e \<in> set ?evs. snd e \<noteq> [] \<and> length (snd e) + 1 < np_limit" by (simp add: np_limit_def)
  from netpack_reassembles [OF this] obtain out q where o: "np_session ?evs None = Some (out, q)"
    "\<And>fd. of_fd fd out = fst (unframe (concat (of_fd fd ?evs)))" by blast
  have "of_fd 7 out = [[65, 66], [67]]" "of_fd 9 out = [[90], []]" by (simp_all add: o(2) read_size_def)
  with o(1) show ?thesis by blast
qed

text \<open>
  what \<^verbatim>\<open>pack\<close> framed comes out again: when the messages of a connection, however cut, make up
  the packed forms of a sequence of packets, that connection gets exactly these packets.
\<close>

theorem netpack_round_trip:
  assumes "\<forall>e \<in> set evs. snd e \<noteq> [] \<and> length (snd e) + 1 < np_limit"
    and "list_all2 (\<lambda>p w. lpack p = Ok w) ps ws" "concat (of_fd fd evs) = concat ws"
  shows "\<exists>out q. np_session evs None = Some (out, q) \<and> of_fd fd out = ps"
proof -
  from assms(2) have w: "ws = map (\<lambda>p. write_size (length p) @ p) ps \<and> (\<forall>p \<in> set ps. length p < 65536)"
    by (induction rule: list_all2_induct) (auto simp: lpack_def split: if_splits)
  then have "unframe (concat ws) = (ps, [])" using unframe_pack [of ps] by simp
  with netpack_reassembles [OF assms(1)] assms(3) show ?thesis by (metis fst_conv)
qed

theorem netpack_round_trip_witness:
  "\<exists>out q. np_session [(7, [0]), (7, [2, 65, 66, 0]), (7, [1, 67])] None = Some (out, q) \<and> of_fd 7 out = [[65, 66], [67]]"
proof -
  let ?evs = "[(7, [0]), (7, [2, 65, 66, 0]), (7, [1, 67])] :: (int \<times> bytes) list"
  have "\<forall>e \<in> set ?evs. snd e \<noteq> [] \<and> length (snd e) + 1 < np_limit" by (simp add: np_limit_def)
  moreover have "list_all2 (\<lambda>p w. lpack p = Ok w) [[65, 66], [67]] [[0, 2, 65, 66], [0, 1, 67]]"
    by (simp add: lpack_def write_size_def)
  moreover have "concat (of_fd 7 ?evs) = concat [[0, 2, 65, 66], [0, 1, 67]]" by simp
  ultimately show ?thesis by (rule netpack_round_trip)
qed

end
