(* ===== verification/Lua_Value.thy ===== *)
theory Lua_Value
  imports Lua_Result C_Text
begin

text \<open>
  What \<^verbatim>\<open>lua-seri.c\<close> uses of Lua: values, tables, and the raw operations on tables. A table is
  its entries in the order in which \<^verbatim>\<open>lua_next\<close> visits them. The border that \<^verbatim>\<open>lua_rawlen\<close> returns is
  not determined by the entries, so a table of the heap carries it; one with a \<^verbatim>\<open>__pairs\<close>
  metamethod carries the pairs that the iteration yields. Integers and floats are 64-bit
  patterns.
\<close>

datatype 't lua_value =
    LNil
  | LBool bool
  | LInt u64
  | LNum u64
  | LStr bytes
  | LPtr u64
  | LTable 't
  | LOther string

type_synonym lval = "addr lua_value"

record lua_table =
  lt_len :: nat
  lt_entries :: "(lval \<times> lval) list"
  lt_pairs :: "(lval \<times> lval) list option"

type_synonym lua_heap = "addr \<Rightarrow> lua_table"

text \<open>Tables that nothing else refers to are trees.\<close>

datatype lua_tree = LTree (tree_entries: "(lua_tree lua_value \<times> lua_tree lua_value) list")

type_synonym ltree = "lua_tree lua_value"

section \<open>Keys\<close>

text \<open>
  A float key with an integral value is turned into that integer, and a table has no key that is
  not a number (\<^verbatim>\<open>luaV_tointeger\<close>, \<^verbatim>\<open>luaH_newkey\<close>).
\<close>

definition float_exponent :: "u64 \<Rightarrow> nat" where
  "float_exponent b = unat (drop_bit 52 b AND 0x7FF)"

definition float_mantissa :: "u64 \<Rightarrow> nat" where
  "float_mantissa b = unat (b AND 0xFFFFFFFFFFFFF)"

definition is_nan :: "u64 \<Rightarrow> bool" where
  "is_nan b \<longleftrightarrow> float_exponent b = 2047 \<and> float_mantissa b \<noteq> 0"

definition float_integer :: "u64 \<Rightarrow> u64 option" where
  "float_integer b =
     (let e = float_exponent b; m = float_mantissa b; n = int (2 ^ 52 + m);
          i = (if e = 0 then (if m = 0 then Some 0 else None)
               else if e = 2047 then None
               else if e \<ge> 1075 then Some (n * 2 ^ (e - 1075))
               else if n mod 2 ^ (1075 - e) = 0 then Some (n div 2 ^ (1075 - e)) else None)
      in case i of None \<Rightarrow> None
         | Some i \<Rightarrow> (let i = if bit b 63 then - i else i in if - (2 ^ 63) \<le> i \<and> i < 2 ^ 63 then Some (of_int i) else None))"

definition norm_key :: "'t lua_value \<Rightarrow> 't lua_value" where
  "norm_key k = (case k of LNum b \<Rightarrow> (case float_integer b of Some i \<Rightarrow> LInt i | None \<Rightarrow> k) | _ \<Rightarrow> k)"

definition scalar_key :: "'t lua_value \<Rightarrow> bool" where
  "scalar_key k \<longleftrightarrow> (case k of LNil \<Rightarrow> False | LTable t \<Rightarrow> False | LNum b \<Rightarrow> \<not> is_nan b \<and> float_integer b = None | _ \<Rightarrow> True)"

text \<open>The value of a key in a table of the heap, where a key is compared by identity.\<close>

definition rawget :: "('t lua_value \<times> 't lua_value) list \<Rightarrow> 't lua_value \<Rightarrow> 't lua_value" where
  "rawget kvs k = (case map_of kvs k of None \<Rightarrow> LNil | Some v \<Rightarrow> v)"

text \<open>
  An assignment in a table that is being built. A key that is a table is a new object, so it
  is never found.
\<close>

definition is_table :: "'t lua_value \<Rightarrow> bool" where
  "is_table v \<longleftrightarrow> (case v of LTable t \<Rightarrow> True | _ \<Rightarrow> False)"

fun assign :: "('t lua_value \<times> 't lua_value) list \<Rightarrow> 't lua_value \<Rightarrow> 't lua_value \<Rightarrow> ('t lua_value \<times> 't lua_value) list" where
  "assign [] k v = (if v = LNil then [] else [(k, v)])"
| "assign ((a, b) # kvs) k v =
     (if a = k \<and> \<not> is_table k then if v = LNil then kvs else (a, v) # kvs
      else (a, b) # assign kvs k v)"

definition rawset :: "('t lua_value \<times> 't lua_value) list \<Rightarrow> 't lua_value \<Rightarrow> 't lua_value
    \<Rightarrow> ('t lua_value \<times> 't lua_value) list cres" where
  "rawset kvs k v =
     (case norm_key k of
        LNil \<Rightarrow> LuaError ''table index is nil''
      | LNum b \<Rightarrow> if is_nan b then LuaError ''table index is NaN'' else Ok (assign kvs (LNum b) v)
      | k' \<Rightarrow> Ok (assign kvs k' v))"

end
