(* ===== verification/Lua_Seri.thy ===== *)
theory Lua_Seri
  imports Lua_Value
begin

text \<open>
  The serialiser of messages, \<^verbatim>\<open>lualib-src/lua-seri.c\<close>. \<^verbatim>\<open>pack\<close> writes Lua values into a chain of
  blocks of 128 bytes and copies the chain into one buffer; \<^verbatim>\<open>unpack\<close> reads the values back,
  from a buffer that can hold anything. Numbers are copied in the byte order of a little-endian
  machine. Lua tables are read from a heap, where they can be shared and cyclic; what \<^verbatim>\<open>unpack\<close>
  builds is new and is a tree.
\<close>

section \<open>Constants\<close>

definition TYPE_NIL :: int where "TYPE_NIL = 0"
definition TYPE_BOOLEAN :: int where "TYPE_BOOLEAN = 1"
definition TYPE_NUMBER :: int where "TYPE_NUMBER = 2"
definition TYPE_NUMBER_ZERO :: int where "TYPE_NUMBER_ZERO = 0"
definition TYPE_NUMBER_BYTE :: int where "TYPE_NUMBER_BYTE = 1"
definition TYPE_NUMBER_WORD :: int where "TYPE_NUMBER_WORD = 2"
definition TYPE_NUMBER_DWORD :: int where "TYPE_NUMBER_DWORD = 4"
definition TYPE_NUMBER_QWORD :: int where "TYPE_NUMBER_QWORD = 6"
definition TYPE_NUMBER_REAL :: int where "TYPE_NUMBER_REAL = 8"
definition TYPE_USERDATA :: int where "TYPE_USERDATA = 3"
definition TYPE_SHORT_STRING :: int where "TYPE_SHORT_STRING = 4"
definition TYPE_LONG_STRING :: int where "TYPE_LONG_STRING = 5"
definition TYPE_TABLE :: int where "TYPE_TABLE = 6"
definition MAX_COOKIE :: int where "MAX_COOKIE = 32"
definition BLOCK_SIZE :: nat where "BLOCK_SIZE = 128"
definition MAX_DEPTH :: nat where "MAX_DEPTH = 32"

text \<open>The byte that holds a type in its low three bits and a cookie above.\<close>

definition COMBINE_TYPE :: "int \<Rightarrow> int \<Rightarrow> u8" where
  "COMBINE_TYPE t v = of_int (t OR push_bit 3 v)"

lemmas seri_types =
  TYPE_NIL_def TYPE_BOOLEAN_def TYPE_NUMBER_def TYPE_NUMBER_ZERO_def TYPE_NUMBER_BYTE_def TYPE_NUMBER_WORD_def
  TYPE_NUMBER_DWORD_def TYPE_NUMBER_QWORD_def TYPE_NUMBER_REAL_def TYPE_USERDATA_def TYPE_SHORT_STRING_def
  TYPE_LONG_STRING_def TYPE_TABLE_def

section \<open>Numbers in memory\<close>

definition put_le :: "nat \<Rightarrow> 'a::len word \<Rightarrow> bytes" where
  "put_le n w = map (\<lambda>i. ucast (drop_bit (8 * i) w)) [0..<n]"

definition get_le :: "bytes \<Rightarrow> 'a::len word" where
  "get_le bs = foldr (\<lambda>b w. ucast b OR push_bit 8 w) bs 0"

section \<open>Blocks\<close>

text \<open>
  The chain of blocks, the last one being the current one; a block is the list of the bytes
  written to it.
\<close>

record write_block =
  wb_done :: "bytes list"
  wb_current :: bytes
  wb_len :: nat
  wb_ptr :: nat

definition wb_init :: write_block where
  "wb_init = \<lparr>wb_done = [], wb_current = [], wb_len = 0, wb_ptr = 0\<rparr>"

definition blk_alloc :: "write_block \<Rightarrow> write_block" where
  "blk_alloc b = b\<lparr>wb_done := wb_done b @ [wb_current b], wb_current := [], wb_ptr := 0\<rparr>"

text \<open>The copy of some bytes to the place that \<^verbatim>\<open>ptr\<close> points to.\<close>

definition blk_write :: "write_block \<Rightarrow> bytes \<Rightarrow> write_block cres" where
  "blk_write b bs =
     (if wb_ptr b \<le> length (wb_current b) \<and> wb_ptr b + length bs \<le> BLOCK_SIZE \<and> int (wb_len b + length bs) \<le> INT_MAX
      then Ok (b\<lparr>wb_current := take (wb_ptr b) (wb_current b) @ bs @ drop (wb_ptr b + length bs) (wb_current b),
        wb_ptr := wb_ptr b + length bs, wb_len := wb_len b + length bs\<rparr>)
      else Undefined)"

function wb_fill :: "write_block \<Rightarrow> bytes \<Rightarrow> write_block cres" where
  "wb_fill b buffer =
     (if wb_ptr b + length buffer \<le> BLOCK_SIZE then blk_write b buffer
      else let copy = BLOCK_SIZE - wb_ptr b in
        cres_bind (blk_write b (take copy buffer)) (\<lambda>b. wb_fill (blk_alloc b) (drop copy buffer)))"
  by pat_completeness auto

termination
  by (relation "measures [\<lambda>(b, buffer). length buffer, \<lambda>(b, buffer). wb_ptr b]")
    (auto simp: blk_alloc_def BLOCK_SIZE_def)

declare wb_fill.simps [simp del]

definition wb_push :: "write_block \<Rightarrow> bytes \<Rightarrow> write_block cres" where
  "wb_push b buffer = wb_fill (if wb_ptr b = BLOCK_SIZE then blk_alloc b else b) buffer"

text \<open>Copying the chain into one buffer.\<close>

fun seri :: "bytes list \<Rightarrow> nat \<Rightarrow> bytes cres" where
  "seri [] len = (if len = 0 then Ok [] else Undefined)"
| "seri (b # bs) len =
     (if len = 0 then Ok []
      else if len \<ge> BLOCK_SIZE then
        if length b < BLOCK_SIZE then Undefined
        else cres_bind (seri bs (len - BLOCK_SIZE)) (\<lambda>r. Ok (take BLOCK_SIZE b @ r))
      else if length b < len then Undefined else Ok (take len b))"

section \<open>Writing values\<close>

definition wb_nil :: "write_block \<Rightarrow> write_block cres" where
  "wb_nil wb = wb_push wb [COMBINE_TYPE TYPE_NIL 0]"

definition wb_boolean :: "write_block \<Rightarrow> bool \<Rightarrow> write_block cres" where
  "wb_boolean wb boolean = wb_push wb [COMBINE_TYPE TYPE_BOOLEAN (if boolean then 1 else 0)]"

definition wb_integer :: "write_block \<Rightarrow> u64 \<Rightarrow> write_block cres" where
  "wb_integer wb v =
     (if v = 0 then wb_push wb [COMBINE_TYPE TYPE_NUMBER TYPE_NUMBER_ZERO]
      else if v \<noteq> scast (ucast v :: u32) then
        cres_bind (wb_push wb [COMBINE_TYPE TYPE_NUMBER TYPE_NUMBER_QWORD]) (\<lambda>wb. wb_push wb (put_le 8 v))
      else if v <s 0 then
        cres_bind (wb_push wb [COMBINE_TYPE TYPE_NUMBER TYPE_NUMBER_DWORD]) (\<lambda>wb. wb_push wb (put_le 4 (ucast v :: u32)))
      else if v <s 0x100 then
        cres_bind (wb_push wb [COMBINE_TYPE TYPE_NUMBER TYPE_NUMBER_BYTE]) (\<lambda>wb. wb_push wb [ucast v])
      else if v <s 0x10000 then
        cres_bind (wb_push wb [COMBINE_TYPE TYPE_NUMBER TYPE_NUMBER_WORD]) (\<lambda>wb. wb_push wb (put_le 2 (ucast v :: u16)))
      else
        cres_bind (wb_push wb [COMBINE_TYPE TYPE_NUMBER TYPE_NUMBER_DWORD]) (\<lambda>wb. wb_push wb (put_le 4 (ucast v :: u32))))"

definition wb_real :: "write_block \<Rightarrow> u64 \<Rightarrow> write_block cres" where
  "wb_real wb v = cres_bind (wb_push wb [COMBINE_TYPE TYPE_NUMBER TYPE_NUMBER_REAL]) (\<lambda>wb. wb_push wb (put_le 8 v))"

definition wb_pointer :: "write_block \<Rightarrow> u64 \<Rightarrow> write_block cres" where
  "wb_pointer wb v = cres_bind (wb_push wb [COMBINE_TYPE TYPE_USERDATA 0]) (\<lambda>wb. wb_push wb (put_le 8 v))"

text \<open>The length of the string has been converted to an \<^verbatim>\<open>int\<close>.\<close>

definition wb_string :: "write_block \<Rightarrow> bytes \<Rightarrow> int \<Rightarrow> write_block cres" where
  "wb_string wb str len =
     (if len < MAX_COOKIE then
        cres_bind (wb_push wb [COMBINE_TYPE TYPE_SHORT_STRING len])
          (\<lambda>wb. if len > 0 then wb_push wb (take (nat len) str) else Ok wb)
      else cres_bind
        (if len < 0x10000 then
           cres_bind (wb_push wb [COMBINE_TYPE TYPE_LONG_STRING 2]) (\<lambda>wb. wb_push wb (put_le 2 (of_int len :: u16)))
         else
           cres_bind (wb_push wb [COMBINE_TYPE TYPE_LONG_STRING 4]) (\<lambda>wb. wb_push wb (put_le 4 (of_int len :: u32))))
        (\<lambda>wb. wb_push wb (take (nat len) str)))"

text \<open>The writing of a sequence of values by a given function.\<close>

fun write_all :: "('a \<Rightarrow> write_block \<Rightarrow> write_block cres) \<Rightarrow> 'a list \<Rightarrow> write_block \<Rightarrow> write_block cres" where
  "write_all one [] wb = Ok wb"
| "write_all one (v # vs) wb = cres_bind (one v wb) (write_all one vs)"

definition write_pair :: "(lval \<Rightarrow> write_block \<Rightarrow> write_block cres) \<Rightarrow> lval \<times> lval \<Rightarrow> write_block \<Rightarrow> write_block cres" where
  "write_pair one kv wb = cres_bind (one (fst kv) wb) (one (snd kv))"

text \<open>
  The functions on tables; \<^term>\<open>one\<close> is \<^verbatim>\<open>pack_one\<close> at the depth of the entries. The loop over the
  array reads the entries by their index, an absent one as nil.
\<close>

definition array_values :: "lua_table \<Rightarrow> int \<Rightarrow> lval list" where
  "array_values t array_size = map (\<lambda>i. rawget (lt_entries t) (LInt (of_nat i))) [1..<nat array_size + 1]"

definition wb_table_array ::
  "(lval \<Rightarrow> write_block \<Rightarrow> write_block cres) \<Rightarrow> lua_table \<Rightarrow> write_block \<Rightarrow> (int \<times> write_block) cres" where
  "wb_table_array one t wb =
     (let array_size = to_int32 (int (lt_len t)) in
      cres_bind
        (if array_size \<ge> MAX_COOKIE - 1 then
           cres_bind (wb_push wb [COMBINE_TYPE TYPE_TABLE (MAX_COOKIE - 1)]) (\<lambda>wb. wb_integer wb (of_int array_size))
         else wb_push wb [COMBINE_TYPE TYPE_TABLE array_size])
        (\<lambda>wb. cres_bind (write_all one (array_values t array_size) wb) (\<lambda>wb. Ok (array_size, wb))))"

text \<open>Whether the loop over the hash part skips a key, since the array part has written it.\<close>

definition in_array :: "int \<Rightarrow> lval \<Rightarrow> bool" where
  "in_array array_size k = (case k of LInt x \<Rightarrow> 0 < sint x \<and> sint x \<le> array_size | _ \<Rightarrow> False)"

definition wb_table_hash ::
  "(lval \<Rightarrow> write_block \<Rightarrow> write_block cres) \<Rightarrow> lua_table \<Rightarrow> int \<Rightarrow> write_block \<Rightarrow> write_block cres" where
  "wb_table_hash one t array_size wb =
     cres_bind (write_all (write_pair one) (filter (\<lambda>kv. \<not> in_array array_size (fst kv)) (lt_entries t)) wb) wb_nil"

text \<open>The iteration of the metamethod stops at the first nil key.\<close>

definition wb_table_metapairs ::
  "(lval \<Rightarrow> write_block \<Rightarrow> write_block cres) \<Rightarrow> (lval \<times> lval) list \<Rightarrow> write_block \<Rightarrow> write_block cres" where
  "wb_table_metapairs one kvs wb =
     cres_bind (wb_push wb [COMBINE_TYPE TYPE_TABLE 0])
       (\<lambda>wb. cres_bind (write_all (write_pair one) (takeWhile (\<lambda>kv. fst kv \<noteq> LNil) kvs) wb) wb_nil)"

definition wb_table :: "(lval \<Rightarrow> write_block \<Rightarrow> write_block cres) \<Rightarrow> lua_table \<Rightarrow> write_block \<Rightarrow> write_block cres" where
  "wb_table one t wb =
     (case lt_pairs t of
        Some kvs \<Rightarrow> wb_table_metapairs one kvs wb
      | None \<Rightarrow> cres_bind (wb_table_array one t wb) (\<lambda>(array_size, wb). wb_table_hash one t array_size wb))"

function pack_one :: "lua_heap \<Rightarrow> nat \<Rightarrow> lval \<Rightarrow> write_block \<Rightarrow> write_block cres" where
  "pack_one h depth v b =
     (if depth > MAX_DEPTH then LuaError ''serialize can't pack too depth table''
      else case v of
        LNil \<Rightarrow> wb_nil b
      | LInt x \<Rightarrow> wb_integer b x
      | LNum n \<Rightarrow> wb_real b n
      | LBool x \<Rightarrow> wb_boolean b x
      | LStr str \<Rightarrow> wb_string b str (to_int32 (int (length str)))
      | LPtr p \<Rightarrow> wb_pointer b p
      | LTable t \<Rightarrow> wb_table (pack_one h (depth + 1)) (h t) b
      | LOther ty \<Rightarrow> LuaError (''Unsupport type '' @ ty @ '' to serialize''))"
  by pat_completeness auto

termination
  by (relation "measure (\<lambda>(h, depth, v, b). MAX_DEPTH + 1 - depth)") (auto simp: MAX_DEPTH_def)

declare pack_one.simps [simp del]

definition pack_from :: "lua_heap \<Rightarrow> lval list \<Rightarrow> write_block \<Rightarrow> write_block cres" where
  "pack_from h vs b = write_all (pack_one h 0) vs b"

definition luaseri_pack :: "lua_heap \<Rightarrow> lval list \<Rightarrow> bytes cres" where
  "luaseri_pack h vs = cres_bind (pack_from h vs wb_init) (\<lambda>wb. seri (wb_done wb @ [wb_current wb]) (wb_len wb))"

section \<open>Reading values\<close>

record read_block =
  rb_buffer :: bytes
  rb_len :: int
  rb_ptr :: int

definition rball_init :: "bytes \<Rightarrow> int \<Rightarrow> read_block" where
  "rball_init buffer len = \<lparr>rb_buffer = buffer, rb_len = len, rb_ptr = 0\<rparr>"

text \<open>
  The place of the bytes read, as an offset into the buffer. The size can be negative, and then
  the difference may not fit; it wraps around.
\<close>

definition rb_read :: "read_block \<Rightarrow> int \<Rightarrow> int option \<times> read_block" where
  "rb_read rb sz =
     (if rb_len rb < sz then (None, rb)
      else (Some (rb_ptr rb), rb\<lparr>rb_ptr := to_int32 (rb_ptr rb + sz), rb_len := to_int32 (rb_len rb - sz)\<rparr>))"

text \<open>The bytes at an offset; outside the buffer there are none.\<close>

definition memory_at :: "bytes \<Rightarrow> int \<Rightarrow> nat \<Rightarrow> bytes cres" where
  "memory_at buffer p n = (if 0 \<le> p \<and> nat p + n \<le> length buffer then Ok (take n (drop (nat p) buffer)) else Undefined)"

definition invalid_stream_line :: "read_block \<Rightarrow> int \<Rightarrow> 'a cres" where
  "invalid_stream_line rb line =
     LuaError (''Invalid serialize stream '' @ print_int (rb_len rb) @ '' (line:'' @ print_int line @ '')'')"

text \<open>Reading a number of bytes, or the error that names the line.\<close>

definition read_bytes :: "int \<Rightarrow> read_block \<Rightarrow> nat \<Rightarrow> (bytes \<times> read_block) cres" where
  "read_bytes line rb n =
     (case rb_read rb (int n) of
        (None, rb) \<Rightarrow> invalid_stream_line rb line
      | (Some p, rb) \<Rightarrow> cres_bind (memory_at (rb_buffer rb) p n) (\<lambda>bs. Ok (bs, rb)))"

definition get_integer :: "read_block \<Rightarrow> int \<Rightarrow> (u64 \<times> read_block) cres" where
  "get_integer rb cookie =
     (if cookie = TYPE_NUMBER_ZERO then Ok (0, rb)
      else if cookie = TYPE_NUMBER_BYTE then
        cres_bind (read_bytes 368 rb 1) (\<lambda>(bs, rb). Ok (ucast (get_le bs :: u8), rb))
      else if cookie = TYPE_NUMBER_WORD then
        cres_bind (read_bytes 376 rb 2) (\<lambda>(bs, rb). Ok (ucast (get_le bs :: u16), rb))
      else if cookie = TYPE_NUMBER_DWORD then
        cres_bind (read_bytes 384 rb 4) (\<lambda>(bs, rb). Ok (scast (get_le bs :: u32), rb))
      else if cookie = TYPE_NUMBER_QWORD then
        cres_bind (read_bytes 392 rb 8) (\<lambda>(bs, rb). Ok (get_le bs, rb))
      else invalid_stream_line rb 397)"

definition get_real :: "read_block \<Rightarrow> (u64 \<times> read_block) cres" where
  "get_real rb = cres_bind (read_bytes 407 rb 8) (\<lambda>(bs, rb). Ok (get_le bs, rb))"

definition get_pointer :: "read_block \<Rightarrow> (u64 \<times> read_block) cres" where
  "get_pointer rb = cres_bind (read_bytes 417 rb 8) (\<lambda>(bs, rb). Ok (get_le bs, rb))"

text \<open>A negative length becomes a huge \<^verbatim>\<open>size_t\<close>, which \<^verbatim>\<open>lua_pushlstring\<close> refuses.\<close>

definition get_buffer :: "read_block \<Rightarrow> int \<Rightarrow> (ltree \<times> read_block) cres" where
  "get_buffer rb len =
     (case rb_read rb len of
        (None, rb) \<Rightarrow> invalid_stream_line rb 427
      | (Some p, rb) \<Rightarrow>
          if len < 0 then LuaError ''memory allocation error: block too big''
          else cres_bind (memory_at (rb_buffer rb) p (nat len)) (\<lambda>bs. Ok (LStr bs, rb)))"

text \<open>
  The loops of \<^verbatim>\<open>unpack_table\<close>; \<^term>\<open>one\<close> is \<^verbatim>\<open>unpack_one\<close>. The second one ends at a nil, and the
  number given bounds its rounds.
\<close>

fun unpack_array :: "(read_block \<Rightarrow> (ltree \<times> read_block) cres) \<Rightarrow> nat \<Rightarrow> nat \<Rightarrow> (ltree \<times> ltree) list \<Rightarrow> read_block
    \<Rightarrow> ((ltree \<times> ltree) list \<times> read_block) cres" where
  "unpack_array one i n t rb =
     (if n = 0 then Ok (t, rb)
      else cres_bind (one rb) (\<lambda>(v, rb). cres_bind (rawset t (LInt (of_nat i)) v) (\<lambda>t. unpack_array one (i + 1) (n - 1) t rb)))"

declare unpack_array.simps [simp del]

fun unpack_hash :: "(read_block \<Rightarrow> (ltree \<times> read_block) cres) \<Rightarrow> nat \<Rightarrow> (ltree \<times> ltree) list \<Rightarrow> read_block
    \<Rightarrow> ((ltree \<times> ltree) list \<times> read_block) cres" where
  "unpack_hash one 0 t rb = Undefined"
| "unpack_hash one (Suc n) t rb =
     cres_bind (one rb) (\<lambda>(k, rb). if k = LNil then Ok (t, rb)
       else cres_bind (one rb) (\<lambda>(v, rb). cres_bind (rawset t k v) (\<lambda>t. unpack_hash one n t rb)))"

definition table_size :: "read_block \<Rightarrow> int \<Rightarrow> (int \<times> read_block) cres" where
  "table_size rb array_size =
     (if array_size = MAX_COOKIE - 1 then
        cres_bind (read_bytes 440 rb 1) (\<lambda>(bs, rb).
          let type = get_le bs :: u8; cookie = uint (drop_bit 3 type) in
          if uint (type AND 7) \<noteq> TYPE_NUMBER \<or> cookie = TYPE_NUMBER_REAL then invalid_stream_line rb 445
          else cres_bind (get_integer rb cookie) (\<lambda>(n, rb). Ok (to_int32 (sint n), rb)))
      else Ok (array_size, rb))"

definition unpack_table :: "(read_block \<Rightarrow> (ltree \<times> read_block) cres) \<Rightarrow> nat \<Rightarrow> read_block \<Rightarrow> int \<Rightarrow> (ltree \<times> read_block) cres" where
  "unpack_table one rounds rb array_size =
     cres_bind (table_size rb array_size) (\<lambda>(array_size, rb).
     cres_bind (unpack_array one 1 (nat array_size) [] rb) (\<lambda>(t, rb).
     cres_bind (unpack_hash one rounds t rb) (\<lambda>(t, rb). Ok (LTable (LTree t), rb))))"

definition push_value :: "(read_block \<Rightarrow> (ltree \<times> read_block) cres) \<Rightarrow> nat \<Rightarrow> read_block \<Rightarrow> int \<Rightarrow> int \<Rightarrow> (ltree \<times> read_block) cres" where
  "push_value one rounds rb type cookie =
     (if type = TYPE_NIL then Ok (LNil, rb)
      else if type = TYPE_BOOLEAN then Ok (LBool (cookie \<noteq> 0), rb)
      else if type = TYPE_NUMBER then
        if cookie = TYPE_NUMBER_REAL then cres_bind (get_real rb) (\<lambda>(n, rb). Ok (LNum n, rb))
        else cres_bind (get_integer rb cookie) (\<lambda>(n, rb). Ok (LInt n, rb))
      else if type = TYPE_USERDATA then cres_bind (get_pointer rb) (\<lambda>(p, rb). Ok (LPtr p, rb))
      else if type = TYPE_SHORT_STRING then get_buffer rb cookie
      else if type = TYPE_LONG_STRING then
        if cookie = 2 then cres_bind (read_bytes 493 rb 2) (\<lambda>(bs, rb). get_buffer rb (uint (get_le bs :: u16)))
        else if cookie \<noteq> 4 then invalid_stream_line rb 500
        else cres_bind (read_bytes 504 rb 4) (\<lambda>(bs, rb). get_buffer rb (to_int32 (uint (get_le bs :: u32))))
      else if type = TYPE_TABLE then unpack_table one rounds rb cookie
      else invalid_stream_line rb 517)"

fun unpack_one :: "nat \<Rightarrow> read_block \<Rightarrow> (ltree \<times> read_block) cres" where
  "unpack_one 0 rb = Undefined"
| "unpack_one (Suc n) rb =
     cres_bind (read_bytes 528 rb 1) (\<lambda>(bs, rb).
       let type = get_le bs :: u8 in push_value (unpack_one n) n rb (uint (type AND 7)) (uint (drop_bit 3 type)))"

text \<open>The loop of \<^verbatim>\<open>luaseri_unpack\<close> over the values of the buffer.\<close>

fun unpack_all :: "nat \<Rightarrow> read_block \<Rightarrow> ltree list cres" where
  "unpack_all 0 rb = Undefined"
| "unpack_all (Suc n) rb =
     (case rb_read rb 1 of
        (None, rb) \<Rightarrow> Ok []
      | (Some p, rb) \<Rightarrow>
          cres_bind (memory_at (rb_buffer rb) p 1) (\<lambda>bs.
          let type = get_le bs :: u8 in
          cres_bind (push_value (unpack_one n) n rb (uint (type AND 7)) (uint (drop_bit 3 type))) (\<lambda>(v, rb).
          cres_bind (unpack_all n rb) (\<lambda>vs. Ok (v # vs)))))"

text \<open>The argument: nothing, a string, or a pointer to a block of memory with a length.\<close>

datatype unpack_arg = UNone | UString bytes | UPointer "bytes option" int

definition luaseri_unpack :: "unpack_arg \<Rightarrow> ltree list cres" where
  "luaseri_unpack arg =
     (case arg of
        UNone \<Rightarrow> Ok []
      | UString s \<Rightarrow> (let len = to_int32 (int (length s)) in
          if len = 0 then Ok [] else unpack_all (nat len + 1) (rball_init s len))
      | UPointer buffer n \<Rightarrow> (let len = to_int32 n in
          if len = 0 then Ok []
          else case buffer of
            None \<Rightarrow> LuaError ''deserialize null pointer''
          | Some buffer \<Rightarrow> unpack_all (nat len + 1) (rball_init buffer len)))"

section \<open>The format\<close>

definition enc_integer :: "u64 \<Rightarrow> bytes" where
  "enc_integer v =
     (if v = 0 then [2]
      else if v \<noteq> scast (ucast v :: u32) then 50 # put_le 8 v
      else if v <s 0 then 34 # put_le 4 (ucast v :: u32)
      else if v <s 0x100 then [10, ucast v]
      else if v <s 0x10000 then 18 # put_le 2 (ucast v :: u16)
      else 34 # put_le 4 (ucast v :: u32))"

definition enc_string :: "bytes \<Rightarrow> bytes" where
  "enc_string s =
     (if length s < 32 then COMBINE_TYPE 4 (int (length s)) # s
      else if length s < 0x10000 then 21 # put_le 2 (of_nat (length s) :: u16) @ s
      else 37 # put_le 4 (of_nat (length s) :: u32) @ s)"

definition enc_size :: "nat \<Rightarrow> bytes" where
  "enc_size n = (if n < 31 then [COMBINE_TYPE 6 (int n)] else 254 # enc_integer (of_nat n))"

definition cat :: "bytes option \<Rightarrow> bytes option \<Rightarrow> bytes option" where
  "cat a b = (case a of None \<Rightarrow> None | Some x \<Rightarrow> map_option ((@) x) b)"

primrec enc_all :: "('a \<Rightarrow> bytes option) \<Rightarrow> 'a list \<Rightarrow> bytes option" where
  "enc_all one [] = Some []"
| "enc_all one (v # vs) = cat (one v) (enc_all one vs)"

definition enc_pair :: "(lval \<Rightarrow> bytes option) \<Rightarrow> lval \<times> lval \<Rightarrow> bytes option" where
  "enc_pair one kv = cat (one (fst kv)) (one (snd kv))"

text \<open>The entries of a table in the order in which they are written: an array part, and pairs.\<close>

definition table_array :: "lua_table \<Rightarrow> lval list" where
  "table_array t = (if lt_pairs t = None then array_values t (int (lt_len t)) else [])"

definition table_rest :: "lua_table \<Rightarrow> (lval \<times> lval) list" where
  "table_rest t =
     (case lt_pairs t of
        Some kvs \<Rightarrow> takeWhile (\<lambda>kv. fst kv \<noteq> LNil) kvs
      | None \<Rightarrow> filter (\<lambda>kv. \<not> in_array (int (lt_len t)) (fst kv)) (lt_entries t))"

definition enc_table :: "(lval \<Rightarrow> bytes option) \<Rightarrow> lua_table \<Rightarrow> bytes option" where
  "enc_table one t =
     cat (Some (enc_size (length (table_array t))))
       (cat (enc_all one (table_array t)) (cat (enc_all (enc_pair one) (table_rest t)) (Some [0])))"

function enc_one :: "lua_heap \<Rightarrow> nat \<Rightarrow> lval \<Rightarrow> bytes option" where
  "enc_one h depth v =
     (if depth > MAX_DEPTH then None
      else case v of
        LNil \<Rightarrow> Some [0]
      | LInt x \<Rightarrow> Some (enc_integer x)
      | LNum n \<Rightarrow> Some (66 # put_le 8 n)
      | LBool x \<Rightarrow> Some [if x then 9 else 1]
      | LStr str \<Rightarrow> Some (enc_string str)
      | LPtr p \<Rightarrow> Some (3 # put_le 8 p)
      | LTable t \<Rightarrow> enc_table (enc_one h (depth + 1)) (h t)
      | LOther ty \<Rightarrow> None)"
  by pat_completeness auto

termination
  by (relation "measure (\<lambda>(h, depth, v). MAX_DEPTH + 1 - depth)") (auto simp: MAX_DEPTH_def)

declare enc_one.simps [simp del]

text \<open>
  The heaps that \<^verbatim>\<open>pack\<close> meets: the keys of a table are distinct, none is nil, not-a-number or an
  integral float, no value is nil, and the lengths fit an \<^verbatim>\<open>int\<close>.
\<close>

definition str_ok :: "lval \<Rightarrow> bool" where
  "str_ok v = (case v of LStr s \<Rightarrow> int (length s) \<le> INT_MAX | _ \<Rightarrow> True)"

definition key_ok :: "lval \<Rightarrow> bool" where
  "key_ok k \<longleftrightarrow> scalar_key k \<or> is_table k"

definition lt_ok :: "lua_table \<Rightarrow> bool" where
  "lt_ok t \<longleftrightarrow> int (lt_len t) \<le> INT_MAX \<and> distinct (map fst (lt_entries t)) \<and>
     (\<forall>(k, v) \<in> set (lt_entries t). key_ok k \<and> str_ok k \<and> v \<noteq> LNil \<and> str_ok v) \<and>
     (case lt_pairs t of None \<Rightarrow> True
      | Some kvs \<Rightarrow> \<forall>(k, v) \<in> set (takeWhile (\<lambda>kv. fst kv \<noteq> LNil) kvs). (\<forall>b. k = LNum b \<longrightarrow> \<not> is_nan b) \<and> str_ok k \<and> str_ok v)"

section \<open>Writing follows the format\<close>

definition wb_rep :: "write_block \<Rightarrow> bytes \<Rightarrow> bool" where
  "wb_rep wb xs \<longleftrightarrow> concat (wb_done wb) @ wb_current wb = xs \<and> wb_ptr wb = length (wb_current wb) \<and>
     wb_ptr wb \<le> BLOCK_SIZE \<and> (\<forall>b \<in> set (wb_done wb). length b = BLOCK_SIZE) \<and> wb_len wb = length xs \<and>
     int (wb_len wb) \<le> INT_MAX"

text \<open>A writer that starts behind some bytes and follows an encoding.\<close>

definition wb_ok :: "bytes \<Rightarrow> bytes option \<Rightarrow> write_block cres \<Rightarrow> bool" where
  "wb_ok xs e r =
     (case r of
        Ok wb \<Rightarrow> (\<exists>bs. e = Some bs \<and> wb_rep wb (xs @ bs))
      | LuaError m \<Rightarrow> e = None
      | Undefined \<Rightarrow> (\<forall>bs. e = Some bs \<longrightarrow> int (length (xs @ bs)) > INT_MAX))"

lemma wb_fill_ok:
  assumes "wb_rep wb xs" "wb_ptr wb < BLOCK_SIZE \<or> bs = []"
  shows "wb_ok xs (Some bs) (wb_fill wb bs)"
  using assms
proof (induction wb bs arbitrary: xs rule: wb_fill.induct)
  case (1 b buffer)
  show ?case
  proof (cases "wb_ptr b + length buffer \<le> BLOCK_SIZE")
    case True
    with 1(2) show ?thesis
      by (auto simp: wb_fill.simps [of b] blk_write_def wb_ok_def wb_rep_def)
  next
    case False
    let ?c = "BLOCK_SIZE - wb_ptr b"
    show ?thesis
    proof (cases "int (wb_len b + ?c) \<le> INT_MAX")
      case True
      let ?b = "b\<lparr>wb_current := wb_current b @ take ?c buffer, wb_ptr := BLOCK_SIZE, wb_len := wb_len b + ?c\<rparr>"
      from False 1(2) True have w: "blk_write b (take ?c buffer) = Ok ?b"
        by (auto simp: blk_write_def wb_rep_def)
      have "wb_rep (blk_alloc ?b) (xs @ take ?c buffer)" "wb_ptr (blk_alloc ?b) < BLOCK_SIZE"
        using False 1(2) True by (auto simp: wb_rep_def blk_alloc_def BLOCK_SIZE_def)
      with 1(1) [OF False refl, of ?b "xs @ take ?c buffer"] have
        "wb_ok (xs @ take ?c buffer) (Some (drop ?c buffer)) (wb_fill (blk_alloc ?b) (drop ?c buffer))" by blast
      moreover have "wb_fill b buffer = wb_fill (blk_alloc ?b) (drop ?c buffer)"
        using False w by (simp add: wb_fill.simps [of b] Let_def)
      moreover have "take ?c buffer @ drop ?c buffer @ ys = buffer @ ys" for ys by (metis append_assoc append_take_drop_id)
      ultimately show ?thesis by (simp add: wb_ok_def split: cres.splits)
    next
      case F: False
      with False 1(2) have "wb_fill b buffer = Undefined"
        by (auto simp: wb_fill.simps [of b] blk_write_def wb_rep_def)
      with F False 1(2) show ?thesis by (auto simp: wb_ok_def wb_rep_def)
    qed
  qed
qed

lemma wb_push_ok: "wb_rep wb xs \<Longrightarrow> wb_ok xs (Some bs) (wb_push wb bs)"
  unfolding wb_push_def
  by (rule wb_fill_ok) (auto simp: wb_rep_def blk_alloc_def BLOCK_SIZE_def)

lemma wb_bind_ok:
  assumes "wb_ok xs e r" and "\<And>wb bs. e = Some bs \<Longrightarrow> wb_rep wb (xs @ bs) \<Longrightarrow> wb_ok (xs @ bs) e' (f wb)"
  shows "wb_ok xs (cat e e') (cres_bind r f)"
proof (cases r)
  case (Ok wb)
  with assms(1) obtain bs where bs: "e = Some bs" "wb_rep wb (xs @ bs)" by (auto simp: wb_ok_def)
  from assms(2) [OF this] show ?thesis
    by (cases e') (auto simp: Ok bs(1) wb_ok_def cat_def split: cres.splits)
qed (use assms(1) in \<open>auto simp: wb_ok_def cat_def split: option.splits\<close>)

lemma cat_simps [simp]: "cat (Some a) (Some b) = Some (a @ b)" "cat None e = None" "cat e None = None"
  by (auto simp: cat_def split: option.splits)

lemma cres_bind_undefined: "cres_bind r f = Undefined \<Longrightarrow> (r = Undefined \<Longrightarrow> Q) \<Longrightarrow> (\<And>x. r = Ok x \<Longrightarrow> f x = Undefined \<Longrightarrow> Q) \<Longrightarrow> Q"
  by (cases r) auto

lemma wb_push2_ok: "wb_rep wb xs \<Longrightarrow> wb_ok xs (Some (as @ bs)) (cres_bind (wb_push wb as) (\<lambda>wb. wb_push wb bs))"
  using wb_bind_ok [OF wb_push_ok, where e' = "Some bs"] wb_push_ok by auto

lemma write_all_ok:
  assumes "\<And>v wb xs. v \<in> set vs \<Longrightarrow> wb_rep wb xs \<Longrightarrow> wb_ok xs (enc v) (one v wb)" "wb_rep wb xs"
  shows "wb_ok xs (enc_all enc vs) (write_all one vs wb)"
  using assms
proof (induction vs arbitrary: wb xs)
  case Nil
  then show ?case by (simp add: wb_ok_def)
next
  case (Cons v vs)
  from Cons.prems show ?case by (auto intro!: wb_bind_ok Cons.IH)
qed

lemma COMBINE_TYPE_simps [simp]:
  "COMBINE_TYPE 0 0 = 0" "COMBINE_TYPE 1 0 = 1" "COMBINE_TYPE 1 1 = 9" "COMBINE_TYPE 2 0 = 2" "COMBINE_TYPE 2 1 = 10"
  "COMBINE_TYPE 2 2 = 18" "COMBINE_TYPE 2 4 = 34" "COMBINE_TYPE 2 6 = 50" "COMBINE_TYPE 2 8 = 66" "COMBINE_TYPE 3 0 = 3"
  "COMBINE_TYPE 5 2 = 21" "COMBINE_TYPE 5 4 = 37" "COMBINE_TYPE 6 31 = 254" "COMBINE_TYPE 6 0 = 6"
  by (simp_all add: COMBINE_TYPE_def)

lemma wb_integer_ok: "wb_rep wb xs \<Longrightarrow> wb_ok xs (Some (enc_integer v)) (wb_integer wb v)"
  unfolding wb_integer_def enc_integer_def seri_types COMBINE_TYPE_simps
  using wb_push_ok [of wb xs "[2]"] wb_push2_ok [of wb xs "[50]"] wb_push2_ok [of wb xs "[34]"] wb_push2_ok [of wb xs "[18]"]
    wb_push2_ok [of wb xs "[10]"]
  by (auto simp del: One_nat_def)

lemma to_int32_id [simp]: "- (2 ^ 31) \<le> n \<Longrightarrow> n \<le> INT_MAX \<Longrightarrow> to_int32 n = n"
  unfolding to_int32_def by (rule signed_take_bit_int_eq_self) (auto simp: INT_MAX_def)

lemma wb_string_ok:
  assumes "wb_rep wb xs" "int (length s) \<le> INT_MAX"
  shows "wb_ok xs (Some (enc_string s)) (wb_string wb s (to_int32 (int (length s))))"
proof -
  have l: "to_int32 (int (length s)) = int (length s)" using assms(2) by simp
  consider (short) "length s < 32" | (medium) "32 \<le> length s" "length s < 0x10000" | (long) "0x10000 \<le> length s" by linarith
  then show ?thesis
  proof cases
    case short
    then show ?thesis using wb_push2_ok [OF assms(1), of "[COMBINE_TYPE 4 (int (length s))]" s]
        wb_push_ok [OF assms(1), of "[COMBINE_TYPE 4 (int (length s))]"]
      by (cases "wb_push wb [COMBINE_TYPE 4 (int (length s))]") (auto simp: wb_string_def l enc_string_def MAX_COOKIE_def seri_types)
  next
    case medium
    have "wb_ok xs (cat (Some ([21] @ put_le 2 (of_nat (length s) :: u16))) (Some s)) (cres_bind
        (cres_bind (wb_push wb [21]) (\<lambda>wb. wb_push wb (put_le 2 (of_nat (length s) :: u16)))) (\<lambda>wb. wb_push wb s))"
      by (rule wb_bind_ok [OF wb_push2_ok [OF assms(1)] wb_push_ok])
    with medium show ?thesis by (simp add: wb_string_def l enc_string_def MAX_COOKIE_def seri_types)
  next
    case long
    have "wb_ok xs (cat (Some ([37] @ put_le 4 (of_nat (length s) :: u32))) (Some s)) (cres_bind
        (cres_bind (wb_push wb [37]) (\<lambda>wb. wb_push wb (put_le 4 (of_nat (length s) :: u32)))) (\<lambda>wb. wb_push wb s))"
      by (rule wb_bind_ok [OF wb_push2_ok [OF assms(1)] wb_push_ok])
    with long show ?thesis by (simp add: wb_string_def l enc_string_def MAX_COOKIE_def seri_types)
  qed
qed

lemma cres_bind_assoc: "cres_bind (cres_bind r f) g = cres_bind r (\<lambda>x. cres_bind (f x) g)"
  by (cases r) simp_all

lemma wb_size_ok:
  assumes "wb_rep wb xs" "int n \<le> INT_MAX"
  shows "wb_ok xs (Some (enc_size n))
    (if int n \<ge> MAX_COOKIE - 1 then
       cres_bind (wb_push wb [COMBINE_TYPE TYPE_TABLE (MAX_COOKIE - 1)]) (\<lambda>wb. wb_integer wb (of_int (int n)))
     else wb_push wb [COMBINE_TYPE TYPE_TABLE (int n)])"
proof (cases "31 \<le> n")
  case True
  have "wb_ok xs (cat (Some [254]) (Some (enc_integer (of_nat n)))) (cres_bind (wb_push wb [254]) (\<lambda>wb. wb_integer wb (of_nat n)))"
    by (rule wb_bind_ok [OF wb_push_ok [OF assms(1)] wb_integer_ok])
  with True show ?thesis by (simp add: enc_size_def MAX_COOKIE_def seri_types)
next
  case False
  with wb_push_ok [OF assms(1)] show ?thesis by (simp add: enc_size_def MAX_COOKIE_def seri_types)
qed

lemma wb_nil_ok: "wb_rep wb xs \<Longrightarrow> wb_ok xs (Some [0]) (wb_nil wb)"
  using wb_push_ok [of wb xs "[0]"] by (simp add: wb_nil_def seri_types)

lemma cat_assoc: "cat (cat a b) c = cat a (cat b c)"
  by (cases a; cases b; cases c) simp_all

text \<open>A writer of single values that follows an encoding gives a writer of tables that does.\<close>

lemma wb_table_ok:
  assumes one: "\<And>v wb xs. str_ok v \<Longrightarrow> wb_rep wb xs \<Longrightarrow> wb_ok xs (enc v) (one v wb)"
    and "lt_ok t" "wb_rep wb xs"
  shows "wb_ok xs (enc_table enc t) (wb_table one t wb)"
proof -
  have pair: "wb_ok xs (enc_pair enc kv) (write_pair one kv wb)" if "str_ok (fst kv)" "str_ok (snd kv)" "wb_rep wb xs" for kv wb xs
    using that unfolding enc_pair_def write_pair_def by (intro wb_bind_ok one) auto
  show ?thesis
  proof (cases "lt_pairs t")
    case None
    have "str_ok (rawget (lt_entries t) k)" for k
    proof (cases "map_of (lt_entries t) k")
      case (Some v)
      then have "(k, v) \<in> set (lt_entries t)" by (rule map_of_SomeD)
      with assms(2) have "str_ok v" by (auto simp: lt_ok_def)
      with Some show ?thesis by (simp add: rawget_def)
    qed (simp add: rawget_def str_ok_def)
    then have arr: "str_ok v" if "v \<in> set (array_values t n)" for v n using that by (auto simp: array_values_def)
    have rest: "str_ok (fst kv)" "str_ok (snd kv)" if "kv \<in> set (table_rest t)" for kv
      using that assms(2) None by (auto simp: lt_ok_def table_rest_def)
    have len: "int (lt_len t) \<le> INT_MAX" using assms(2) by (simp add: lt_ok_def)
    have tail: "wb_ok xs (cat (enc_all (enc_pair enc) (table_rest t)) (Some [0]))
        (cres_bind (write_all (write_pair one) (table_rest t) wb) wb_nil)" if "wb_rep wb xs" for wb xs
      by (rule wb_bind_ok [OF write_all_ok wb_nil_ok]) (use rest pair that in auto)
    have "wb_ok xs (cat (enc_all enc (array_values t n)) (cat (enc_all (enc_pair enc) (table_rest t)) (Some [0])))
        (cres_bind (write_all one (array_values t n) wb)
           (\<lambda>wb. cres_bind (write_all (write_pair one) (table_rest t) wb) wb_nil))" if "wb_rep wb xs" for wb xs n
      by (rule wb_bind_ok [OF write_all_ok tail]) (use arr one that in auto)
    note body = wb_bind_ok [OF wb_size_ok [OF assms(3) len] this]
    have "wb_ok xs (cat (Some (enc_size (lt_len t)))
        (cat (enc_all enc (array_values t (int (lt_len t)))) (cat (enc_all (enc_pair enc) (table_rest t)) (Some [0]))))
      (cres_bind (if int (lt_len t) \<ge> MAX_COOKIE - 1 then
           cres_bind (wb_push wb [COMBINE_TYPE TYPE_TABLE (MAX_COOKIE - 1)]) (\<lambda>wb. wb_integer wb (of_int (int (lt_len t))))
         else wb_push wb [COMBINE_TYPE TYPE_TABLE (int (lt_len t))])
        (\<lambda>wb. cres_bind (write_all one (array_values t (int (lt_len t))) wb)
           (\<lambda>wb. cres_bind (write_all (write_pair one) (table_rest t) wb) wb_nil)))"
      by (rule body)
    moreover have "length (array_values t (int (lt_len t))) = lt_len t" by (simp add: array_values_def)
    ultimately show ?thesis using len
      by (simp add: None enc_table_def table_array_def table_rest_def wb_table_def wb_table_array_def wb_table_hash_def
        cres_bind_assoc Let_def)
  next
    case (Some kvs)
    have rest: "str_ok (fst kv)" "str_ok (snd kv)" if "kv \<in> set (table_rest t)" for kv
      using that assms(2) Some by (auto simp: lt_ok_def table_rest_def)
    have "wb_ok xs (cat (Some [6]) (cat (enc_all (enc_pair enc) (table_rest t)) (Some [0])))
       (cres_bind (wb_push wb [6]) (\<lambda>wb. cres_bind (write_all (write_pair one) (table_rest t) wb) wb_nil))"
      by (rule wb_bind_ok [OF wb_push_ok [OF assms(3)] wb_bind_ok [OF write_all_ok wb_nil_ok]]) (use rest pair in auto)
    then show ?thesis
      by (simp add: Some enc_table_def table_array_def table_rest_def wb_table_def wb_table_metapairs_def enc_size_def seri_types
        cat_assoc [symmetric])
  qed
qed

lemma pack_one_ok:
  assumes "\<And>t. lt_ok (h t)" "str_ok v" "wb_rep wb xs"
  shows "wb_ok xs (enc_one h depth v) (pack_one h depth v wb)"
  using assms
proof (induction h depth v arbitrary: wb xs rule: enc_one.induct)
  case (1 h depth v)
  show ?case
  proof (cases "depth > MAX_DEPTH")
    case True
    then show ?thesis by (simp add: enc_one.simps [of h] pack_one.simps [of h] wb_ok_def)
  next
    case False
    show ?thesis
    proof (cases v)
      case (LTable t)
      have "wb_ok xs (enc_table (enc_one h (depth + 1)) (h t)) (wb_table (pack_one h (depth + 1)) (h t) wb)"
        by (rule wb_table_ok) (use False 1 LTable in auto)
      with False LTable show ?thesis by (simp add: enc_one.simps [of h] pack_one.simps [of h])
    next
      case (LStr s)
      with 1(3,4) False wb_string_ok show ?thesis by (simp add: enc_one.simps [of h] pack_one.simps [of h] str_ok_def)
    qed (use False 1(4) wb_nil_ok wb_integer_ok wb_push_ok wb_push2_ok [of wb xs "[66]"] wb_push2_ok [of wb xs "[3]"] in
        \<open>auto simp: enc_one.simps [of h] pack_one.simps [of h] wb_real_def wb_pointer_def wb_boolean_def seri_types wb_ok_def [of _ None]\<close>)
  qed
qed

section \<open>Packing\<close>

lemma seri_blocks:
  "\<forall>b \<in> set bs. length b = BLOCK_SIZE \<Longrightarrow> length c \<le> BLOCK_SIZE \<Longrightarrow>
   seri (bs @ [c]) (length (concat bs) + length c) = Ok (concat bs @ c)"
proof (induction bs)
  case Nil
  then show ?case by (auto simp: BLOCK_SIZE_def)
next
  case (Cons b bs)
  then show ?case by (auto simp: BLOCK_SIZE_def)
qed

lemma wb_rep_init: "wb_rep wb_init []"
  by (simp add: wb_rep_def wb_init_def INT_MAX_def)

lemma seri_rep: "wb_rep wb xs \<Longrightarrow> seri (wb_done wb @ [wb_current wb]) (wb_len wb) = Ok xs"
  using seri_blocks [of "wb_done wb" "wb_current wb"] by (auto simp: wb_rep_def)

lemma luaseri_pack_format:
  assumes "\<And>t. lt_ok (h t)" "\<forall>v \<in> set vs. str_ok v"
  shows "(case luaseri_pack h vs of
      Ok bs \<Rightarrow> enc_all (enc_one h 0) vs = Some bs \<and> int (length bs) \<le> INT_MAX
    | LuaError m \<Rightarrow> enc_all (enc_one h 0) vs = None
    | Undefined \<Rightarrow> \<forall>bs. enc_all (enc_one h 0) vs = Some bs \<longrightarrow> int (length bs) > INT_MAX)"
proof -
  have "wb_ok [] (enc_all (enc_one h 0) vs) (pack_from h vs wb_init)"
    unfolding pack_from_def by (rule write_all_ok [OF pack_one_ok wb_rep_init]) (use assms in auto)
  moreover have "int (length xs) \<le> INT_MAX" if "wb_rep wb xs" for wb xs using that by (auto simp: wb_rep_def)
  ultimately show ?thesis by (auto simp: wb_ok_def luaseri_pack_def seri_rep split: cres.splits)
qed

section \<open>Reading is safe\<close>

text \<open>The reader has some bytes before it.\<close>

definition rb_at :: "read_block \<Rightarrow> bytes \<Rightarrow> bool" where
  "rb_at rb ys \<longleftrightarrow> 0 \<le> rb_ptr rb \<and> rb_len rb = int (length ys) \<and> rb_ptr rb + rb_len rb \<le> int (length (rb_buffer rb)) \<and>
     ys = take (length ys) (drop (nat (rb_ptr rb)) (rb_buffer rb)) \<and> rb_ptr rb + rb_len rb \<le> INT_MAX"

definition rb_adv :: "read_block \<Rightarrow> nat \<Rightarrow> read_block" where
  "rb_adv rb n = rb\<lparr>rb_ptr := rb_ptr rb + int n, rb_len := rb_len rb - int n\<rparr>"

lemma rb_adv_simps [simp]: "rb_adv rb 0 = rb" "rb_adv (rb_adv rb n) m = rb_adv rb (n + m)"
    "rb_len (rb_adv rb n) = rb_len rb - int n"
  by (simp_all add: rb_adv_def)

lemma rb_at_adv: "rb_at rb (bs @ ys) \<Longrightarrow> rb_at (rb_adv rb (length bs)) ys"
proof -
  assume r: "rb_at rb (bs @ ys)"
  then have "bs @ ys = take (length bs + length ys) (drop (nat (rb_ptr rb)) (rb_buffer rb))" by (simp add: rb_at_def)
  then have "drop (length bs) (bs @ ys) = drop (length bs) (take (length bs + length ys) (drop (nat (rb_ptr rb)) (rb_buffer rb)))" by simp
  then have "ys = take (length ys) (drop (nat (rb_ptr rb + int (length bs))) (rb_buffer rb))"
    using r by (simp add: rb_at_def drop_take nat_add_distrib add.commute)
  with r show ?thesis by (simp add: rb_at_def rb_adv_def)
qed

lemma rb_at_front: "rb_at rb (bs @ ys) \<Longrightarrow> take (length bs) (drop (nat (rb_ptr rb)) (rb_buffer rb)) = bs"
proof -
  assume "rb_at rb (bs @ ys)"
  then have "bs @ ys = take (length bs + length ys) (drop (nat (rb_ptr rb)) (rb_buffer rb))" by (simp add: rb_at_def)
  then have "take (length bs) (bs @ ys) = take (length bs) (take (length bs + length ys) (drop (nat (rb_ptr rb)) (rb_buffer rb)))" by simp
  then show ?thesis by (simp add: min_def)
qed

lemma rb_read_at: "rb_at rb (bs @ ys) \<Longrightarrow> rb_read rb (int (length bs)) = (Some (rb_ptr rb), rb_adv rb (length bs))"
  by (auto simp: rb_read_def rb_at_def rb_adv_def)

lemma memory_at_front: "rb_at rb (bs @ ys) \<Longrightarrow> memory_at (rb_buffer rb) (rb_ptr rb) (length bs) = Ok bs"
  using rb_at_front [of rb bs ys] by (auto simp: memory_at_def rb_at_def)

lemma read_bytes_at:
  "rb_at rb (bs @ ys) \<Longrightarrow> length bs = n \<Longrightarrow> read_bytes line rb n = Ok (bs, rb_adv rb n)"
  using rb_read_at [of rb bs ys] memory_at_front [of rb bs ys] by (auto simp: read_bytes_def rb_adv_def)

text \<open>A reader that stays within its bytes and consumes some of them, or raises an error.\<close>

definition consumes :: "nat \<Rightarrow> read_block \<Rightarrow> ('a \<times> read_block) cres \<Rightarrow> bool" where
  "consumes k rb r \<longleftrightarrow> r \<noteq> Undefined \<and>
     (\<forall>v rb'. r = Ok (v, rb') \<longrightarrow> (\<exists>ys. rb_at rb' ys) \<and> rb_len rb' + int k \<le> rb_len rb)"

lemma consumes_bind:
  assumes "consumes k rb r"
    and "\<And>v rb' ys. r = Ok (v, rb') \<Longrightarrow> rb_at rb' ys \<Longrightarrow> rb_len rb' + int k \<le> rb_len rb \<Longrightarrow> consumes j rb' (f (v, rb'))"
  shows "consumes (k + j) rb (cres_bind r f)"
proof (cases r)
  case (Ok vr)
  then obtain v rb' where r: "r = Ok (v, rb')" by (cases vr) auto
  with assms(1) obtain ys where "rb_at rb' ys" "rb_len rb' + int k \<le> rb_len rb" by (auto simp: consumes_def)
  with assms(2) [OF r this] r show ?thesis by (fastforce simp: consumes_def)
qed (use assms(1) in \<open>auto simp: consumes_def\<close>)

lemma consumes_weaken: "consumes k rb r \<Longrightarrow> j \<le> k \<Longrightarrow> consumes j rb r"
  by (fastforce simp: consumes_def)

lemma consumes_bind0:
  "consumes k rb r \<Longrightarrow>
   (\<And>v rb' ys. r = Ok (v, rb') \<Longrightarrow> rb_at rb' ys \<Longrightarrow> rb_len rb' + int k \<le> rb_len rb \<Longrightarrow> consumes 0 rb' (f (v, rb'))) \<Longrightarrow>
   consumes k rb (cres_bind r f)"
  by (drule consumes_bind [where j = 0]) auto

lemma consumes_error [simp]: "consumes k rb (invalid_stream_line rb' line)" "consumes k rb (LuaError m)"
  by (simp_all add: consumes_def invalid_stream_line_def)

lemma consumes_Ok: "rb_at rb ys \<Longrightarrow> consumes 0 rb (Ok (v, rb))"
  by (auto simp: consumes_def)

lemma read_bytes_consumes:
  assumes "rb_at rb ys"
  shows "consumes n rb (read_bytes line rb n)"
proof (cases "n \<le> length ys")
  case True
  then have "rb_at rb (take n ys @ drop n ys)" using assms by simp
  from read_bytes_at [OF this] rb_at_adv [OF this] True show ?thesis by (auto simp: consumes_def)
next
  case False
  with assms have "rb_read rb (int n) = (None, rb)" by (simp add: rb_read_def rb_at_def)
  then show ?thesis by (simp add: read_bytes_def)
qed

lemma get_integer_consumes: "rb_at rb ys \<Longrightarrow> consumes 0 rb (get_integer rb cookie)"
  unfolding get_integer_def
  by (auto intro!: consumes_bind [where j = 0, THEN consumes_weaken] read_bytes_consumes consumes_Ok)

lemma get_word_consumes: "rb_at rb ys \<Longrightarrow> consumes 0 rb (get_real rb)" "rb_at rb ys \<Longrightarrow> consumes 0 rb (get_pointer rb)"
  unfolding get_real_def get_pointer_def
  by (auto intro!: consumes_bind [where j = 0, THEN consumes_weaken] read_bytes_consumes consumes_Ok)

lemma get_buffer_consumes:
  assumes "rb_at rb ys"
  shows "consumes 0 rb (get_buffer rb len)"
proof (cases "0 \<le> len \<and> len \<le> rb_len rb")
  case True
  then have l: "nat len \<le> length ys" "int (length (take (nat len) ys)) = len" using assms by (auto simp: rb_at_def)
  then have r: "rb_at rb (take (nat len) ys @ drop (nat len) ys)" using assms by simp
  from rb_read_at [OF r] memory_at_front [OF r] rb_at_adv [OF r] l True show ?thesis
    by (auto simp: get_buffer_def consumes_def rb_adv_def)
next
  case False
  then show ?thesis by (auto simp: get_buffer_def rb_read_def)
qed

lemma rawset_defined: "rawset t k v \<noteq> Undefined"
  by (auto simp: rawset_def norm_key_def split: lua_value.splits option.splits)

lemma consumes_rawset:
  "(\<And>t'. rawset t k v = Ok t' \<Longrightarrow> consumes j rb (f t')) \<Longrightarrow> consumes j rb (cres_bind (rawset t k v) f)"
  using rawset_defined [of t k v] by (cases "rawset t k v") auto

lemma unpack_array_consumes:
  assumes one: "\<And>rb ys. rb_at rb ys \<Longrightarrow> rb_len rb \<le> int m \<Longrightarrow> consumes 1 rb (one rb)" and "rb_at rb ys" "rb_len rb \<le> int m"
  shows "consumes 0 rb (unpack_array one i n t rb)"
  using assms(2,3)
proof (induction n arbitrary: i t rb ys)
  case 0
  then show ?case by (simp add: unpack_array.simps consumes_Ok)
next
  case (Suc n)
  have "consumes 1 rb (unpack_array one i (Suc n) t rb)"
    unfolding unpack_array.simps [of one i "Suc n"]
    using Suc.prems by (auto intro!: consumes_bind0 consumes_rawset one Suc.IH simp del: One_nat_def)
  then show ?case by (rule consumes_weaken) simp
qed

lemma unpack_hash_consumes:
  assumes one: "\<And>rb ys. rb_at rb ys \<Longrightarrow> rb_len rb \<le> int m \<Longrightarrow> consumes 1 rb (one rb)" and "rb_at rb ys" "rb_len rb \<le> int m" "rb_len rb < int n"
  shows "consumes 0 rb (unpack_hash one n t rb)"
  using assms(2-)
proof (induction n arbitrary: t rb ys)
  case 0
  then show ?case by (simp add: rb_at_def)
next
  case (Suc n)
  have "consumes (1 + 0) rb (unpack_hash one (Suc n) t rb)"
    unfolding unpack_hash.simps
  proof (rule consumes_bind [OF one [OF Suc.prems(1,2)]])
    fix k rb1 ys1 assume r: "rb_at rb1 ys1" "rb_len rb1 + int 1 \<le> rb_len rb"
    have "consumes 1 rb1 (cres_bind (one rb1) (\<lambda>(v, rb). cres_bind (rawset t k v) (\<lambda>t. unpack_hash one n t rb)))"
      using Suc.prems r by (auto intro!: consumes_bind0 consumes_rawset one Suc.IH simp del: One_nat_def)
    then show "consumes 0 rb1 (case (k, rb1) of (k, rb) \<Rightarrow> if k = LNil then Ok (t, rb)
        else cres_bind (one rb) (\<lambda>(v, rb). cres_bind (rawset t k v) (\<lambda>t. unpack_hash one n t rb)))"
      using consumes_Ok [OF r(1)] by (auto elim: consumes_weaken)
  qed
  then show ?case by (rule consumes_weaken) simp
qed

lemma push_value_consumes:
  assumes one: "\<And>rb ys. rb_at rb ys \<Longrightarrow> rb_len rb < int n \<Longrightarrow> consumes 1 rb (one rb)" and r: "rb_at rb ys" "rb_len rb < int n"
  shows "consumes 0 rb (push_value one n rb type cookie)"
proof -
  note weak = consumes_bind [where j = 0, THEN consumes_weaken]
  have size: "consumes 0 rb (table_size rb s)" for s
    unfolding table_size_def Let_def using r(1)
    by (auto intro!: weak read_bytes_consumes get_integer_consumes consumes_Ok)
  have "consumes 0 rb (unpack_table one n rb s)" for s
  proof -
    have one': "consumes 1 rb (one rb)" if "rb_at rb ys" "rb_len rb \<le> int (n - 1)" for rb ys
      using one [OF that(1)] that r by (cases n) (auto simp: rb_at_def)
    note arr = unpack_array_consumes [where one = one and m = "n - 1", OF one']
    note hash = unpack_hash_consumes [where one = one and m = "n - 1", OF one']
    show ?thesis
      unfolding unpack_table_def
    proof (rule consumes_bind0 [OF size], clarsimp)
      fix m rb1 ys1 assume r1: "rb_at rb1 ys1" "rb_len rb1 \<le> rb_len rb"
      then have l: "rb_len rb1 \<le> int (n - 1)" using r by (auto simp: rb_at_def)
      show "consumes 0 rb1 (cres_bind (unpack_array one (Suc 0) (nat m) [] rb1)
          (\<lambda>(t, rb). cres_bind (unpack_hash one n t rb) (\<lambda>(t, rb). Ok (LTable (LTree t), rb))))"
      proof (rule consumes_bind0 [OF arr [OF _ _ r1(1) l]], assumption, assumption, clarsimp)
        fix t rb2 ys2 assume r2: "rb_at rb2 ys2" "rb_len rb2 \<le> rb_len rb1"
        then have "rb_len rb2 \<le> int (n - 1)" "rb_len rb2 < int n" using l r1 r by auto
        then show "consumes 0 rb2 (cres_bind (unpack_hash one n t rb2) (\<lambda>(t, rb). Ok (LTable (LTree t), rb)))"
          by (intro consumes_bind0 [OF hash [OF _ _ r2(1)]]) (auto intro: consumes_Ok)
      qed
    qed
  qed
  moreover have "consumes 0 rb (cres_bind (read_bytes line rb m) (\<lambda>(bs, rb). get_buffer rb (g bs)))" for line m g
    by (rule weak [OF read_bytes_consumes [OF r(1)]]) (auto intro: get_buffer_consumes)
  moreover have "consumes 0 rb (cres_bind (get_integer rb cookie) (\<lambda>(n, rb). Ok (g n, rb)))" for g :: "u64 \<Rightarrow> ltree"
    by (rule consumes_bind0 [OF get_integer_consumes [OF r(1)]]) (auto intro: consumes_Ok)
  moreover have "consumes 0 rb (cres_bind (get_real rb) (\<lambda>(n, rb). Ok (g n, rb)))"
      "consumes 0 rb (cres_bind (get_pointer rb) (\<lambda>(n, rb). Ok (g n, rb)))" for g :: "u64 \<Rightarrow> ltree"
    using get_word_consumes [OF r(1)] by (auto intro!: consumes_bind0 consumes_Ok)
  moreover have "consumes 0 rb (Ok (v, rb))" for v :: ltree by (rule consumes_Ok [OF r(1)])
  ultimately show ?thesis unfolding push_value_def seri_types using get_buffer_consumes [OF r(1)] by auto
qed

lemma unpack_one_consumes: "rb_at rb ys \<Longrightarrow> rb_len rb < int n \<Longrightarrow> consumes 1 rb (unpack_one n rb)"
proof (induction n arbitrary: rb ys)
  case 0
  then show ?case by (simp add: rb_at_def)
next
  case (Suc n)
  have "consumes (1 + 0) rb (unpack_one (Suc n) rb)"
    unfolding unpack_one.simps Let_def
  proof (rule consumes_bind [OF read_bytes_consumes [OF Suc.prems(1)]])
    fix bs rb1 ys1 assume r: "rb_at rb1 ys1" "rb_len rb1 + int 1 \<le> rb_len rb"
    show "consumes 0 rb1 (case (bs, rb1) of (bs, rb) \<Rightarrow>
        push_value (unpack_one n) n rb (uint ((get_le bs :: u8) AND 7)) (uint (drop_bit 3 (get_le bs :: u8))))"
      using push_value_consumes [OF Suc.IH r(1)] r Suc.prems by simp
  qed
  then show ?case by simp
qed

lemma unpack_all_defined: "rb_at rb ys \<Longrightarrow> rb_len rb < int n \<Longrightarrow> unpack_all n rb \<noteq> Undefined"
proof (induction n arbitrary: rb ys)
  case 0
  then show ?case by (simp add: rb_at_def)
next
  case (Suc n)
  show ?case
  proof (cases ys)
    case Nil
    with Suc.prems show ?thesis by (simp add: rb_read_def rb_at_def)
  next
    case (Cons y ys')
    with Suc.prems have r: "rb_at rb ([y] @ ys')" by simp
    let ?r = "push_value (unpack_one n) n (rb_adv rb 1) (uint ((get_le [y] :: u8) AND 7)) (uint (drop_bit 3 (get_le [y] :: u8)))"
    have "consumes 0 (rb_adv rb 1) ?r"
      using rb_at_adv [OF r] Suc.prems(2) by (intro push_value_consumes unpack_one_consumes) auto
    moreover have "unpack_all n rb' \<noteq> Undefined" if "?r = Ok (v, rb')" for v rb'
      using calculation that Suc.IH [of rb'] Suc.prems(2) by (auto simp: consumes_def)
    ultimately have "cres_bind ?r (\<lambda>(v, rb). cres_bind (unpack_all n rb) (\<lambda>vs. Ok (v # vs))) \<noteq> Undefined"
      by (cases ?r) (auto simp: consumes_def elim: cres_bind_undefined)
    with rb_read_at [OF r] memory_at_front [OF r] show ?thesis by (simp add: Let_def rb_adv_def)
  qed
qed

text \<open>
  C29: whatever bytes \<^verbatim>\<open>unpack\<close> is given, it ends, with values or a Lua error, and reads no byte outside
  the buffer: on every string, and on every block of memory at least as long as the length
  passed with it.
\<close>

theorem seri_unpack_safe:
  assumes "\<And>buffer n. arg = UPointer (Some buffer) n \<Longrightarrow> to_int32 n \<le> int (length buffer)"
  shows "luaseri_unpack arg \<noteq> Undefined"
proof -
  have main: "unpack_all (nat len + 1) (rball_init s len) \<noteq> Undefined" if "len \<le> int (length s)" "len \<le> INT_MAX" for s len
  proof (cases "0 \<le> len")
    case True
    with that have "rb_at (rball_init s len) (take (nat len) s)" by (auto simp: rb_at_def rball_init_def)
    then show ?thesis by (rule unpack_all_defined) (use True in \<open>simp add: rball_init_def\<close>)
  next
    case False
    then show ?thesis by (simp add: rball_init_def rb_read_def)
  qed
  have "to_int32 (int n) \<le> int n" for n
    unfolding to_int32_def using signed_take_bit_int_less_eq_self_iff [of 31 "int n"] by simp
  moreover have "to_int32 n \<le> INT_MAX" for n
    unfolding to_int32_def INT_MAX_def using signed_take_bit_int_less_exp [of 31 n] by simp
  ultimately show ?thesis
    using assms main by (auto simp: luaseri_unpack_def Let_def split: unpack_arg.split option.split simp del: unpack_all.simps)
qed

theorem seri_unpack_safe_witness:
  "luaseri_unpack (UPointer (Some [37, 0, 0, 0, 128, 1]) 6) \<noteq> Undefined"
  by (rule seri_unpack_safe) (auto simp: INT_MAX_def)

end
