(* ===== verification/Lua_Seri_Roundtrip.thy ===== *)
theory Lua_Seri_Roundtrip
  imports Lua_Seri
begin

text \<open>
  What \<^verbatim>\<open>pack\<close> writes, \<^verbatim>\<open>unpack\<close> reads back: the values themselves, and for a table a copy of it. The
  copy is defined on the heap, without the format.
\<close>

declare unpack_one.simps [simp del] unpack_all.simps [simp del]

section \<open>Copies\<close>

fun copy_array :: "(lval \<Rightarrow> ltree option) \<Rightarrow> nat \<Rightarrow> lval list \<Rightarrow> (ltree \<times> ltree) list \<Rightarrow> (ltree \<times> ltree) list option" where
  "copy_array cp i [] acc = Some acc"
| "copy_array cp i (v # vs) acc =
     (case cp v of None \<Rightarrow> None | Some w \<Rightarrow> copy_array cp (i + 1) vs (assign acc (LInt (of_nat i)) w))"

fun copy_pairs :: "(lval \<Rightarrow> ltree option) \<Rightarrow> (lval \<times> lval) list \<Rightarrow> (ltree \<times> ltree) list \<Rightarrow> (ltree \<times> ltree) list option" where
  "copy_pairs cp [] acc = Some acc"
| "copy_pairs cp ((k, v) # kvs) acc =
     (case (cp k, cp v) of (Some k', Some v') \<Rightarrow> copy_pairs cp kvs (assign acc (norm_key k') v') | _ \<Rightarrow> None)"

definition copy_table :: "(lval \<Rightarrow> ltree option) \<Rightarrow> lua_table \<Rightarrow> (ltree \<times> ltree) list option" where
  "copy_table cp t = (case copy_array cp 1 (table_array t) [] of None \<Rightarrow> None | Some acc \<Rightarrow> copy_pairs cp (table_rest t) acc)"

text \<open>The copy of a value that is found at some depth; deep tables and other types have none.\<close>

function snapshot :: "lua_heap \<Rightarrow> nat \<Rightarrow> lval \<Rightarrow> ltree option" where
  "snapshot h depth v =
     (if depth > MAX_DEPTH then None
      else case v of
        LNil \<Rightarrow> Some LNil
      | LInt x \<Rightarrow> Some (LInt x)
      | LNum n \<Rightarrow> Some (LNum n)
      | LBool x \<Rightarrow> Some (LBool x)
      | LStr str \<Rightarrow> Some (LStr str)
      | LPtr p \<Rightarrow> Some (LPtr p)
      | LTable t \<Rightarrow> map_option (\<lambda>kvs. LTable (LTree kvs)) (copy_table (snapshot h (depth + 1)) (h t))
      | LOther ty \<Rightarrow> None)"
  by pat_completeness auto

termination
  by (relation "measure (\<lambda>(h, depth, v). MAX_DEPTH + 1 - depth)") (auto simp: MAX_DEPTH_def)

declare snapshot.simps [simp del]

section \<open>Numbers in memory\<close>

lemma bit_get_le: "bit (get_le bs :: 'a::len word) i \<longleftrightarrow> i < LENGTH('a) \<and> i div 8 < length bs \<and> bit (bs ! (i div 8)) (i mod 8)"
proof (induction bs arbitrary: i)
  case Nil
  then show ?case by (simp add: get_le_def)
next
  case (Cons b bs)
  have g: "get_le (b # bs) = (ucast b OR push_bit 8 (get_le bs) :: 'a word)" by (simp add: get_le_def)
  show ?case
  proof (cases "i < 8")
    case True
    then show ?thesis by (auto simp: g bit_or_iff bit_push_bit_iff bit_unsigned_iff dest: bit_imp_le_length)
  next
    case False
    then have "i div 8 = Suc ((i - 8) div 8)" "i mod 8 = (i - 8) mod 8" by (auto simp: le_div_geq le_mod_geq)
    moreover have "\<not> bit b i" using False by (simp add: bit_byte_out)
    ultimately show ?thesis using False by (auto simp: g bit_or_iff bit_push_bit_iff bit_unsigned_iff Cons.IH)
  qed
qed

lemma get_put_le:
  assumes "8 * n = LENGTH('a)"
  shows "get_le (put_le n w) = (w :: 'a::len word)"
proof (rule bit_eqI)
  fix i assume "possible_bit TYPE('a word) i"
  then have i: "i < LENGTH('a)" by simp
  then have "i div 8 < n" using assms by auto
  moreover have "8 * (i div 8) + i mod 8 = i" by simp
  ultimately show "bit (get_le (put_le n w) :: 'a word) i \<longleftrightarrow> bit w i"
    using i by (auto simp: bit_get_le put_le_def bit_unsigned_iff bit_drop_bit_eq)
qed

lemma length_put_le [simp]: "length (put_le n w) = n"
  by (simp add: put_le_def)

lemma get_le_one [simp]: "get_le [b] = b"
  by (rule bit_eqI) (simp add: bit_get_le)

lemma scast_ucast_short: "scast (ucast v :: u32) = v \<Longrightarrow> scast (get_le (put_le 4 (ucast v :: u32)) :: u32) = (v :: u64)"
  by (simp add: get_put_le)

lemma combine_split:
  assumes "0 \<le> t" "t < 8" "0 \<le> v" "v < 32"
  shows "uint (COMBINE_TYPE t v AND 7) = t" "uint (drop_bit 3 (COMBINE_TYPE t v)) = v"
proof -
  have "t AND push_bit 3 v = 0"
  proof (rule bit_eqI)
    fix n
    have "t = take_bit 3 t" using assms by (simp add: take_bit_int_eq_self)
    then have "\<not> bit t n" if "3 \<le> n" using that by (metis bit_take_bit_iff leD)
    then show "bit (t AND push_bit 3 v) n \<longleftrightarrow> bit 0 n" by (auto simp: bit_and_iff bit_push_bit_iff)
  qed
  then have "t OR push_bit 3 v = t + 8 * v" by (simp add: disjunctive_add_eq_or [symmetric] push_bit_eq_mult)
  then have "COMBINE_TYPE t v = of_int (t + 8 * v)" by (simp only: COMBINE_TYPE_def)
  then have c: "uint (COMBINE_TYPE t v) = t + 8 * v"
    unfolding \<open>COMBINE_TYPE t v = of_int (t + 8 * v)\<close> unsigned_of_int
    using assms by (simp add: take_bit_int_eq_self)
  have "uint (COMBINE_TYPE t v AND 7) = (t + 8 * v) mod 8"
  proof -
    have "COMBINE_TYPE t v AND 7 = take_bit 3 (COMBINE_TYPE t v)" by (simp add: take_bit_eq_mask mask_eq_exp_minus_1)
    then have "uint (COMBINE_TYPE t v AND 7) = take_bit 3 (uint (COMBINE_TYPE t v))" by (simp only: unsigned_take_bit_eq)
    then show ?thesis by (simp add: c take_bit_eq_mod)
  qed
  then show "uint (COMBINE_TYPE t v AND 7) = t" using assms by simp
  have "uint (drop_bit 3 (COMBINE_TYPE t v)) = (t + 8 * v) div 8"
  proof -
    have "int (unat (drop_bit 3 (COMBINE_TYPE t v))) = int (unat (COMBINE_TYPE t v)) div 8"
      by (simp only: unat_drop_bit zdiv_int) simp
    then show ?thesis by (simp only: of_nat_unat c)
  qed
  then show "uint (drop_bit 3 (COMBINE_TYPE t v)) = v" using assms by simp
qed

section \<open>Readers\<close>

text \<open>A reader that turns some bytes into a value, whatever follows them.\<close>

definition reads :: "(read_block \<Rightarrow> ('a \<times> read_block) cres) \<Rightarrow> bytes \<Rightarrow> 'a \<Rightarrow> bool" where
  "reads one bs v \<longleftrightarrow> (\<forall>rb ys. rb_at rb (bs @ ys) \<longrightarrow> one rb = Ok (v, rb_adv rb (length bs)))"

lemma reads_Ok: "reads (\<lambda>rb. Ok (v, rb)) [] v"
  by (simp add: reads_def)

lemma reads_bind: "reads one bs v \<Longrightarrow> reads (\<lambda>rb. f (v, rb)) cs w \<Longrightarrow> reads (\<lambda>rb. cres_bind (one rb) f) (bs @ cs) w"
  unfolding reads_def using rb_at_adv [of _ bs] by (metis append_assoc cres_bind.simps(1) length_append rb_adv_simps(2))

lemma reads_map: "reads one bs v \<Longrightarrow> w = g v \<Longrightarrow> reads (\<lambda>rb. cres_bind (one rb) (\<lambda>(v, rb). Ok (g v, rb))) bs w"
  using reads_bind [of one bs v "\<lambda>(v, rb). Ok (g v, rb)" "[]"] reads_Ok [of "g v"] by simp

lemma reads_bytes: "length bs = n \<Longrightarrow> reads (\<lambda>rb. read_bytes line rb n) bs bs"
  unfolding reads_def using read_bytes_at by blast

lemma reads_word:
  "8 * n = LENGTH('a) \<Longrightarrow> v = g (w :: 'a::len word) \<Longrightarrow>
   reads (\<lambda>rb. cres_bind (read_bytes line rb n) (\<lambda>(bs, rb). Ok (g (get_le bs :: 'a word), rb))) (put_le n w) v"
  by (rule reads_map [OF reads_bytes]) (simp_all add: get_put_le)

lemma reads_buffer: "int (length s) = len \<Longrightarrow> reads (\<lambda>rb. get_buffer rb len) s (LStr s)"
  unfolding reads_def using rb_read_at memory_at_front by (fastforce simp: get_buffer_def rb_adv_def)

text \<open>Integers start with a byte that names their width.\<close>

lemma reads_integer:
  obtains b bs where "enc_integer v = b # bs" "uint (b AND 7) = 2" "uint (drop_bit 3 b) \<noteq> 8"
    "reads (\<lambda>rb. get_integer rb (uint (drop_bit 3 b))) bs v"
proof -
  have dword: "reads (\<lambda>rb. get_integer rb 4) (put_le 4 (ucast v :: u32)) v" if "scast (ucast v :: u32) = v"
    using reads_word [of 4 v scast "ucast v :: u32"] that by (simp add: get_integer_def seri_types)
  have small: "unat v < k" if "\<not> v <s 0" "v <s c" "sint c = int k" "k \<le> 65536" for c k
  proof -
    have "0 \<le> sint v" "sint v < int k" using that by (simp_all add: word_sless_alt)
    then have "uint v < int k" using that(4) by (simp add: uint_sint take_bit_int_eq_self)
    then have "int (unat v) < int k" by simp
    then show ?thesis by (simp only: of_nat_less_iff)
  qed
  consider (zero) "v = 0" | (qword) "v \<noteq> 0" "v \<noteq> scast (ucast v :: u32)" | (neg) "v \<noteq> 0" "v = scast (ucast v :: u32)" "v <s 0"
    | (byte) "v \<noteq> 0" "v = scast (ucast v :: u32)" "\<not> v <s 0" "v <s 0x100"
    | (word) "v \<noteq> 0" "v = scast (ucast v :: u32)" "\<not> v <s 0" "\<not> v <s 0x100" "v <s 0x10000"
    | (long) "v \<noteq> 0" "v = scast (ucast v :: u32)" "\<not> v <s 0" "\<not> v <s 0x100" "\<not> v <s 0x10000" by blast
  then show thesis
  proof cases
    case zero
    with reads_Ok show ?thesis by (intro that [of 2 "[]"]) (auto simp: enc_integer_def get_integer_def seri_types)
  next
    case qword
    with reads_word [of 8 v "\<lambda>x. x" v] show ?thesis
      by (intro that [of 50 "put_le 8 v"]) (auto simp: enc_integer_def get_integer_def seri_types)
  next
    case neg
    with dword show ?thesis by (intro that [of 34 "put_le 4 (ucast v :: u32)"]) (auto simp: enc_integer_def)
  next
    case byte
    have "unat v < 256" using small [of "0x100" 256] byte by simp
    then have "ucast (ucast v :: u8) = v" by (simp add: word_unat_eq_iff unsigned_ucast_eq unat_take_bit)
    moreover have "put_le 1 (ucast v :: u8) = [ucast v]" by (simp add: put_le_def)
    ultimately show ?thesis using byte reads_word [of 1 v ucast "ucast v :: u8"]
      by (intro that [of 10 "[ucast v]"]) (auto simp: enc_integer_def get_integer_def seri_types)
  next
    case word
    have "unat v < 65536" using small [of "0x10000" 65536] word by simp
    then have "ucast (ucast v :: u16) = v" by (simp add: word_unat_eq_iff unsigned_ucast_eq unat_take_bit)
    then show ?thesis using word reads_word [of 2 v ucast "ucast v :: u16"]
      by (intro that [of 18 "put_le 2 (ucast v :: u16)"]) (auto simp: enc_integer_def get_integer_def seri_types)
  next
    case long
    with dword show ?thesis by (intro that [of 34 "put_le 4 (ucast v :: u32)"]) (auto simp: enc_integer_def)
  qed
qed

lemma reads_one:
  assumes "reads (\<lambda>rb. push_value (unpack_one n) n rb (uint (b AND 7)) (uint (drop_bit 3 b))) bs v"
  shows "reads (unpack_one (Suc n)) (b # bs) v"
proof -
  have "reads (\<lambda>rb. cres_bind (read_bytes 528 rb 1) (\<lambda>(bs, rb).
      push_value (unpack_one n) n rb (uint ((get_le bs :: u8) AND 7)) (uint (drop_bit 3 (get_le bs :: u8))))) ([b] @ bs) v"
    by (rule reads_bind [OF reads_bytes]) (use assms in simp_all)
  then show ?thesis by (simp add: reads_def Let_def unpack_one.simps)
qed

lemma reads_scalars:
  "reads (unpack_one (Suc n)) [0] LNil"
  "reads (unpack_one (Suc n)) [if x then 9 else 1] (LBool x)"
  "reads (unpack_one (Suc n)) (66 # put_le 8 w) (LNum w)"
  "reads (unpack_one (Suc n)) (3 # put_le 8 w) (LPtr w)"
  "reads (unpack_one (Suc n)) (enc_integer w) (LInt w)"
proof -
  show "reads (unpack_one (Suc n)) [0] LNil"
    by (rule reads_one) (simp add: push_value_def seri_types reads_Ok)
  show "reads (unpack_one (Suc n)) [if x then 9 else 1] (LBool x)"
    by (rule reads_one) (simp add: push_value_def seri_types reads_def)
  have word: "reads get_real (put_le 8 w) w" "reads get_pointer (put_le 8 w) w"
    using reads_word [of 8 w "\<lambda>x. x" w] by (simp_all add: get_real_def [abs_def] get_pointer_def [abs_def])
  show "reads (unpack_one (Suc n)) (66 # put_le 8 w) (LNum w)"
    by (rule reads_one) (use reads_map [OF word(1) refl, of LNum] in \<open>simp add: push_value_def seri_types\<close>)
  show "reads (unpack_one (Suc n)) (3 # put_le 8 w) (LPtr w)"
    by (rule reads_one) (use reads_map [OF word(2) refl, of LPtr] in \<open>simp add: push_value_def seri_types\<close>)
  obtain b bs where "enc_integer w = b # bs" "uint (b AND 7) = 2" "uint (drop_bit 3 b) \<noteq> 8"
    "reads (\<lambda>rb. get_integer rb (uint (drop_bit 3 b))) bs w" by (rule reads_integer)
  then show "reads (unpack_one (Suc n)) (enc_integer w) (LInt w)"
    using reads_one [of n b bs "LInt w"] by (simp add: push_value_def seri_types reads_map)
qed

lemma reads_string:
  assumes "int (length s) \<le> INT_MAX"
  shows "reads (unpack_one (Suc n)) (enc_string s) (LStr s)"
proof -
  have long: "reads (\<lambda>rb. cres_bind (read_bytes line rb k) (\<lambda>(bs, rb). get_buffer rb (g bs))) (put_le k w @ s) (LStr s)"
    if "g (put_le k w) = int (length s)" for line k g and w :: "'a::len word"
    by (rule reads_bind [OF reads_bytes]) (use that reads_buffer in simp_all)
  consider (short) "length s < 32" | (medium) "32 \<le> length s" "length s < 0x10000" | (big) "0x10000 \<le> length s" by linarith
  then show ?thesis
  proof cases
    case short
    with combine_split [of 4 "int (length s)"] reads_buffer [of s] have
      "reads (\<lambda>rb. push_value (unpack_one n) n rb (uint (COMBINE_TYPE 4 (int (length s)) AND 7))
        (uint (drop_bit 3 (COMBINE_TYPE 4 (int (length s)))))) s (LStr s)" by (simp add: push_value_def seri_types)
    from reads_one [OF this] short show ?thesis by (simp add: enc_string_def)
  next
    case medium
    then have "uint (get_le (put_le 2 (of_nat (length s) :: u16)) :: u16) = int (length s)"
      by (simp add: get_put_le unsigned_of_nat take_bit_nat_eq_self)
    from long [of "\<lambda>bs. uint (get_le bs :: u16)", OF this] medium show ?thesis
      using reads_one [of n 21] by (simp add: enc_string_def push_value_def seri_types)
  next
    case big
    have "uint (get_le (put_le 4 (of_nat (length s) :: u32)) :: u32) = int (length s)"
      using assms by (simp add: get_put_le unsigned_of_nat take_bit_nat_eq_self INT_MAX_def)
    then have "to_int32 (uint (get_le (put_le 4 (of_nat (length s) :: u32)) :: u32)) = int (length s)" using assms by simp
    from long [of "\<lambda>bs. to_int32 (uint (get_le bs :: u32))", OF this] big show ?thesis
      using reads_one [of n 37] by (simp add: enc_string_def push_value_def seri_types)
  qed
qed

section \<open>Tables\<close>

lemma cat_SomeE: "cat a b = Some x \<Longrightarrow> (\<And>y z. a = Some y \<Longrightarrow> b = Some z \<Longrightarrow> x = y @ z \<Longrightarrow> P) \<Longrightarrow> P"
  by (cases a; cases b) auto

lemma enc_pair_simp: "enc_pair enc (k, v) = cat (enc k) (enc v)"
  by (simp add: enc_pair_def)

lemma rawset_int: "rawset t (LInt i) v = Ok (assign t (LInt i) v)"
  by (simp add: rawset_def norm_key_def)

lemma rawset_key: "k \<noteq> LNil \<Longrightarrow> (\<And>b. k = LNum b \<Longrightarrow> \<not> is_nan b) \<Longrightarrow> rawset t k v = Ok (assign t (norm_key k) v)"
  by (auto simp: rawset_def norm_key_def split: lua_value.splits option.splits)

text \<open>What a reader of single values guarantees about an encoder and a copy.\<close>

definition value_reader :: "(read_block \<Rightarrow> (ltree \<times> read_block) cres) \<Rightarrow> nat \<Rightarrow> (lval \<Rightarrow> bytes option) \<Rightarrow> (lval \<Rightarrow> ltree option) \<Rightarrow> bool" where
  "value_reader one n enc cp \<longleftrightarrow> (\<forall>v bs. enc v = Some bs \<and> str_ok v \<and> length bs \<le> n \<longrightarrow>
     bs \<noteq> [] \<and> (\<exists>w. cp v = Some w \<and> reads one bs w \<and> (w = LNil \<longleftrightarrow> v = LNil) \<and> (\<forall>b. w = LNum b \<longrightarrow> v = LNum b)))"

lemma value_readerE:
  assumes "value_reader one n enc cp" "enc v = Some bs" "str_ok v" "length bs \<le> n"
  obtains w where "bs \<noteq> []" "cp v = Some w" "reads one bs w" "w = LNil \<longleftrightarrow> v = LNil" "\<And>b. w = LNum b \<Longrightarrow> v = LNum b"
  using assms unfolding value_reader_def by blast

lemma reads_array:
  assumes "value_reader one n enc cp" "enc_all enc vs = Some bs" "\<forall>v \<in> set vs. str_ok v" "length bs \<le> n"
  shows "\<exists>acc'. copy_array cp i vs acc = Some acc' \<and> reads (unpack_array one i (length vs) acc) bs acc'"
  using assms(2-)
proof (induction vs arbitrary: i acc bs)
  case Nil
  then show ?case using reads_Ok [of acc] by (simp add: unpack_array.simps)
next
  case (Cons v vs)
  from Cons.prems(1) obtain b1 b2 where b: "enc v = Some b1" "enc_all enc vs = Some b2" "bs = b1 @ b2"
    by (auto elim: cat_SomeE)
  obtain w where w: "b1 \<noteq> []" "cp v = Some w" "reads one b1 w"
    by (rule value_readerE [OF assms(1) b(1)]) (use b(3) Cons.prems(2,3) in auto)
  obtain acc' where IH: "copy_array cp (i + 1) vs (assign acc (LInt (of_nat i)) w) = Some acc'"
    "reads (unpack_array one (i + 1) (length vs) (assign acc (LInt (of_nat i)) w)) b2 acc'"
    using Cons.IH [OF b(2), of "i + 1" "assign acc (LInt (of_nat i)) w"] Cons.prems b(3) by auto
  have "reads (\<lambda>rb. cres_bind (one rb) (\<lambda>(v, rb). cres_bind (rawset acc (LInt (of_nat i)) v)
      (\<lambda>t. unpack_array one (i + 1) (length vs) t rb))) (b1 @ b2) acc'"
    by (rule reads_bind [OF w(3)]) (use IH(2) in \<open>simp add: rawset_int\<close>)
  then have "reads (unpack_array one i (length (v # vs)) acc) bs acc'"
    by (simp add: b(3) unpack_array.simps [of one i "Suc (length vs)" acc] reads_def)
  with IH(1) w(2) show ?case by auto
qed

lemma reads_pairs:
  assumes "value_reader one n enc cp" "reads one [0] LNil" "enc_all (enc_pair enc) kvs = Some bs"
    "\<forall>(k, v) \<in> set kvs. k \<noteq> LNil \<and> (\<forall>b. k = LNum b \<longrightarrow> \<not> is_nan b) \<and> str_ok k \<and> str_ok v" "length bs \<le> n" "length bs < rounds"
  shows "\<exists>acc'. copy_pairs cp kvs acc = Some acc' \<and> reads (unpack_hash one rounds acc) (bs @ [0]) acc'"
  using assms(3-)
proof (induction kvs arbitrary: acc bs rounds)
  case Nil
  then obtain r where "rounds = Suc r" by (cases rounds) auto
  moreover have "reads (\<lambda>rb. cres_bind (one rb) (\<lambda>(k, rb). if k = LNil then Ok (acc, rb)
       else cres_bind (one rb) (\<lambda>(v, rb). cres_bind (rawset acc k v) (\<lambda>t. unpack_hash one r t rb)))) ([0] @ []) acc"
    by (rule reads_bind [OF assms(2)]) (simp add: reads_Ok)
  ultimately show ?case using Nil by (simp add: reads_def)
next
  case (Cons kv kvs)
  obtain k v where kv: "kv = (k, v)" by (cases kv)
  from Cons.prems(1) obtain b1 b2 b3 where b: "enc k = Some b1" "enc v = Some b2" "enc_all (enc_pair enc) kvs = Some b3"
      "bs = b1 @ b2 @ b3"
    by (auto simp: kv enc_pair_simp elim!: cat_SomeE)
  have ok: "k \<noteq> LNil" "\<And>b. k = LNum b \<Longrightarrow> \<not> is_nan b" "str_ok k" "str_ok v" using Cons.prems(2) by (auto simp: kv)
  obtain k' where k': "b1 \<noteq> []" "cp k = Some k'" "reads one b1 k'" "k' = LNil \<longleftrightarrow> k = LNil" "\<And>b. k' = LNum b \<Longrightarrow> k = LNum b"
    by (rule value_readerE [OF assms(1) b(1) ok(3)]) (use b(4) Cons.prems(3) in auto)
  obtain v' where v': "b2 \<noteq> []" "cp v = Some v'" "reads one b2 v'"
    by (rule value_readerE [OF assms(1) b(2) ok(4)]) (use b(4) Cons.prems(3) in auto)
  obtain r where r: "rounds = Suc r" using Cons.prems(4) by (cases rounds) auto
  then have "length b3 < r" using Cons.prems(4) b(4) k'(1) by (cases b1) auto
  then obtain acc' where IH: "copy_pairs cp kvs (assign acc (norm_key k') v') = Some acc'"
    "reads (unpack_hash one r (assign acc (norm_key k') v')) (b3 @ [0]) acc'"
    using Cons.IH [OF b(3), of r "assign acc (norm_key k') v'"] Cons.prems b(4) by auto
  have "rawset acc k' v' = Ok (assign acc (norm_key k') v')" using ok(1,2) k'(4,5) by (intro rawset_key) auto
  then have "reads (\<lambda>rb. cres_bind (one rb) (\<lambda>(v, rb). cres_bind (rawset acc k' v) (\<lambda>t. unpack_hash one r t rb))) (b2 @ b3 @ [0]) acc'"
    by (intro reads_bind [OF v'(3)]) (use IH(2) in simp)
  then have "reads (\<lambda>rb. cres_bind (one rb) (\<lambda>(k, rb). if k = LNil then Ok (acc, rb)
       else cres_bind (one rb) (\<lambda>(v, rb). cres_bind (rawset acc k v) (\<lambda>t. unpack_hash one r t rb)))) (b1 @ b2 @ b3 @ [0]) acc'"
    using k'(4) ok(1) by (intro reads_bind [OF k'(3)]) simp
  with IH(1) k'(2) v'(2) show ?case by (auto simp: kv b(4) r reads_def)
qed

lemma reads_table_size:
  assumes "int n \<le> INT_MAX"
  obtains b bs where "enc_size n = b # bs" "uint (b AND 7) = 6" "reads (\<lambda>rb. table_size rb (uint (drop_bit 3 b))) bs (int n)"
proof (cases "n < 31")
  case True
  with combine_split [of 6 "int n"] reads_Ok [of "int n"] show ?thesis
    by (intro that [of "COMBINE_TYPE 6 (int n)" "[]"]) (auto simp: enc_size_def table_size_def MAX_COOKIE_def)
next
  case False
  obtain b bs where b: "enc_integer (of_nat n) = b # bs" "uint (b AND 7) = 2" "uint (drop_bit 3 b) \<noteq> 8"
    "reads (\<lambda>rb. get_integer rb (uint (drop_bit 3 b))) bs (of_nat n)" by (rule reads_integer)
  have "sint (of_nat n :: u64) = int n"
    using assms by (simp add: INT_MAX_def signed_of_nat signed_take_bit_int_eq_self)
  then have n: "to_int32 (sint (of_nat n :: u64)) = int n" using assms by simp
  have "reads (\<lambda>rb. cres_bind (get_integer rb (uint (drop_bit 3 b))) (\<lambda>(n, rb). Ok (to_int32 (sint n), rb))) bs (int n)"
    by (rule reads_map [OF b(4)]) (simp add: n)
  then have "reads (\<lambda>rb. cres_bind (read_bytes 440 rb 1) (\<lambda>(bs, rb).
      let type = get_le bs :: u8; cookie = uint (drop_bit 3 type) in
      if uint (type AND 7) \<noteq> TYPE_NUMBER \<or> cookie = TYPE_NUMBER_REAL then invalid_stream_line rb 445
      else cres_bind (get_integer rb cookie) (\<lambda>(n, rb). Ok (to_int32 (sint n), rb)))) ([b] @ bs) (int n)"
    by (intro reads_bind [OF reads_bytes]) (simp_all add: Let_def b(2,3) seri_types)
  with False b(1) show ?thesis
    by (intro that [of 254 "b # bs"]) (auto simp: enc_size_def table_size_def MAX_COOKIE_def)
qed

lemma table_array_length: "int (length (table_array t)) \<le> INT_MAX" if "lt_ok t"
  using that by (auto simp: table_array_def array_values_def lt_ok_def INT_MAX_def)

lemma table_array_ok:
  assumes "lt_ok t" "v \<in> set (table_array t)"
  shows "str_ok v"
proof -
  obtain k where "v = rawget (lt_entries t) k"
    using assms(2) by (auto simp: table_array_def array_values_def split: if_splits)
  then show ?thesis
    using assms(1) map_of_SomeD [of "lt_entries t" k]
    by (cases "map_of (lt_entries t) k") (auto simp: lt_ok_def rawget_def str_ok_def)
qed

lemma table_rest_ok:
  assumes "lt_ok t" "(k, v) \<in> set (table_rest t)"
  shows "k \<noteq> LNil \<and> (\<forall>b. k = LNum b \<longrightarrow> \<not> is_nan b) \<and> str_ok k \<and> str_ok v"
proof (cases "lt_pairs t")
  case None
  with assms show ?thesis
    by (auto simp: table_rest_def lt_ok_def key_ok_def scalar_key_def is_table_def split: lua_value.splits)
next
  case (Some kvs)
  with assms show ?thesis by (auto simp: table_rest_def lt_ok_def dest: set_takeWhileD)
qed

lemma reads_table:
  assumes "value_reader (unpack_one n) (n - 1) enc cp" "lt_ok t" "enc_table enc t = Some bs" "length bs \<le> n"
  shows "\<exists>kvs. copy_table cp t = Some kvs \<and> reads (unpack_one (Suc n)) bs (LTable (LTree kvs))"
proof -
  obtain b ss where size: "enc_size (length (table_array t)) = b # ss" "uint (b AND 7) = 6"
    "reads (\<lambda>rb. table_size rb (uint (drop_bit 3 b))) ss (int (length (table_array t)))"
    by (rule reads_table_size [OF table_array_length [OF assms(2)]])
  obtain as rs where e: "enc_all enc (table_array t) = Some as" "enc_all (enc_pair enc) (table_rest t) = Some rs"
      "bs = b # ss @ as @ rs @ [0]"
    using assms(3) by (auto simp: enc_table_def size(1) elim!: cat_SomeE)
  then have len: "length as \<le> n - 1" "length rs \<le> n - 1" "length rs < n" using assms(4) by auto
  obtain acc where a: "copy_array cp 1 (table_array t) [] = Some acc"
      "reads (unpack_array (unpack_one n) 1 (length (table_array t)) []) as acc"
    using reads_array [OF assms(1) e(1), of 1 "[]"] len table_array_ok [OF assms(2)] by blast
  have nil: "reads (unpack_one n) [0] LNil" using assms(4) e(3) reads_scalars(1) by (cases n) auto
  have keys: "\<forall>(k, v) \<in> set (table_rest t). k \<noteq> LNil \<and> (\<forall>b. k = LNum b \<longrightarrow> \<not> is_nan b) \<and> str_ok k \<and> str_ok v"
    using table_rest_ok [OF assms(2)] by auto
  obtain kvs where r: "copy_pairs cp (table_rest t) acc = Some kvs" "reads (unpack_hash (unpack_one n) n acc) (rs @ [0]) kvs"
    using reads_pairs [OF assms(1) nil e(2) keys, of n acc] len by blast
  have "reads (\<lambda>rb. cres_bind (unpack_hash (unpack_one n) n acc rb) (\<lambda>(t, rb). Ok (LTable (LTree t), rb))) (rs @ [0]) (LTable (LTree kvs))"
    by (rule reads_map [OF r(2)]) simp
  then have "reads (\<lambda>rb. cres_bind (unpack_array (unpack_one n) 1 (length (table_array t)) [] rb) (\<lambda>(t, rb).
      cres_bind (unpack_hash (unpack_one n) n t rb) (\<lambda>(t, rb). Ok (LTable (LTree t), rb)))) (as @ rs @ [0]) (LTable (LTree kvs))"
    by (intro reads_bind [OF a(2)]) (simp only: prod.case)
  then have "reads (\<lambda>rb. unpack_table (unpack_one n) n rb (uint (drop_bit 3 b))) (ss @ as @ rs @ [0]) (LTable (LTree kvs))"
    unfolding unpack_table_def by (intro reads_bind [OF size(3)]) (simp only: prod.case nat_int)
  then have "reads (unpack_one (Suc n)) bs (LTable (LTree kvs))"
    unfolding e(3) by (intro reads_one) (simp add: push_value_def seri_types size(2))
  with a(1) r(1) show ?thesis by (simp add: copy_table_def)
qed

lemma enc_integer_Nil: "enc_integer x \<noteq> []"
  by (simp add: enc_integer_def)

lemma enc_one_Nil: "enc_one h d v = Some bs \<Longrightarrow> bs \<noteq> []"
  by (auto simp: enc_one.simps [of h d v] enc_integer_Nil enc_string_def enc_table_def enc_size_def
      split: if_splits lua_value.splits elim!: cat_SomeE)

lemma snapshot_shape:
  "snapshot h d v = Some w \<Longrightarrow> (w = LNil \<longleftrightarrow> v = LNil) \<and> (\<forall>b. w = LNum b \<longrightarrow> v = LNum b)"
  by (auto simp: snapshot.simps [of h d v] split: if_splits lua_value.splits)

lemma unpack_enc_one:
  assumes "\<And>t. lt_ok (h t)" "enc_one h d v = Some bs" "str_ok v" "length bs \<le> n"
  shows "\<exists>w. snapshot h d v = Some w \<and> reads (unpack_one (Suc n)) bs w"
  using assms
proof (induction h d v arbitrary: bs n rule: enc_one.induct)
  case (1 h d v)
  have d: "\<not> d > MAX_DEPTH" using 1(3) by (auto simp: enc_one.simps [of h d v])
  show ?case
  proof (cases v)
    case (LTable t)
    have e: "enc_table (enc_one h (d + 1)) (h t) = Some bs" using 1(3) d by (simp add: enc_one.simps [of h d "LTable t"] LTable)
    then obtain m where n: "n = Suc m" using 1(5) by (cases n) (auto simp: enc_table_def elim!: cat_SomeE)
    have "\<exists>w. snapshot h (d + 1) v = Some w \<and> reads (unpack_one n) bs w \<and> (w = LNil \<longleftrightarrow> v = LNil) \<and> (\<forall>b. w = LNum b \<longrightarrow> v = LNum b)"
      if "enc_one h (d + 1) v = Some bs" "str_ok v" "length bs \<le> m" for v bs
      using 1(1) [OF d LTable 1(2) that] snapshot_shape [of h "d + 1" v] unfolding n by blast
    then have "value_reader (unpack_one n) (n - 1) (enc_one h (d + 1)) (snapshot h (d + 1))"
      unfolding value_reader_def using enc_one_Nil unfolding n diff_Suc_1 by blast
    from reads_table [OF this 1(2) e 1(5)] d show ?thesis
      by (auto simp: snapshot.simps [of h d "LTable t"] LTable)
  next
    case (LStr s)
    then show ?thesis using 1(3,4) d reads_string [of s n]
      by (auto simp: enc_one.simps [of h d "LStr s"] snapshot.simps [of h d "LStr s"] str_ok_def)
  qed (use 1(3) d reads_scalars [of n] in \<open>auto simp: enc_one.simps [of h d] snapshot.simps [of h d]\<close>)
qed

section \<open>Lookups in a copy\<close>

lemma rawget_simps [simp]: "rawget [] k = LNil" "rawget ((a, b) # kvs) k = (if a = k then b else rawget kvs k)"
  by (simp_all add: rawget_def)

lemma rawget_absent: "k \<notin> fst ` set kvs \<Longrightarrow> rawget kvs k = LNil"
  by (induction kvs) auto

text \<open>The keys that are not tables occur once.\<close>

definition plain_keys :: "('t lua_value \<times> 't lua_value) list \<Rightarrow> 't lua_value list" where
  "plain_keys kvs = filter (\<lambda>k. \<not> is_table k) (map fst kvs)"

lemma plain_keys_simps [simp]:
  "plain_keys [] = []" "plain_keys ((a, b) # kvs) = (if is_table a then plain_keys kvs else a # plain_keys kvs)"
  by (simp_all add: plain_keys_def)

lemma assign_keys: "set (plain_keys (assign kvs k v)) \<subseteq> insert k (set (plain_keys kvs))"
  by (induction kvs k v rule: assign.induct) auto

lemma assign_distinct: "distinct (plain_keys kvs) \<Longrightarrow> distinct (plain_keys (assign kvs k v))"
proof (induction kvs k v rule: assign.induct)
  case (2 a b kvs k v)
  with assign_keys [of kvs k v] show ?case by auto
qed simp

lemma rawget_assign:
  assumes "distinct (plain_keys kvs)" "\<not> is_table k'"
  shows "rawget (assign kvs k v) k' = (if k = k' then v else rawget kvs k')"
  using assms
proof (induction kvs k v rule: assign.induct)
  case (2 a b kvs k v)
  have "rawget kvs a = LNil" if "\<not> is_table a"
    using 2(2) that by (intro rawget_absent) (auto simp: plain_keys_def)
  with 2 show ?case by (auto split: if_splits)
qed simp

section \<open>The round trip\<close>

lemma unpack_all_one:
  assumes "rb_at rb (y # ys)"
  shows "unpack_all (Suc n) rb = cres_bind (unpack_one (Suc n) rb) (\<lambda>(v, rb). cres_bind (unpack_all n rb) (\<lambda>vs. Ok (v # vs)))"
proof -
  have r: "rb_at rb ([y] @ ys)" using assms by simp
  have "rb_read rb 1 = (Some (rb_ptr rb), rb_adv rb 1)" "memory_at (rb_buffer rb) (rb_ptr rb) 1 = Ok [y]"
    using rb_read_at [OF r] memory_at_front [OF r] by simp_all
  moreover have "rb_buffer (rb_adv rb 1) = rb_buffer rb" by (simp add: rb_adv_def)
  ultimately show ?thesis using read_bytes_at [OF r, of 1 528] by (simp add: Let_def cres_bind_assoc unpack_all.simps unpack_one.simps)
qed

lemma unpack_enc_all:
  assumes "\<And>t. lt_ok (h t)" "enc_all (enc_one h 0) vs = Some bs" "\<forall>v \<in> set vs. str_ok v" "rb_at rb bs" "length bs < n"
  shows "\<exists>ws. unpack_all n rb = Ok ws \<and> list_all2 (\<lambda>v w. snapshot h 0 v = Some w) vs ws"
  using assms(2-)
proof (induction vs arbitrary: rb bs n)
  case Nil
  then show ?case by (cases n) (auto simp: rb_read_def rb_at_def unpack_all.simps)
next
  case (Cons v vs)
  obtain b1 b2 where b: "enc_one h 0 v = Some b1" "enc_all (enc_one h 0) vs = Some b2" "bs = b1 @ b2"
    using Cons.prems(1) by (auto elim: cat_SomeE)
  obtain m where n: "n = Suc m" using Cons.prems(4) by (cases n) auto
  have "b1 \<noteq> []" by (rule enc_one_Nil [OF b(1)])
  then have len: "length b1 \<le> m" "length b2 < m" using Cons.prems(4) b(3) n by (cases b1; auto)+
  obtain w where w: "snapshot h 0 v = Some w" "reads (unpack_one (Suc m)) b1 w"
    using unpack_enc_one [OF assms(1) b(1) _ len(1)] Cons.prems(2) by auto
  have r: "rb_at rb (b1 @ b2)" using Cons.prems(3) b(3) by simp
  then have "unpack_one (Suc m) rb = Ok (w, rb_adv rb (length b1))" using w(2) by (auto simp: reads_def)
  moreover obtain ws where ws: "unpack_all m (rb_adv rb (length b1)) = Ok ws" "list_all2 (\<lambda>v w. snapshot h 0 v = Some w) vs ws"
    using Cons.IH [OF b(2) _ rb_at_adv [OF r] len(2)] Cons.prems(2) by auto
  moreover obtain y ys where "b1 @ b2 = y # ys" using \<open>b1 \<noteq> []\<close> by (cases b1) auto
  ultimately have "unpack_all n rb = Ok (w # ws)" using unpack_all_one [of rb y ys m] r unfolding n by simp
  with w(1) ws(2) show ?case by auto
qed

section \<open>A copied table\<close>

text \<open>A key that is no table, as a key of a copy.\<close>

definition as_key :: "lval \<Rightarrow> ltree" where
  "as_key k = map_lua_value (\<lambda>_. LTree []) k"

lemma as_key_inj: "scalar_key k \<Longrightarrow> as_key k = as_key k' \<Longrightarrow> k = k'"
  by (cases k; cases k') (auto simp: as_key_def scalar_key_def)

lemma as_key_scalar: "scalar_key k \<Longrightarrow> \<not> is_table (as_key k) \<and> norm_key (as_key k) = as_key k"
  by (cases k) (auto simp: as_key_def scalar_key_def is_table_def norm_key_def)

lemma as_key_int [simp]: "as_key (LInt x) = LInt x"
  by (simp add: as_key_def)

lemma copy_array_get:
  assumes "copy_array cp i vs acc = Some acc'" "distinct (plain_keys acc)" "i + length vs < 2 ^ 64"
  shows "distinct (plain_keys acc')"
    and "\<not> is_table k \<Longrightarrow> (\<And>j. j < length vs \<Longrightarrow> k \<noteq> LInt (of_nat (i + j))) \<Longrightarrow> rawget acc' k = rawget acc k"
    and "j < length vs \<Longrightarrow> cp (vs ! j) = Some (rawget acc' (LInt (of_nat (i + j))))"
proof -
  have "distinct (plain_keys acc') \<and>
    (\<forall>k. \<not> is_table k \<longrightarrow> (\<forall>j < length vs. k \<noteq> LInt (of_nat (i + j))) \<longrightarrow> rawget acc' k = rawget acc k) \<and>
    (\<forall>j < length vs. cp (vs ! j) = Some (rawget acc' (LInt (of_nat (i + j)))))"
    using assms
  proof (induction vs arbitrary: i acc)
    case (Cons v vs)
    obtain w where w: "cp v = Some w" "copy_array cp (i + 1) vs (assign acc (LInt (of_nat i)) w) = Some acc'"
      using Cons.prems(1) by (auto split: option.splits)
    let ?acc = "assign acc (LInt (of_nat i)) w"
    have IH: "distinct (plain_keys acc')"
      "\<And>k. \<not> is_table k \<Longrightarrow> (\<And>j. j < length vs \<Longrightarrow> k \<noteq> LInt (of_nat (i + 1 + j))) \<Longrightarrow> rawget acc' k = rawget ?acc k"
      "\<And>j. j < length vs \<Longrightarrow> cp (vs ! j) = Some (rawget acc' (LInt (of_nat (i + 1 + j))))"
      using Cons.IH [OF w(2) assign_distinct [OF Cons.prems(2)]] Cons.prems(3) by auto
    have new: "rawget ?acc k = (if LInt (of_nat i) = k then w else rawget acc k)" if "\<not> is_table k" for k
      by (rule rawget_assign [OF Cons.prems(2) that])
    have ne: "(of_nat i :: u64) \<noteq> of_nat (i + 1 + j)" if "j < length vs" for j
    proof
      assume "(of_nat i :: u64) = of_nat (i + 1 + j)"
      then have "unat (of_nat i :: u64) = unat (of_nat (i + 1 + j) :: u64)" by (simp only:)
      then show False using Cons.prems(3) that by (simp only: unsigned_of_nat) (simp add: take_bit_nat_eq_self)
    qed
    have "rawget acc' (LInt (of_nat i)) = w"
      using IH(2) [of "LInt (of_nat i)"] new ne by (simp add: is_table_def)
    with w(1) IH(3) have "cp ((v # vs) ! j) = Some (rawget acc' (LInt (of_nat (i + j))))" if "j < length (v # vs)" for j
      using that by (cases j) (auto simp: ac_simps)
    moreover have "rawget acc' k = rawget acc k" if "\<not> is_table k" "\<forall>j < length (v # vs). k \<noteq> LInt (of_nat (i + j))" for k
    proof -
      have "k \<noteq> LInt (of_nat (i + 1 + j))" if "j < length vs" for j
        using \<open>\<forall>j < length (v # vs). k \<noteq> LInt (of_nat (i + j))\<close> that by (auto dest!: spec [of _ "Suc j"])
      moreover have "k \<noteq> LInt (of_nat i)" using that(2) by (auto dest!: spec [of _ 0])
      ultimately show ?thesis using IH(2) [OF that(1)] new [OF that(1)] by auto
    qed
    ultimately show ?case using IH(1) by auto
  qed simp
  then show "distinct (plain_keys acc')"
    and "\<not> is_table k \<Longrightarrow> (\<And>j. j < length vs \<Longrightarrow> k \<noteq> LInt (of_nat (i + j))) \<Longrightarrow> rawget acc' k = rawget acc k"
    and "j < length vs \<Longrightarrow> cp (vs ! j) = Some (rawget acc' (LInt (of_nat (i + j))))" by auto
qed

lemma copy_pairs_get:
  assumes "\<And>k k'. cp k = Some k' \<Longrightarrow> (scalar_key k \<longrightarrow> k' = as_key k) \<and> (is_table k \<longrightarrow> is_table k')"
    and "copy_pairs cp kvs acc = Some acc'" "distinct (plain_keys acc)" "distinct (map fst kvs)" "\<forall>(k, v) \<in> set kvs. key_ok k"
    and "scalar_key k"
  shows "case map_of kvs k of None \<Rightarrow> rawget acc' (as_key k) = rawget acc (as_key k) | Some v \<Rightarrow> cp v = Some (rawget acc' (as_key k))"
  using assms(2-5)
proof (induction kvs arbitrary: acc)
  case (Cons kv kvs)
  obtain a b where kv: "kv = (a, b)" by (cases kv)
  obtain a' b' where ab: "cp a = Some a'" "cp b = Some b'" "copy_pairs cp kvs (assign acc (norm_key a') b') = Some acc'"
    using Cons.prems(1) by (auto simp: kv split: option.splits)
  have k: "\<not> is_table (as_key k)" using as_key_scalar assms(6) by auto
  have eq: "norm_key a' = as_key k \<longleftrightarrow> a = k"
  proof (cases "scalar_key a")
    case True
    then show ?thesis using assms(1) [OF ab(1)] as_key_scalar as_key_inj by metis
  next
    case False
    then have "is_table a" "is_table a'" using Cons.prems(4) assms(1) [OF ab(1)] by (auto simp: kv key_ok_def)
    then have "is_table (norm_key a')" by (auto simp: is_table_def norm_key_def split: lua_value.splits)
    with k False assms(6) show ?thesis by auto
  qed
  have g: "rawget (assign acc (norm_key a') b') (as_key k) = (if a = k then b' else rawget acc (as_key k))"
    using rawget_assign [OF Cons.prems(2) k] eq by auto
  have IH: "case map_of kvs k of None \<Rightarrow> rawget acc' (as_key k) = rawget (assign acc (norm_key a') b') (as_key k)
      | Some v \<Rightarrow> cp v = Some (rawget acc' (as_key k))"
    using Cons.IH [OF ab(3) assign_distinct [OF Cons.prems(2)]] Cons.prems by auto
  have "map_of kvs a = None" using Cons.prems(3) by (auto simp: kv map_of_eq_None_iff)
  with IH g ab(2) show ?case by (auto simp: kv split: option.splits)
qed simp

lemma map_of_filter_key: "P k \<Longrightarrow> map_of (filter (\<lambda>kv. P (fst kv)) kvs) k = map_of kvs k"
  by (induction kvs) auto

lemma snapshot_key:
  "snapshot h d k = Some k' \<Longrightarrow> (scalar_key k \<longrightarrow> k' = as_key k) \<and> (is_table k \<longrightarrow> is_table k')"
  by (auto simp: snapshot.simps [of h d k] as_key_def scalar_key_def is_table_def split: if_splits lua_value.splits)

text \<open>In the copy of a table a key has a copy of the value it has in the table, or none if it has none.\<close>

lemma copy_table_get:
  assumes "copy_table (snapshot h d) t = Some kvs" "lt_ok t" "lt_pairs t = None" "scalar_key k"
  defines "v \<equiv> rawget (lt_entries t) k"
  shows "if v = LNil then rawget kvs (as_key k) = LNil else snapshot h d v = Some (rawget kvs (as_key k))"
proof -
  let ?n = "lt_len t" and ?vs = "table_array t"
  obtain acc where acc: "copy_array (snapshot h d) 1 ?vs [] = Some acc" "copy_pairs (snapshot h d) (table_rest t) acc = Some kvs"
    using assms(1) by (auto simp: copy_table_def split: option.splits)
  have n: "int ?n \<le> INT_MAX" "length ?vs = ?n" using assms(2,3) by (auto simp: lt_ok_def table_array_def array_values_def)
  then have "1 + length ?vs < 2 ^ 64" by (simp add: INT_MAX_def)
  note arr = copy_array_get [OF acc(1) _ this, simplified]
  have "distinct (map fst (table_rest t))" "\<forall>(k, v) \<in> set (table_rest t). key_ok k"
    using assms(2,3) by (auto simp: lt_ok_def table_rest_def distinct_map_filter)
  note rest = copy_pairs_get [OF snapshot_key [of h d] acc(2) arr(1) this assms(4)]
  have nil: "w = LNil \<longleftrightarrow> u = LNil" if "snapshot h d u = Some w" for u w using snapshot_shape [OF that] by simp
  show ?thesis
  proof (cases "in_array (int ?n) k")
    case True
    then obtain x where x: "k = LInt x" "0 < sint x" "sint x \<le> int ?n" by (auto simp: in_array_def split: lua_value.splits)
    define j where "j = nat (sint x) - 1"
    have j: "j < ?n" "(of_nat (1 + j) :: u64) = x"
      using x(2,3) by (auto simp: j_def of_nat_diff of_nat_nat)
    have "?vs ! j = v" using j by (simp add: table_array_def assms(3) array_values_def v_def x(1) nth_upt del: upt_Suc)
    with arr(3) [of j] j n(2) have "snapshot h d v = Some (rawget acc (as_key k))" by (simp add: x(1))
    moreover have "map_of (table_rest t) k = None" using True assms(3) by (auto simp: table_rest_def map_of_eq_None_iff)
    ultimately show ?thesis using rest nil by auto
  next
    case False
    have "rawget acc (as_key k) = LNil"
    proof (subst arr(2))
      show "\<not> is_table (as_key k)" using as_key_scalar assms(4) by blast
      show "as_key k \<noteq> LInt (1 + of_nat j)" if "j < length ?vs" for j
      proof
        assume "as_key k = LInt (1 + of_nat j)"
        then have "k = LInt (of_nat (1 + j))" using as_key_inj [OF assms(4), of "LInt (of_nat (1 + j))"] by simp
        moreover have "sint (of_nat (1 + j) :: u64) = int (1 + j)"
          using that n by (simp add: INT_MAX_def signed_of_nat signed_take_bit_int_eq_self del: of_nat_Suc of_nat_add)
        ultimately show False using False that n(2) by (simp add: in_array_def)
      qed
    qed simp
    moreover have "map_of (table_rest t) k = map_of (lt_entries t) k"
      using map_of_filter_key [of "\<lambda>k. \<not> in_array (int ?n) k" k] False assms(3) by (simp add: table_rest_def)
    ultimately show ?thesis using rest nil
      by (cases "map_of (lt_entries t) k") (auto simp: v_def rawget_def [of "lt_entries t"])
  qed
qed

lemma unpack_pack:
  assumes "\<And>t. lt_ok (h t)" "\<forall>v \<in> set vs. str_ok v" "luaseri_pack h vs = Ok bs"
  shows "\<exists>ws. luaseri_unpack (UString bs) = Ok ws \<and> list_all2 (\<lambda>v w. snapshot h 0 v = Some w) vs ws"
proof -
  have e: "enc_all (enc_one h 0) vs = Some bs" and l: "int (length bs) \<le> INT_MAX"
    using luaseri_pack_format [of h vs, OF assms(1,2)] assms(3) by simp_all
  show ?thesis
  proof (cases bs)
    case Nil
    with e have "vs = []" using enc_one_Nil by (cases vs) (auto elim!: cat_SomeE)
    then show ?thesis using Nil by (simp add: luaseri_unpack_def to_int32_def)
  next
    case (Cons b bs')
    have "rb_at (rball_init bs (int (length bs))) bs" using l by (simp add: rb_at_def rball_init_def)
    from unpack_enc_all [OF assms(1) e assms(2) this, of "length bs + 1"] Cons l show ?thesis
      by (simp add: luaseri_unpack_def Let_def nat_add_distrib)
  qed
qed

section \<open>Properties\<close>

text \<open>
  C27: whatever \<^verbatim>\<open>pack\<close> accepts, \<^verbatim>\<open>unpack\<close> gives back: nil, booleans, integers, floats, strings and
  pointers as they were, and a copy for every table.
\<close>

theorem seri_round_trip:
  assumes "\<And>t. lt_ok (h t)" "\<forall>v \<in> set vs. str_ok v" "luaseri_pack h vs = Ok bs"
  shows "\<exists>ws. luaseri_unpack (UString bs) = Ok ws \<and> list_all2 (\<lambda>v w. snapshot h 0 v = Some w) vs ws"
  using unpack_pack [of h, OF assms] .

definition demo_heap :: lua_heap where
  "demo_heap t =
     (if t = 1 then \<lparr>lt_len = 2, lt_entries = [(LInt 1, LInt 300), (LInt 2, LStr [104, 105]), (LStr [120], LTable 2)], lt_pairs = None\<rparr>
      else \<lparr>lt_len = 0, lt_entries = [(LBool True, LNum 0x3FF8000000000000)], lt_pairs = None\<rparr>)"

lemma demo_heap_ok: "lt_ok (demo_heap t)"
  by (auto simp: demo_heap_def lt_ok_def key_ok_def scalar_key_def str_ok_def INT_MAX_def)

lemma demo_heap_pack:
  "luaseri_pack demo_heap [LTable 1, LInt (- 5)] =
     Ok [22, 18, 44, 1, 20, 104, 105, 12, 120, 6, 9, 66, 0, 0, 0, 0, 0, 0, 248, 63, 0, 0, 34, 251, 255, 255, 255]"
  by code_simp

theorem seri_round_trip_witness:
  "\<exists>ws. luaseri_unpack (UString [22, 18, 44, 1, 20, 104, 105, 12, 120, 6, 9, 66, 0, 0, 0, 0, 0, 0, 248, 63, 0, 0, 34, 251, 255, 255, 255])
      = Ok ws \<and> list_all2 (\<lambda>v w. snapshot demo_heap 0 v = Some w) [LTable 1, LInt (- 5)] ws"
  by (rule seri_round_trip [OF demo_heap_ok _ demo_heap_pack]) (simp add: str_ok_def)

text \<open>
  C28: the table that \<^verbatim>\<open>unpack\<close> makes of a packed table has, under every key that is not itself a table, a
  copy of the value that the packed table has under it, and no value where that has none. This
  holds whichever border \<^verbatim>\<open>lua_rawlen\<close> returned, with the nils below it.
\<close>

theorem seri_table_lookup:
  assumes "\<And>t. lt_ok (h t)" "lt_pairs (h t) = None" "luaseri_pack h [LTable t] = Ok bs"
  shows "\<exists>kvs. luaseri_unpack (UString bs) = Ok [LTable (LTree kvs)] \<and>
    (\<forall>k. scalar_key k \<longrightarrow> (let v = rawget (lt_entries (h t)) k in
      if v = LNil then rawget kvs (as_key k) = LNil else snapshot h 1 v = Some (rawget kvs (as_key k))))"
proof -
  have "\<forall>v \<in> set [LTable t]. str_ok v" by (simp add: str_ok_def)
  from unpack_pack [of h, OF assms(1) this assms(3)] obtain w where w:
    "luaseri_unpack (UString bs) = Ok [w]" "snapshot h 0 (LTable t) = Some w" by (auto simp: list_all2_Cons1)
  then obtain kvs where "copy_table (snapshot h 1) (h t) = Some kvs" "w = LTable (LTree kvs)"
    by (auto simp: snapshot.simps [of h 0] split: if_splits)
  with w(1) copy_table_get [OF _ assms(1,2), of h 1 kvs] show ?thesis unfolding Let_def by blast
qed

theorem seri_table_lookup_witness:
  "\<exists>kvs. luaseri_unpack (UString [22, 18, 44, 1, 20, 104, 105, 12, 120, 6, 9, 66, 0, 0, 0, 0, 0, 0, 248, 63, 0, 0])
      = Ok [LTable (LTree kvs)] \<and> rawget kvs (LInt 2) = LStr [104, 105] \<and> rawget kvs (LInt 3) = LNil"
proof -
  have "luaseri_pack demo_heap [LTable 1] =
     Ok [22, 18, 44, 1, 20, 104, 105, 12, 120, 6, 9, 66, 0, 0, 0, 0, 0, 0, 248, 63, 0, 0]" by code_simp
  moreover have "lt_pairs (demo_heap 1) = None" by (simp add: demo_heap_def)
  ultimately obtain kvs where k: "luaseri_unpack (UString [22, 18, 44, 1, 20, 104, 105, 12, 120, 6, 9, 66, 0, 0, 0, 0, 0, 0, 248, 63, 0, 0])
      = Ok [LTable (LTree kvs)]"
    "\<And>k. scalar_key k \<Longrightarrow> (let v = rawget (lt_entries (demo_heap 1)) k in
      if v = LNil then rawget kvs (as_key k) = LNil else snapshot demo_heap 1 v = Some (rawget kvs (as_key k)))"
    using seri_table_lookup [of demo_heap 1, OF demo_heap_ok] by blast
  from k(2) [of "LInt 2"] k(2) [of "LInt 3"] have "rawget kvs (LInt 2) = LStr [104, 105]" "rawget kvs (LInt 3) = LNil"
    by (simp_all add: scalar_key_def demo_heap_def snapshot.simps MAX_DEPTH_def)
  with k(1) show ?thesis by blast
qed

text \<open>
  The length of a string is converted to an \<^verbatim>\<open>int\<close>, so a string of 4 gigabytes and some bytes is
  packed as if it were its first bytes.
\<close>

lemma seri_string_truncated:
  assumes "length s = 2 ^ 32 + n" "n < 2 ^ 31"
  shows "luaseri_pack h [LStr s] = luaseri_pack h [LStr (take n s)]"
proof -
  have "to_int32 (int (length s)) = int n"
  proof -
    have "take_bit 32 (int (2 ^ 32 + n)) = take_bit 32 (int n)" by (simp add: take_bit_eq_mod)
    then have "signed_take_bit 31 (int (2 ^ 32 + n)) = signed_take_bit 31 (int n)"
      by (simp add: signed_take_bit_eq_iff_take_bit_eq)
    then show ?thesis using assms unfolding to_int32_def by (simp add: signed_take_bit_int_eq_self)
  qed
  moreover have "to_int32 (int (length (take n s))) = int n" using assms by (simp add: INT_MAX_def)
  moreover have "wb_string wb s (int n) = wb_string wb (take n s) (int n)" for wb
  proof -
    have "take (nat (int n)) (take n s) = take (nat (int n)) s" by simp
    then show ?thesis by (simp only: wb_string_def)
  qed
  ultimately show ?thesis by (simp add: luaseri_pack_def pack_from_def pack_one.simps [of h 0])
qed

end
