(* ===== verification/Crypt_Text.thy ===== *)
theory Crypt_Text
  imports Lua_Result
begin

text \<open>
  The text codecs of \<^verbatim>\<open>lualib-src/lua-crypt.c\<close>: hexadecimal (\<^verbatim>\<open>ltohex\<close>,
  \<^verbatim>\<open>lfromhex\<close>), base64 (\<^verbatim>\<open>lb64encode\<close>, \<^verbatim>\<open>lb64decode\<close>), the exclusive-or with a
  repeated key (\<^verbatim>\<open>lxor_str\<close>), and the 64-bit string hash (\<^verbatim>\<open>Hash\<close>, \<^verbatim>\<open>lhashkey\<close>).
\<close>

section \<open>Hexadecimal\<close>

definition hex_table :: bytes where
  "hex_table = map of_char ''0123456789abcdef''"

fun ltohex :: "bytes \<Rightarrow> bytes" where
  "ltohex [] = []"
| "ltohex (b # bs) =
     hex_table ! unat (drop_bit 4 b) # hex_table ! unat (b AND 0xf) # ltohex bs"

text \<open>The macro \<^verbatim>\<open>HEX\<close>: everything that is not a decimal digit is taken relative to \<^verbatim>\<open>'a'\<close>.\<close>

definition HEX :: "u8 \<Rightarrow> u8" where
  "HEX c = (if 48 \<le> c \<and> c \<le> 57 then c - 48 else c - 97 + 10)"

fun fromhex_loop :: "bytes \<Rightarrow> bytes \<Rightarrow> bytes cres" where
  "fromhex_loop out (a # b # text) =
     (let hi = HEX a; low = HEX b in
      if hi > 16 \<or> low > 16 then LuaError ''Invalid hex text''
      else fromhex_loop (out @ [push_bit 4 hi OR low]) text)"
| "fromhex_loop out text = Ok out"

definition lfromhex :: "bytes \<Rightarrow> bytes cres" where
  "lfromhex text =
     (if odd (length text) then LuaError ''Invalid hex text size'' else fromhex_loop [] text)"

section \<open>Base64\<close>

definition b64_encoding :: bytes where
  "b64_encoding = map of_char ''ABCDEFGHIJKLMNOPQRSTUVWXYZabcdefghijklmnopqrstuvwxyz0123456789+/''"

definition b64_char :: "u32 \<Rightarrow> u8" where
  "b64_char v = b64_encoding ! unat v"

fun lb64encode :: "bytes \<Rightarrow> bytes" where
  "lb64encode (a # b # c # text) =
     (let v = push_bit 16 (ucast a) OR push_bit 8 (ucast b) OR ucast c in
      b64_char (drop_bit 18 v) # b64_char (drop_bit 12 v AND 0x3f) #
      b64_char (drop_bit 6 v AND 0x3f) # b64_char (v AND 0x3f) # lb64encode text)"
| "lb64encode [a] =
     (let v = ucast a in [b64_char (drop_bit 2 v), b64_char (push_bit 4 (v AND 3)), 61, 61])"
| "lb64encode [a, b] =
     (let v = push_bit 8 (ucast a) OR ucast b in
      [b64_char (drop_bit 10 v), b64_char (drop_bit 4 v AND 0x3f), b64_char (push_bit 2 (v AND 0xf)), 61])"
| "lb64encode [] = []"

definition b64_decoding :: "int list" where
  "b64_decoding =
     [62,-1,-1,-1,63,52,53,54,55,56,57,58,59,60,61,-1,-1,-1,-2,-1,-1,-1,0,1,2,3,4,5,6,7,8,9,10,11,12,13,14,15,16,
      17,18,19,20,21,22,23,24,25,-1,-1,-1,-1,-1,-1,26,27,28,29,30,31,32,33,34,35,36,37,38,39,40,41,42,43,44,45,46,
      47,48,49,50,51]"

definition b64index :: "u8 \<Rightarrow> int" where
  "b64index c =
     (if c < 43 then - 1
      else let c = c - 43 in
           if unat c \<ge> length b64_decoding then - 1 else b64_decoding ! unat c)"

text \<open>
  The inner loop of \<^verbatim>\<open>lb64decode\<close>: the next four characters of the alphabet (with
  \<^verbatim>\<open>=\<close> as -2), other characters skipped; an error when the text ends before.
\<close>

fun b64_group :: "nat \<Rightarrow> bytes \<Rightarrow> (int list \<times> bytes) option" where
  "b64_group 0 text = Some ([], text)"
| "b64_group (Suc n) [] = None"
| "b64_group (Suc n) (t # text) =
     (let c = b64index t in
      if c = - 1 then b64_group (Suc n) text
      else map_option (\<lambda>(cs, rest). (c # cs, rest)) (b64_group n text))"

lemma b64_group_length:
  "b64_group n s = Some (cs, rest) \<Longrightarrow> length rest + n \<le> length s \<and> length cs = n"
  by (induction n s arbitrary: cs rule: b64_group.induct)
    (fastforce simp: Let_def split: if_splits)+

text \<open>The bytes of one group of four; \<^term>\<open>None\<close> is \<^verbatim>\<open>Invalid base64 text\<close>.\<close>

definition b64_word :: "nat \<Rightarrow> int \<Rightarrow> u32" where
  "b64_word k c = push_bit k (of_int c)"

definition b64_bytes :: "int list \<Rightarrow> bytes option" where
  "b64_bytes c =
     (let padding = length (filter (\<lambda>x. x = - 2) c) in
      if padding = 0
      then let v = b64_word 18 (c ! 0) OR b64_word 12 (c ! 1) OR b64_word 6 (c ! 2) OR b64_word 0 (c ! 3)
           in Some [ucast (drop_bit 16 v), ucast (drop_bit 8 v), ucast v]
      else if padding = 1
      then if c ! 3 \<noteq> - 2 \<or> (c ! 2) AND 3 \<noteq> 0 then None
           else let v = b64_word 10 (c ! 0) OR b64_word 4 (c ! 1) OR of_int (drop_bit 2 (c ! 2))
                in Some [ucast (drop_bit 8 v), ucast v]
      else if padding = 2
      then if c ! 3 \<noteq> - 2 \<or> c ! 2 \<noteq> - 2 \<or> (c ! 1) AND 0xf \<noteq> 0 then None
           else let v = b64_word 2 (c ! 0) OR of_int (drop_bit 4 (c ! 1)) in Some [ucast v]
      else None)"

function b64decode_loop :: "bytes \<Rightarrow> bytes \<Rightarrow> bytes cres" where
  "b64decode_loop output text =
     (if text = [] then Ok output
      else case b64_group 4 text of
        None \<Rightarrow> LuaError ''Invalid base64 text''
      | Some (c, rest) \<Rightarrow>
          (case b64_bytes c of
             None \<Rightarrow> LuaError ''Invalid base64 text''
           | Some bs \<Rightarrow> b64decode_loop (output @ bs) rest))"
  by pat_completeness auto
termination
  by (relation "measure (\<lambda>(output, text). length text)") (auto dest: b64_group_length)

declare b64decode_loop.simps [simp del]

definition lb64decode :: "bytes \<Rightarrow> bytes cres" where
  "lb64decode text = b64decode_loop [] text"

section \<open>Exclusive or, and the hash\<close>

definition lxor_str :: "bytes \<Rightarrow> bytes \<Rightarrow> bytes cres" where
  "lxor_str s1 s2 =
     (if length s2 = 0 then LuaError ''Can't xor empty string''
      else Ok (map (\<lambda>i. s1 ! i XOR s2 ! (i mod length s2)) [0..<length s1]))"

fun Hash_loop :: "u32 \<Rightarrow> u32 \<Rightarrow> bytes \<Rightarrow> u32 \<times> u32" where
  "Hash_loop djb js [] = (djb, js)"
| "Hash_loop djb js (c # cs) =
     Hash_loop (djb + (push_bit 5 djb + ucast c)) (js XOR (push_bit 5 js + ucast c + drop_bit 2 js)) cs"

definition Hash :: "bytes \<Rightarrow> bytes" where
  "Hash str = (let (djb, js) = Hash_loop 5381 1315423911 str in put_le32 djb @ put_le32 js)"

definition lhashkey :: "bytes \<Rightarrow> bytes" where
  "lhashkey key = Hash key"

section \<open>What is encoded is decoded\<close>

lemma hex_table_HEX: "v < 16 \<Longrightarrow> HEX (hex_table ! unat v) = v"
proof -
  have "\<forall>i \<in> set [0..<16]. HEX (hex_table ! i) = of_nat i" by code_simp
  moreover assume "v < 16"
  then have "unat v < 16" by (simp add: word_less_nat_alt)
  ultimately show ?thesis by simp
qed

lemma nibbles: "drop_bit 4 b < 16" "b AND 0xf < 16" "push_bit 4 (drop_bit 4 b) OR (b AND 0xf) = (b :: u8)"
proof -
  have m: "b AND 0xf = take_bit 4 b" by (simp add: take_bit_eq_mask mask_eq_exp_minus_1)
  have "unat b < 2 ^ LENGTH(8)" by (rule unsigned_less)
  then have "unat (drop_bit 4 b) < 16" using unat_drop_bit [of 4 b] by (simp add: less_mult_imp_div_less)
  then show "drop_bit 4 b < 16" by (simp add: word_less_nat_alt)
  have "unat (take_bit 4 b) < 16" unfolding unat_take_bit by simp
  then show "b AND 0xf < 16" by (simp add: m word_less_nat_alt)
  show "push_bit 4 (drop_bit 4 b) OR (b AND 0xf) = b"
    unfolding m by (rule bit_eqI) (auto simp: bit_simps)
qed

lemma fromhex_tohex: "fromhex_loop out (ltohex bs) = Ok (out @ bs)"
proof (induction bs arbitrary: out)
  case (Cons b bs)
  have "\<not> drop_bit 4 b > 16" "\<not> b AND 0xf > 16" using nibbles [of b] by auto
  with Cons nibbles [of b] show ?case by (simp add: hex_table_HEX Let_def)
qed simp

lemma length_ltohex: "length (ltohex bs) = 2 * length bs"
  by (induction bs) auto

lemma b64index_char: "i < 64 \<Longrightarrow> b64index (b64_encoding ! i) = int i"
proof -
  have "\<forall>i \<in> set [0..<64]. b64index (b64_encoding ! i) = int i" by code_simp
  then show "i < 64 \<Longrightarrow> ?thesis" by simp
qed

lemma b64index_v: "unat v < 64 \<Longrightarrow> b64index (b64_char v) = int (unat v)"
  by (simp add: b64_char_def b64index_char)

lemma b64_group_take:
  assumes "\<And>t. t \<in> set ts \<Longrightarrow> b64index t \<noteq> - 1"
  shows "b64_group (length ts) (ts @ rest) = Some (map b64index ts, rest)"
  using assms by (induction ts) (auto simp: Let_def)

lemma b64_word_unat: "b64_word k (int (unat v)) = push_bit k v"
  by (simp add: b64_word_def)

text \<open>The sextets of a 24-bit number are below 64 and make it up again.\<close>

lemma and_0x3f: "v AND 0x3f = take_bit 6 (v :: u32)"
  by (simp add: take_bit_eq_mask mask_eq_exp_minus_1)

lemma unat_take_bit_6: "unat (take_bit 6 (v :: u32)) < 64"
  unfolding unat_take_bit by simp

lemma unat_drop_small: "unat v < 2 ^ (k + 6) \<Longrightarrow> unat (drop_bit k (v :: u32)) < 64"
  by (simp add: unat_drop_bit power_add less_mult_imp_div_less)

lemma sextets_join:
  "push_bit 18 (drop_bit 18 v) OR push_bit 12 (take_bit 6 (drop_bit 12 v)) OR push_bit 6 (take_bit 6 (drop_bit 6 v))
     OR take_bit 6 v = (v :: u32)"
proof (rule bit_eqI)
  fix i :: nat
  consider "i < 6" | "6 \<le> i" "i < 12" | "12 \<le> i" "i < 18" | "18 \<le> i" by linarith
  then show "bit (push_bit 18 (drop_bit 18 v) OR push_bit 12 (take_bit 6 (drop_bit 12 v))
      OR push_bit 6 (take_bit 6 (drop_bit 6 v)) OR take_bit 6 v) i \<longleftrightarrow> bit v i"
    by cases (auto simp: bit_simps dest: bit_imp_le_length)
qed

lemma bytes24:
  defines "V \<equiv> \<lambda>a b c. push_bit 16 (ucast (a :: u8)) OR push_bit 8 (ucast (b :: u8)) OR ucast (c :: u8) :: u32"
  shows "ucast (drop_bit 16 (V a b c)) = a" "ucast (drop_bit 8 (V a b c)) = b" "ucast (V a b c) = c"
    "unat (V a b c) < 2 ^ 24"
proof -
  show "ucast (drop_bit 16 (V a b c)) = a" unfolding V_def by (rule bit_eqI) (auto simp: bit_simps bit_byte_out)
  show "ucast (drop_bit 8 (V a b c)) = b" unfolding V_def by (rule bit_eqI) (auto simp: bit_simps bit_byte_out)
  show "ucast (V a b c) = c" unfolding V_def by (rule bit_eqI) (auto simp: bit_simps bit_byte_out)
  have "take_bit 24 (V a b c) = V a b c" unfolding V_def by (rule bit_eqI) (auto simp: bit_simps bit_byte_out)
  then have "unat (V a b c) = unat (V a b c) mod 2 ^ 24" using unat_take_bit [of 24 "V a b c"] by simp
  then show "unat (V a b c) < 2 ^ 24" by (metis mod_less_divisor zero_less_numeral zero_less_power)
qed

lemma b64_char_ok: "unat v < 64 \<Longrightarrow> b64index (b64_char v) \<noteq> - 1"
  using b64index_v [of v] by linarith

lemma b64_pad: "b64index 61 = - 2"
  by code_simp

lemma of_int_unat: "of_int (int (unat w)) = (w :: u32)"
  by simp

lemma of_int_drop_bit: "of_int (drop_bit k (int (unat w))) = (drop_bit k w :: u32)"
proof -
  have "drop_bit k (int (unat w)) = int (unat (drop_bit k w))"
    unfolding unat_drop_bit by (simp only: drop_bit_eq_div zdiv_int of_nat_power of_nat_numeral)
  then show ?thesis by (simp only: of_int_unat)
qed

lemma and_int_mask:
  "int (unat (w :: u32)) AND 15 = int (unat (take_bit 4 w))"
  "int (unat w) AND 3 = int (unat (take_bit 2 w))"
proof -
  have "int n AND 15 = int (n mod 2 ^ 4)" "int n AND 3 = int (n mod 2 ^ 2)" for n
    using take_bit_eq_mask [of 4 "int n"] take_bit_eq_mask [of 2 "int n"]
    by (simp_all add: mask_eq_exp_minus_1 take_bit_eq_mod zmod_int)
  then show "int (unat w) AND 15 = int (unat (take_bit 4 w))" "int (unat w) AND 3 = int (unat (take_bit 2 w))"
    by (simp_all only: unat_take_bit)
qed

lemma b64decode_step:
  assumes "b64index t1 = c1" "b64index t2 = c2" "b64index t3 = c3" "b64index t4 = c4"
    and "c1 \<noteq> - 1" "c2 \<noteq> - 1" "c3 \<noteq> - 1" "c4 \<noteq> - 1"
    and "b64_bytes [c1, c2, c3, c4] = Some bs"
  shows "b64decode_loop out (t1 # t2 # t3 # t4 # rest) = b64decode_loop (out @ bs) rest"
proof -
  have "b64_group (length [t1, t2, t3, t4]) ([t1, t2, t3, t4] @ rest) = Some (map b64index [t1, t2, t3, t4], rest)"
    by (rule b64_group_take) (use assms in auto)
  moreover have "length [t1, t2, t3, t4] = 4" by simp
  ultimately have "b64_group 4 (t1 # t2 # t3 # t4 # rest) = Some ([c1, c2, c3, c4], rest)"
    using assms(1-4) by (simp only: append.simps list.map)
  then show ?thesis
    using assms(9) by (subst b64decode_loop.simps) simp
qed

text \<open>The three shapes of a group, over the numbers the characters stand for.\<close>

lemma b64_bytes_nat:
  "b64_bytes [int a, int b, int c, int d] =
     (let v = b64_word 18 (int a) OR b64_word 12 (int b) OR b64_word 6 (int c) OR b64_word 0 (int d)
      in Some [ucast (drop_bit 16 v), ucast (drop_bit 8 v), ucast v])"
  "int c AND 3 = 0 \<Longrightarrow> b64_bytes [int a, int b, int c, - 2] =
     (let v = b64_word 10 (int a) OR b64_word 4 (int b) OR of_int (drop_bit 2 (int c))
      in Some [ucast (drop_bit 8 v), ucast v])"
  "int b AND 0xf = 0 \<Longrightarrow> b64_bytes [int a, int b, - 2, - 2] =
     (let v = b64_word 2 (int a) OR of_int (drop_bit 4 (int b)) in Some [ucast v])"
proof -
  have n: "int k \<noteq> - 2" for k by linarith
  show "b64_bytes [int a, int b, int c, int d] =
     (let v = b64_word 18 (int a) OR b64_word 12 (int b) OR b64_word 6 (int c) OR b64_word 0 (int d)
      in Some [ucast (drop_bit 16 v), ucast (drop_bit 8 v), ucast v])"
    by (simp add: b64_bytes_def n)
  show "int c AND 3 = 0 \<Longrightarrow> b64_bytes [int a, int b, int c, - 2] =
     (let v = b64_word 10 (int a) OR b64_word 4 (int b) OR of_int (drop_bit 2 (int c))
      in Some [ucast (drop_bit 8 v), ucast v])"
    by (simp add: b64_bytes_def n)
  show "int b AND 0xf = 0 \<Longrightarrow> b64_bytes [int a, int b, - 2, - 2] =
     (let v = b64_word 2 (int a) OR of_int (drop_bit 4 (int b)) in Some [ucast v])"
    by (simp add: b64_bytes_def n)
qed

lemma int_not_minus_1: "int k \<noteq> - 1" "(- 2 :: int) \<noteq> - 1"
  by linarith+

lemma b64decode_full:
  assumes "unat v < 2 ^ 24"
  shows "b64decode_loop out (b64_char (drop_bit 18 v) # b64_char (take_bit 6 (drop_bit 12 v)) #
      b64_char (take_bit 6 (drop_bit 6 v)) # b64_char (take_bit 6 v) # rest) =
    b64decode_loop (out @ [ucast (drop_bit 16 v), ucast (drop_bit 8 v), ucast v]) rest"
proof -
  have "unat (drop_bit 18 v) < 64" using assms unat_drop_small [of v 18] by simp
  then show ?thesis
    by (intro b64decode_step [OF b64index_v b64index_v b64index_v b64index_v])
      (simp_all only: unat_take_bit_6 int_not_minus_1 not_False_eq_True b64_bytes_nat b64_word_unat
        push_bit_0_id id_apply sextets_join Let_def)
qed

lemma b64decode_2:
  assumes "unat v < 2 ^ 16"
  shows "b64decode_loop out [b64_char (drop_bit 10 v), b64_char (take_bit 6 (drop_bit 4 v)),
      b64_char (push_bit 2 (take_bit 4 v)), 61] = Ok (out @ [ucast (drop_bit 8 v), ucast v])"
proof -
  have u: "unat (drop_bit 10 v) < 64" using assms unat_drop_small [of v 10] by simp
  have "push_bit 2 (take_bit 4 v) = take_bit 6 (push_bit 2 v)" by (rule bit_eqI) (auto simp: bit_simps)
  then have u2: "unat (push_bit 2 (take_bit 4 v)) < 64" using unat_take_bit_6 by metis
  have j: "push_bit 10 (drop_bit 10 v) OR push_bit 4 (take_bit 6 (drop_bit 4 v)) OR
      drop_bit 2 (push_bit 2 (take_bit 4 v)) = v"
  proof (rule bit_eqI)
    fix i :: nat
    consider "i < 4" | "4 \<le> i" "i < 10" | "10 \<le> i" by linarith
    then show "bit (push_bit 10 (drop_bit 10 v) OR push_bit 4 (take_bit 6 (drop_bit 4 v)) OR
        drop_bit 2 (push_bit 2 (take_bit 4 v))) i \<longleftrightarrow> bit v i"
      by cases (auto simp: bit_simps dest: bit_imp_le_length)
  qed
  have z: "take_bit 2 (push_bit 2 (take_bit 4 v)) = 0" by (rule bit_eqI) (auto simp: bit_simps)
  have "int (unat (push_bit 2 (take_bit 4 v))) AND 3 = 0" unfolding and_int_mask z by simp
  then have "b64decode_loop out [b64_char (drop_bit 10 v), b64_char (take_bit 6 (drop_bit 4 v)),
      b64_char (push_bit 2 (take_bit 4 v)), 61] = b64decode_loop (out @ [ucast (drop_bit 8 v), ucast v]) []"
    using u u2 by (intro b64decode_step [OF b64index_v b64index_v b64index_v b64_pad])
      (simp_all only: unat_take_bit_6 int_not_minus_1 not_False_eq_True b64_bytes_nat b64_word_unat
        of_int_drop_bit j Let_def)
  then show ?thesis by (simp only: b64decode_loop.simps [of _ "[]"] refl if_True)
qed

lemma b64decode_1:
  assumes "unat v < 2 ^ 8"
  shows "b64decode_loop out [b64_char (drop_bit 2 v), b64_char (push_bit 4 (take_bit 2 v)), 61, 61] =
    Ok (out @ [ucast v])"
proof -
  have u: "unat (drop_bit 2 v) < 64" using assms unat_drop_small [of v 2] by simp
  have "push_bit 4 (take_bit 2 v) = take_bit 6 (push_bit 4 v)" by (rule bit_eqI) (auto simp: bit_simps)
  then have u2: "unat (push_bit 4 (take_bit 2 v)) < 64" using unat_take_bit_6 by metis
  have j: "push_bit 2 (drop_bit 2 v) OR drop_bit 4 (push_bit 4 (take_bit 2 v)) = v"
  proof (rule bit_eqI)
    fix i :: nat
    consider "i < 2" | "2 \<le> i" by linarith
    then show "bit (push_bit 2 (drop_bit 2 v) OR drop_bit 4 (push_bit 4 (take_bit 2 v))) i \<longleftrightarrow> bit v i"
    proof cases
      case 2
      then have "Suc (Suc (i - 2)) = i" by simp
      with 2 show ?thesis by (auto simp: bit_simps dest: bit_imp_le_length)
    qed (auto simp: bit_simps dest: bit_imp_le_length)
  qed
  have z: "take_bit 4 (push_bit 4 (take_bit 2 v)) = 0" by (rule bit_eqI) (auto simp: bit_simps)
  have "int (unat (push_bit 4 (take_bit 2 v))) AND 15 = 0" unfolding and_int_mask z by simp
  then have "b64decode_loop out [b64_char (drop_bit 2 v), b64_char (push_bit 4 (take_bit 2 v)), 61, 61] =
      b64decode_loop (out @ [ucast v]) []"
    using u u2 by (intro b64decode_step [OF b64index_v b64index_v b64_pad b64_pad])
      (simp_all only: int_not_minus_1 not_False_eq_True b64_bytes_nat b64_word_unat
        of_int_drop_bit j Let_def)
  then show ?thesis by (simp only: b64decode_loop.simps [of _ "[]"] refl if_True)
qed

lemma bytes16:
  "ucast (drop_bit 8 (push_bit 8 (ucast (a :: u8)) OR ucast (b :: u8) :: u32)) = a"
  "ucast (push_bit 8 (ucast a) OR ucast b :: u32) = b"
  "unat (push_bit 8 (ucast a) OR ucast b :: u32) < 2 ^ 16"
  "unat (ucast a :: u32) < 2 ^ 8"
proof -
  let ?V = "push_bit 8 (ucast a) OR ucast b :: u32"
  show "ucast (drop_bit 8 ?V) = a" by (rule bit_eqI) (auto simp: bit_simps bit_byte_out)
  show "ucast ?V = b" by (rule bit_eqI) (auto simp: bit_simps bit_byte_out)
  have "take_bit 16 ?V = ?V" by (rule bit_eqI) (auto simp: bit_simps bit_byte_out dest: bit_imp_le_length)
  then have "unat ?V = unat ?V mod 2 ^ 16" using unat_take_bit [of 16 ?V] by simp
  then show "unat ?V < 2 ^ 16" by (metis mod_less_divisor zero_less_numeral zero_less_power)
  have "take_bit 8 (ucast a :: u32) = ucast a"
    by (rule bit_eqI) (auto simp: bit_simps bit_byte_out dest: bit_imp_le_length)
  then have "unat (ucast a :: u32) = unat (ucast a :: u32) mod 2 ^ 8" using unat_take_bit [of 8 "ucast a :: u32"] by simp
  then show "unat (ucast a :: u32) < 2 ^ 8" by (metis mod_less_divisor zero_less_numeral zero_less_power)
qed

lemma and_low:
  "v AND 3 = take_bit 2 (v :: u32)" "v AND 0xf = take_bit 4 v"
  by (simp_all add: take_bit_eq_mask mask_eq_exp_minus_1)

lemma b64decode_encode: "b64decode_loop out (lb64encode bs) = Ok (out @ bs)"
proof (induction bs arbitrary: out rule: lb64encode.induct)
  case (1 a b c bs)
  then show ?case
    by (simp only: lb64encode.simps Let_def and_0x3f b64decode_full bytes24 append.simps append_assoc)
next
  case (2 a)
  have "ucast (ucast a :: u32) = a" by (rule bit_eqI) (auto simp: bit_simps bit_byte_out)
  then show ?case
    by (simp only: lb64encode.simps Let_def and_low b64decode_1 bytes16)
next
  case (3 a b)
  then show ?case
    by (simp only: lb64encode.simps Let_def and_low and_0x3f b64decode_2 bytes16)
next
  case 4
  then show ?case by (subst b64decode_loop.simps) simp
qed

section \<open>The texts that are accepted\<close>

definition hex_accepts :: "u8 \<Rightarrow> bool" where
  "hex_accepts c \<longleftrightarrow> 48 \<le> c \<and> c \<le> 57 \<or> 87 \<le> c \<and> c \<le> 103"

lemma HEX_accepts: "HEX c > 16 \<longleftrightarrow> \<not> hex_accepts c"
proof (cases "unat c < 87")
  case True
  have "unat (c - 97 + 10) = unat c + 169"
    using True by (simp add: unat_word_ariths unat_sub_if' unat_plus_if')
  with True show ?thesis by (auto simp: HEX_def hex_accepts_def word_less_nat_alt word_le_nat_alt unat_sub_if')
next
  case False
  have "unat c < 2 ^ LENGTH(8)" by (rule unsigned_less)
  then have "unat (c - 97 + 10) = unat c - 87"
    using False by (auto simp: unat_word_ariths unat_sub_if' unat_plus_if')
  with False show ?thesis by (auto simp: HEX_def hex_accepts_def word_less_nat_alt word_le_nat_alt)
qed

lemma fromhex_loop_accepts:
  "even (length t) \<Longrightarrow> (\<exists>bs. fromhex_loop out t = Ok bs) \<longleftrightarrow> (\<forall>c \<in> set t. hex_accepts c)"
  by (induction out t rule: fromhex_loop.induct) (auto simp: Let_def HEX_accepts)

text \<open>\<^verbatim>\<open>fromhex\<close> inverts \<^verbatim>\<open>tohex\<close> on every byte string; its text has two characters a byte.\<close>

theorem hex_round_trip:
  "lfromhex (ltohex bs) = Ok bs \<and> length (ltohex bs) = 2 * length bs"
  by (simp add: lfromhex_def length_ltohex fromhex_tohex)

text \<open>
  C36: exactly which texts \<^verbatim>\<open>fromhex\<close> accepts: those of even length all of whose characters are
  decimal digits or have a code in 87 to 103. That takes in the letters \<^verbatim>\<open>a\<close> to \<^verbatim>\<open>f\<close>,
  but also \<^verbatim>\<open>W\<close> to \<^verbatim>\<open>Z\<close>, six punctuation characters and \<^verbatim>\<open>g\<close>, and no other upper-case letter.
\<close>

theorem hex_accepted_texts:
  "(\<exists>bs. lfromhex t = Ok bs) \<longleftrightarrow> even (length t) \<and> list_all hex_accepts t"
  using fromhex_loop_accepts [of t "[]"] by (auto simp: lfromhex_def list_all_iff)

text \<open>C35: \<^verbatim>\<open>base64decode\<close> inverts \<^verbatim>\<open>base64encode\<close> on every byte string, whatever the padding.\<close>

theorem base64_round_trip:
  "lb64decode (lb64encode bs) = Ok bs"
  by (simp add: lb64decode_def b64decode_encode)

lemma xor_xor_cancel: "(a XOR b) XOR b = (a :: u8)"
  by (simp add: xor.assoc)

text \<open>applying \<^verbatim>\<open>xor_str\<close> twice with one key gives the text back, and only an empty key fails.\<close>

theorem xor_str_involution:
  "cres_bind (lxor_str s key) (\<lambda>r. lxor_str r key) =
     (if key = [] then LuaError ''Can't xor empty string'' else Ok s)"
  by (auto simp: lxor_str_def xor_xor_cancel intro: nth_equalityI)

end
