(* ===== verification/Crypt_DH.thy ===== *)
theory Crypt_DH
  imports Lua_Result
begin

text \<open>
  The eight-byte numbers of \<^verbatim>\<open>lualib-src/lua-crypt.c\<close> (\<^verbatim>\<open>read64\<close>, \<^verbatim>\<open>pushqword\<close>,
  \<^verbatim>\<open>push64\<close>) and the Diffie-Hellman key exchange modulo the largest 64-bit prime
  (\<^verbatim>\<open>mul_mod_p\<close>, \<^verbatim>\<open>pow_mod_p\<close>, \<^verbatim>\<open>powmodp\<close>, \<^verbatim>\<open>ldhexchange\<close>, \<^verbatim>\<open>ldhsecret\<close>). The
  recursion of \<^verbatim>\<open>pow_mod_p\<close> does not end on exponent 0: it is a partial function
  whose value is \<^term>\<open>None\<close> where the code does not return.
\<close>

section \<open>Numbers of eight bytes\<close>

definition le32_at :: "bytes \<Rightarrow> nat \<Rightarrow> u32" where
  "le32_at x k = get_le32 (x ! k) (x ! (k + 1)) (x ! (k + 2)) (x ! (k + 3))"

definition read64 :: "bytes \<Rightarrow> bytes \<Rightarrow> ((u32 \<times> u32) \<times> (u32 \<times> u32)) cres" where
  "read64 x y =
     (if length x \<noteq> 8 then LuaError ''Invalid uint64 x''
      else if length y \<noteq> 8 then LuaError ''Invalid uint64 y''
      else Ok ((le32_at x 0, le32_at x 4), (le32_at y 0, le32_at y 4)))"

definition pushqword :: "u32 \<times> u32 \<Rightarrow> bytes" where
  "pushqword result =
     [ucast (fst result AND 0xff), ucast (drop_bit 8 (fst result) AND 0xff),
      ucast (drop_bit 16 (fst result) AND 0xff), ucast (drop_bit 24 (fst result) AND 0xff),
      ucast (snd result AND 0xff), ucast (drop_bit 8 (snd result) AND 0xff),
      ucast (drop_bit 16 (snd result) AND 0xff), ucast (drop_bit 24 (snd result) AND 0xff)]"

definition push64 :: "u64 \<Rightarrow> bytes" where
  "push64 r =
     [ucast (r AND 0xff), ucast (drop_bit 8 r AND 0xff), ucast (drop_bit 16 r AND 0xff),
      ucast (drop_bit 24 r AND 0xff), ucast (drop_bit 32 r AND 0xff), ucast (drop_bit 40 r AND 0xff),
      ucast (drop_bit 48 r AND 0xff), ucast (drop_bit 56 r AND 0xff)]"

definition join64 :: "u32 \<times> u32 \<Rightarrow> u64" where
  "join64 x = ucast (fst x) OR push_bit 32 (ucast (snd x))"

section \<open>Powers modulo P\<close>

definition P :: u64 where
  "P = 0xffffffffffffffc5"

definition mul_mod_p_add :: "u64 \<Rightarrow> u64 \<Rightarrow> u64" where
  "mul_mod_p_add m a = (let t = P - a in if m \<ge> t then m - t else m + a)"

function mul_mod_p_loop :: "u64 \<Rightarrow> u64 \<Rightarrow> u64 \<Rightarrow> u64" where
  "mul_mod_p_loop a b m =
     (if b = 0 then m
      else let m = (if b AND 1 \<noteq> 0 then mul_mod_p_add m a else m);
               a = (if a \<ge> P - a then a * 2 - P else a * 2)
           in mul_mod_p_loop a (drop_bit 1 b) m)"
  by pat_completeness auto
termination
proof (relation "measure (\<lambda>(a, b, m). unat b)")
  fix b :: u64 assume "b \<noteq> 0"
  then have "unat b > 0" by (simp add: unat_gt_0)
  then have "unat (drop_bit 1 b) < unat b" unfolding unat_drop_bit by simp
  then show "((a', drop_bit 1 b, m'), a, b, m) \<in> measure (\<lambda>(a, b, m). unat b)"
    for a m a' m' :: u64 by simp
qed simp

declare mul_mod_p_loop.simps [simp del]

definition mul_mod_p :: "u64 \<Rightarrow> u64 \<Rightarrow> u64" where
  "mul_mod_p a b = mul_mod_p_loop a b 0"

partial_function (option) pow_mod_p :: "u64 \<Rightarrow> u64 \<Rightarrow> u64 option" where
  "pow_mod_p a b =
     (if b = 1 then Some a
      else do {
        t \<leftarrow> pow_mod_p a (drop_bit 1 b);
        let t = mul_mod_p t t in
        Some (if b mod 2 \<noteq> 0 then mul_mod_p t a else t)
      })"

definition powmodp :: "u64 \<Rightarrow> u64 \<Rightarrow> u64 option" where
  "powmodp a b = pow_mod_p (if a > P then a mod P else a) b"

section \<open>The key exchange\<close>

definition G :: u64 where
  "G = 5"

text \<open>A call that does not return has the outcome \<^term>\<open>Undefined\<close>.\<close>

definition ldhsecret :: "bytes \<Rightarrow> bytes \<Rightarrow> bytes cres" where
  "ldhsecret s1 s2 =
     cres_bind (read64 s1 s2) (\<lambda>(x, y).
       let xx = join64 x; yy = join64 y in
       if xx = 0 \<or> yy = 0 then LuaError ''Can't be 0''
       else case powmodp xx yy of None \<Rightarrow> Undefined | Some r \<Rightarrow> Ok (push64 r))"

definition ldhexchange :: "bytes \<Rightarrow> bytes cres" where
  "ldhexchange x =
     (if length x \<noteq> 8 then LuaError ''Invalid dh uint64 key''
      else let x64 = join64 (le32_at x 0, le32_at x 4) in
           if x64 = 0 then LuaError ''Can't be 0''
           else case powmodp G x64 of None \<Rightarrow> Undefined | Some r \<Rightarrow> Ok (push64 r))"

text \<open>The values of the calls of \<^verbatim>\<open>random()\<close> are the argument.\<close>

definition lrandomkey :: "(nat \<Rightarrow> u64) \<Rightarrow> bytes" where
  "lrandomkey random =
     (let tmp = map (\<lambda>i. ucast (random i AND 0xff)) [0..<8];
          x = fold (\<lambda>t x. x XOR t) tmp 0
      in if x = 0 then tmp[0 := tmp ! 0 OR 1] else tmp)"

section \<open>Numbers and their bytes\<close>

definition num64 :: "bytes \<Rightarrow> u64" where
  "num64 x = join64 (le32_at x 0, le32_at x 4)"

lemma length_push64 [simp]: "length (push64 r) = 8"
  by (simp add: push64_def)

lemma byte_of_half: "k + 8 \<le> 32 \<Longrightarrow> (ucast (drop_bit k (ucast (w :: u64) :: u32)) :: u8) = ucast (drop_bit k w)"
  by (rule bit_eqI) (auto simp: bit_simps)

lemma num64_push64 [simp]: "num64 (push64 r) = r"
proof -
  have "le32_at (push64 r) 0 = ucast r"
    using get_put_le32 [of "ucast r"] byte_of_half [of 0 r]
    by (simp add: le32_at_def push64_def ucast_and_ff byte_of_half)
  moreover have "le32_at (push64 r) 4 = ucast (drop_bit 32 r)"
    using get_put_le32 [of "ucast (drop_bit 32 r)"] byte_of_half [of 0 "drop_bit 32 r"]
    by (simp add: le32_at_def push64_def ucast_and_ff byte_of_half)
  moreover have "ucast (ucast r :: u32) OR push_bit 32 (ucast (ucast (drop_bit 32 r) :: u32)) = r"
    by (rule bit_eqI) (auto simp: bit_simps dest: bit_imp_le_length)
  ultimately show ?thesis by (simp add: num64_def join64_def)
qed

section \<open>Multiplication and powers\<close>

lemma mul_mod_p_add_unat:
  assumes "m < P" "a < P"
  shows "unat (mul_mod_p_add m a) = (unat m + unat a) mod unat P" "mul_mod_p_add m a < P"
proof -
  have t: "unat (P - a) = unat P - unat a" using assms(2) by (simp add: unat_sub)
  have p: "unat P < 2 ^ LENGTH(64)" by (rule unsigned_less)
  have a: "unat a < unat P" "unat m < unat P" using assms by (simp_all add: word_less_nat_alt)
  have *: "unat (mul_mod_p_add m a) = (unat m + unat a) mod unat P"
  proof (cases "m \<ge> P - a")
    case True
    then have "unat (m - (P - a)) = unat m - (unat P - unat a)" using t by (simp add: unat_sub)
    also have "\<dots> = unat m + unat a - unat P" using a by linarith
    also have "\<dots> = (unat m + unat a) mod unat P"
      using True a t by (subst le_mod_geq) (auto simp: word_le_nat_alt)
    finally show ?thesis using True by (simp add: mul_mod_p_add_def)
  next
    case False
    then have "unat m + unat a < unat P" using a t by (simp add: word_le_nat_alt)
    with p have "unat (m + a) = unat m + unat a" by (subst unat_add_lem [THEN iffD1]) simp_all
    with False \<open>unat m + unat a < unat P\<close> show ?thesis by (simp add: mul_mod_p_add_def)
  qed
  show "unat (mul_mod_p_add m a) = (unat m + unat a) mod unat P" by (rule *)
  have "0 < unat P" using a by linarith
  then show "mul_mod_p_add m a < P" unfolding word_less_nat_alt * by simp
qed

lemma mul_mod_p_double: "(if a \<ge> P - a then a * 2 - P else a * 2) = mul_mod_p_add a a"
  by (simp add: mul_mod_p_add_def mult_2_right)

lemma unat_halve: "unat b = 2 * unat (drop_bit 1 b) + (if b AND 1 \<noteq> 0 then 1 else 0)"
proof -
  have "unat (b AND 1) = unat b mod 2" using unat_take_bit [of 1 b] by (simp add: take_bit_Suc_from_most and_one_eq)
  moreover have "b AND 1 \<noteq> 0 \<longleftrightarrow> unat (b AND 1) \<noteq> 0" by (simp add: unat_eq_0)
  ultimately have "b AND 1 \<noteq> 0 \<longleftrightarrow> unat b mod 2 \<noteq> 0" by simp
  moreover have "n = 2 * (n div 2 ^ 1) + (if n mod 2 \<noteq> 0 then 1 else 0)" for n :: nat
    by (cases "n mod 2 = 0") (use div_mult_mod_eq [of n 2] in auto)
  ultimately show ?thesis unfolding unat_drop_bit by (simp only:)
qed

lemma mul_mod_p_loop_unat:
  assumes "a < P" "m < P"
  shows "unat (mul_mod_p_loop a b m) = (unat m + unat a * unat b) mod unat P \<and> mul_mod_p_loop a b m < P"
  using assms
proof (induction a b m rule: mul_mod_p_loop.induct)
  case (1 a b m)
  show ?case
  proof (cases "b = 0")
    case True
    with 1 show ?thesis by (simp add: mul_mod_p_loop.simps [of a] word_less_nat_alt)
  next
    case False
    let ?m = "if b AND 1 \<noteq> 0 then mul_mod_p_add m a else m" and ?a = "mul_mod_p_add a a"
    have step: "mul_mod_p_loop a b m = mul_mod_p_loop ?a (drop_bit 1 b) ?m"
      using False mul_mod_p_double [of a] by (subst mul_mod_p_loop.simps) (simp add: Let_def)
    have a: "unat ?a = (2 * unat a) mod unat P" "?a < P"
      using mul_mod_p_add_unat [OF 1(2,2)] by (simp_all add: mult_2)
    have m: "unat ?m mod unat P = (unat m + (if b AND 1 \<noteq> 0 then 1 else 0) * unat a) mod unat P" "?m < P"
      using mul_mod_p_add_unat [OF 1(3,2)] 1(3) by simp_all
    have IH: "unat (mul_mod_p_loop ?a (drop_bit 1 b) ?m) = (unat ?m + unat ?a * unat (drop_bit 1 b)) mod unat P
        \<and> mul_mod_p_loop ?a (drop_bit 1 b) ?m < P"
      by (rule 1(1) [OF False refl refl, unfolded mul_mod_p_double, OF a(2) m(2)])
    have "(unat ?m + unat ?a * unat (drop_bit 1 b)) mod unat P =
        ((unat m + (if b AND 1 \<noteq> 0 then 1 else 0) * unat a) + 2 * unat a * unat (drop_bit 1 b)) mod unat P"
      by (rule mod_add_cong [OF m(1)]) (simp only: a(1) mod_mult_left_eq)
    also have "(unat m + (if b AND 1 \<noteq> 0 then 1 else 0) * unat a) + 2 * unat a * unat (drop_bit 1 b) =
        unat m + unat a * (2 * unat (drop_bit 1 b) + (if b AND 1 \<noteq> 0 then 1 else 0))"
      by (simp only: distrib_left ac_simps)
    also have "2 * unat (drop_bit 1 b) + (if b AND 1 \<noteq> 0 then 1 else 0) = unat b"
      by (rule unat_halve [symmetric])
    finally show ?thesis using IH step by simp
  qed
qed

lemma mul_mod_p_unat:
  assumes "a < P"
  shows "unat (mul_mod_p a b) = unat a * unat b mod unat P" "mul_mod_p a b < P"
  using mul_mod_p_loop_unat [of a 0 b] assms by (auto simp: mul_mod_p_def P_def)

text \<open>The recursion ends on every exponent but 0 and computes the power.\<close>

lemma unat_halve_mod: "unat b = 2 * unat (drop_bit 1 b) + (if b mod 2 \<noteq> 0 then 1 else (0 :: nat))" for b :: u64
  using unat_halve [of b] by (simp add: and_one_eq)

lemma pow_mod_p_unat:
  assumes "a < P" "b \<noteq> 0"
  shows "\<exists>r. pow_mod_p a b = Some r \<and> unat r = unat a ^ unat b mod unat P \<and> r < P"
  using assms(2)
proof (induction "unat b" arbitrary: b rule: less_induct)
  case less
  show ?case
  proof (cases "b = 1")
    case True
    with assms(1) show ?thesis by (subst pow_mod_p.simps) (simp add: word_less_nat_alt)
  next
    case False
    let ?h = "drop_bit 1 b"
    from less.prems have "unat b > 0" by (simp add: unat_gt_0)
    moreover from False have "unat b \<noteq> 1" by (metis unat_1 word_unat_eq_iff)
    ultimately have h: "unat ?h < unat b" "unat ?h \<noteq> 0"
      using unat_halve_mod [of b] by (auto split: if_splits)
    then obtain t where t: "pow_mod_p a ?h = Some t" "unat t = unat a ^ unat ?h mod unat P" "t < P"
      using less.hyps [of ?h] by (auto simp: unat_eq_0)
    let ?r = "if b mod 2 \<noteq> 0 then mul_mod_p (mul_mod_p t t) a else mul_mod_p t t"
    have "pow_mod_p a b = Some ?r" using False t(1) by (subst pow_mod_p.simps) (simp add: Let_def)
    moreover have tt: "unat (mul_mod_p t t) = unat a ^ (2 * unat ?h) mod unat P" "mul_mod_p t t < P"
      using mul_mod_p_unat [OF t(3), of t] t(2) by (simp_all add: mod_mult_eq power_mult power2_eq_square power_mult_distrib mult_2 power_add)
    then have "unat ?r = unat a ^ unat b mod unat P" "?r < P"
      using mul_mod_p_unat [OF tt(2), of a] unat_halve_mod [of b]
      by (auto simp: mod_mult_right_eq mult.commute)
    ultimately show ?thesis by blast
  qed
qed

lemma pow_mod_p_0: "pow_mod_p a 0 = None"
proof -
  have "b \<noteq> 0" if "pow_mod_p a b = Some r" for b r
  proof (rule pow_mod_p.raw_induct [of "\<lambda>_ b _. b \<noteq> 0", OF _ that])
    fix pow :: "u64 \<Rightarrow> u64 \<Rightarrow> u64 option" and a b y
    assume IH: "\<And>a b y. pow a b = Some y \<Longrightarrow> b \<noteq> 0"
      and "(if b = 1 then Some a
        else pow a (drop_bit 1 b) \<bind> (\<lambda>t. let t = mul_mod_p t t in Some (if b mod 2 \<noteq> 0 then mul_mod_p t a else t))) = Some y"
    then show "b \<noteq> 0" by (auto simp: bind_eq_Some_conv split: if_splits dest!: IH)
  qed
  then show ?thesis by (cases "pow_mod_p a 0") auto
qed

text \<open>The unreduced base \<^term>\<open>P\<close>, which \<^verbatim>\<open>powmodp\<close> lets through.\<close>

lemma mul_mod_p_P: "mul_mod_p P b = 0"
proof -
  have "mul_mod_p_loop a b m = m" if "a = P" for a b m
    using that
  proof (induction a b m rule: mul_mod_p_loop.induct)
    case (1 a b m)
    then show ?case by (subst mul_mod_p_loop.simps) (simp add: mul_mod_p_add_def Let_def)
  qed
  then show ?thesis by (simp add: mul_mod_p_def)
qed

lemma mul_mod_p_0: "mul_mod_p 0 b = 0"
  using mul_mod_p_unat [of 0 b] by (simp add: P_def unat_eq_0)

lemma pow_mod_p_P: "b \<noteq> 0 \<Longrightarrow> pow_mod_p P b = Some (if b = 1 then P else 0)"
proof (induction "unat b" arbitrary: b rule: less_induct)
  case less
  show ?case
  proof (cases "b = 1")
    case True
    then show ?thesis by (subst pow_mod_p.simps) simp
  next
    case False
    from less.prems have "unat b > 0" by (simp add: unat_gt_0)
    moreover from False have "unat b \<noteq> 1" by (metis unat_1 word_unat_eq_iff)
    ultimately have "unat (drop_bit 1 b) < unat b" "unat (drop_bit 1 b) \<noteq> 0"
      using unat_halve_mod [of b] by (auto split: if_splits)
    then have "pow_mod_p P (drop_bit 1 b) = Some (if drop_bit 1 b = 1 then P else 0)"
      by (intro less.hyps) (auto simp: unat_eq_0)
    with False show ?thesis
      by (subst pow_mod_p.simps) (simp add: Let_def mul_mod_p_P mul_mod_p_0)
  qed
qed

lemma powmodp_unat:
  assumes "b \<noteq> 0"
  shows "\<exists>r. powmodp a b = Some r \<and>
    unat r = (if a = P \<and> b = 1 then unat P else unat a ^ unat b mod unat P)"
proof (cases "a = P")
  case True
  have "unat b \<noteq> 0" using assms by (simp add: unat_eq_0)
  then have "unat P ^ unat b mod unat P = 0" by simp
  with True assms show ?thesis by (simp add: powmodp_def pow_mod_p_P)
next
  case False
  let ?a = "if a > P then a mod P else a"
  have "unat ?a = unat a mod unat P \<and> ?a < P"
  proof (cases "a > P")
    case True
    have "0 < unat P" by (simp add: P_def)
    with True show ?thesis by (simp add: unat_mod word_less_nat_alt)
  next
    case g: False
    with False have "a < P" by order
    with g show ?thesis by (simp add: word_less_nat_alt)
  qed
  with pow_mod_p_unat [OF _ assms, of ?a] False show ?thesis
    by (auto simp: powmodp_def power_mod)
qed

section \<open>Results\<close>

text \<open>
  C34: \<^verbatim>\<open>powmodp\<close> returns on every exponent but 0, where its recursion does not end, and its
  result is the power modulo \<^term>\<open>P\<close>. One input escapes: \<^verbatim>\<open>powmodp(P, 1)\<close> is \<^term>\<open>P\<close> itself, since
  the guard \<^verbatim>\<open>a > P\<close> does not reduce the base \<^term>\<open>P\<close>.
\<close>

theorem powmodp_exact:
  "powmodp a b =
     (if b = 0 then None
      else Some (if a = P \<and> b = 1 then P else of_nat (unat a ^ unat b mod unat P)))"
proof (cases "b = 0")
  case False
  from powmodp_unat [OF False, of a] obtain r where
    r: "powmodp a b = Some r" "unat r = (if a = P \<and> b = 1 then unat P else unat a ^ unat b mod unat P)" by blast
  show ?thesis
  proof (cases "a = P \<and> b = 1")
    case True
    with r have "r = P" by (simp add: word_unat_eq_iff)
    with True r(1) show ?thesis by simp
  next
    case f: False
    have "r = of_nat (unat r)" by simp
    also have "unat r = unat a ^ unat b mod unat P" using r(2) f by (simp only: if_False)
    finally show ?thesis using r(1) f False by (simp only: if_False)
  qed
qed (simp add: powmodp_def pow_mod_p_0)

lemma coprime_G_P: "coprime (unat G) (unat P)"
proof -
  have "gcd 5 (18446744073709551557 :: nat) = 1" by (simp add: gcd_non_0_nat)
  then show ?thesis by (simp add: G_def P_def coprime_iff_gcd_eq_1)
qed

lemma G_power: "unat G ^ n mod unat P \<noteq> 0"
proof
  assume "unat G ^ n mod unat P = 0"
  then have "unat P dvd unat G ^ n" by (simp add: mod_eq_0_iff_dvd)
  moreover have "coprime (unat G ^ n) (unat P)" using coprime_G_P by simp
  ultimately have "unat P dvd 1" by (metis coprime_common_divisor dvd_refl)
  then show False by (simp add: P_def)
qed

lemma ldhexchange_Ok:
  assumes "length x = 8" "num64 x \<noteq> 0"
  shows "\<exists>r. ldhexchange x = Ok (push64 r) \<and> unat r = unat G ^ unat (num64 x) mod unat P \<and> r \<noteq> 0"
proof -
  have "G \<noteq> P" by (simp add: G_def P_def)
  with powmodp_unat [OF assms(2), of G]
  obtain r where r: "powmodp G (num64 x) = Some r" "unat r = unat G ^ unat (num64 x) mod unat P" by auto
  then have "unat r \<noteq> 0" using G_power by simp
  with r assms show ?thesis
    by (auto simp: ldhexchange_def num64_def Let_def)
qed

lemma ldhsecret_Ok:
  assumes "length x = 8" "length y = 8" "num64 x \<noteq> 0" "num64 y \<noteq> 0" "num64 x < P"
  shows "\<exists>r. ldhsecret x y = Ok (push64 r) \<and> unat r = unat (num64 x) ^ unat (num64 y) mod unat P"
proof -
  have "num64 x \<noteq> P" using assms(5) by auto
  with powmodp_unat [OF assms(4), of "num64 x"] assms show ?thesis
    by (auto simp: ldhsecret_def read64_def num64_def [symmetric] Let_def)
qed

text \<open>
  C33: two parties that exchange \<^verbatim>\<open>dhexchange\<close> of their secrets, any two strings of eight bytes
  that are not all zero, compute the same \<^verbatim>\<open>dhsecret\<close>, the generator raised to the product of the
  secrets; no error and no endless recursion stands in the way.
\<close>

theorem dh_agreement:
  assumes "length a = 8" "length b = 8" "num64 a \<noteq> 0" "num64 b \<noteq> 0"
  shows "\<exists>pa pb s. ldhexchange a = Ok pa \<and> ldhexchange b = Ok pb \<and>
    ldhsecret pb a = Ok s \<and> ldhsecret pa b = Ok s \<and>
    unat (num64 s) = unat G ^ (unat (num64 a) * unat (num64 b)) mod unat P"
proof -
  have p: "unat P > 0" by (simp add: P_def)
  obtain ra where ra: "ldhexchange a = Ok (push64 ra)" "unat ra = unat G ^ unat (num64 a) mod unat P" "ra \<noteq> 0"
    using ldhexchange_Ok assms by blast
  obtain rb where rb: "ldhexchange b = Ok (push64 rb)" "unat rb = unat G ^ unat (num64 b) mod unat P" "rb \<noteq> 0"
    using ldhexchange_Ok assms by blast
  have "ra < P" "rb < P" using ra(2) rb(2) p by (simp_all add: word_less_nat_alt)
  then obtain s t where s: "ldhsecret (push64 rb) a = Ok (push64 s)" "unat s = unat rb ^ unat (num64 a) mod unat P"
    and t: "ldhsecret (push64 ra) b = Ok (push64 t)" "unat t = unat ra ^ unat (num64 b) mod unat P"
    using ldhsecret_Ok [of "push64 rb" a] ldhsecret_Ok [of "push64 ra" b] assms ra rb by auto
  have v: "unat t = unat G ^ (unat (num64 a) * unat (num64 b)) mod unat P"
    "unat s = unat G ^ (unat (num64 a) * unat (num64 b)) mod unat P"
    using s t ra(2) rb(2) by (simp_all add: power_mod mult.commute flip: power_mult)
  then have "s = t" by (simp add: word_unat_eq_iff)
  with ra rb s t v show ?thesis by auto
qed

lemma num64_test: "num64 [3,0,0,0,0,0,0,0] = 3" "num64 [7,0,0,0,0,0,0,0] = 7"
  by code_simp+

theorem dh_agreement_witness:
  "\<exists>pa pb s. ldhexchange [3,0,0,0,0,0,0,0] = Ok pa \<and> ldhexchange [7,0,0,0,0,0,0,0] = Ok pb \<and>
    ldhsecret pb [3,0,0,0,0,0,0,0] = Ok s \<and> ldhsecret pa [7,0,0,0,0,0,0,0] = Ok s \<and>
    unat (num64 s) = 5 ^ 21 mod 18446744073709551557"
  using dh_agreement [of "[3,0,0,0,0,0,0,0]" "[7,0,0,0,0,0,0,0]"] by (simp add: num64_test G_def P_def)

lemma push64_num64:
  assumes "length x = 8"
  shows "push64 (num64 x) = x"
proof -
  obtain b0 b1 b2 b3 b4 b5 b6 b7 where x: "x = [b0, b1, b2, b3, b4, b5, b6, b7]"
    using assms by (auto simp: numeral_eq_Suc length_Suc_conv)
  let ?l = "get_le32 b0 b1 b2 b3" and ?h = "get_le32 b4 b5 b6 b7"
  let ?w = "ucast ?l OR push_bit 32 (ucast ?h) :: u64"
  have lo: "(ucast (drop_bit k ?w) :: u8) = ucast (drop_bit k ?l)" if "k + 8 \<le> 32" for k
    using that by (intro bit_eqI) (auto simp: bit_simps)
  have hi: "(ucast (drop_bit (32 + k) ?w) :: u8) = ucast (drop_bit k ?h)" if "k + 8 \<le> 32" for k
    using that by (intro bit_eqI) (auto simp: bit_simps dest: bit_imp_le_length)
  have "num64 x = ?w" by (simp add: x num64_def join64_def le32_at_def)
  then have "push64 (num64 x) = put_le32 ?l @ put_le32 ?h"
    using lo [of 0] lo [of 8] lo [of 16] lo [of 24] hi [of 0] hi [of 8] hi [of 16] hi [of 24]
    by (simp only: push64_def ucast_and_ff put_le32_def append.simps drop_bit_0 id_apply) simp
  then show ?thesis by (simp add: x put_get_le32)
qed

lemma lrandomkey_nonzero: "lrandomkey random \<noteq> replicate 8 0"
proof
  assume z: "lrandomkey random = replicate 8 0"
  let ?tmp = "map (\<lambda>i. ucast (random i AND 0xff)) [0..<8] :: bytes"
  show False
  proof (cases "fold (\<lambda>t x. x XOR t) ?tmp 0 = 0")
    case True
    then have "(lrandomkey random) ! 0 = ?tmp ! 0 OR 1"
      by (simp add: lrandomkey_def Let_def del: upt_rec_numeral)
    with z have "?tmp ! 0 OR 1 = 0" by simp
    then have "\<not> bit (?tmp ! 0 OR 1) 0" by (metis bit_0_eq bot_apply bot_bool_def)
    then show False by (simp add: bit_simps)
  next
    case False
    with z have "?tmp = replicate 8 0" by (simp add: lrandomkey_def Let_def del: upt_rec_numeral)
    moreover have "fold (\<lambda>t x. x XOR t) (replicate 8 (0 :: u8)) 0 = 0" by (simp add: numeral_eq_Suc)
    ultimately show False using False by (simp only:)
  qed
qed

text \<open>
  a key made by \<^verbatim>\<open>randomkey\<close>, whatever \<^verbatim>\<open>random\<close> returns, has eight bytes not all zero,
  so that \<^verbatim>\<open>dhexchange\<close> never raises its error on it.
\<close>

theorem randomkey_usable:
  "length (lrandomkey random) = 8 \<and> num64 (lrandomkey random) \<noteq> 0 \<and>
    (\<exists>r. ldhexchange (lrandomkey random) = Ok (push64 r) \<and>
         unat r = unat G ^ unat (num64 (lrandomkey random)) mod unat P)"
proof -
  have l: "length (lrandomkey random) = 8" by (simp add: lrandomkey_def Let_def)
  have "push64 0 = replicate 8 0" by (simp add: push64_def numeral_eq_Suc)
  with push64_num64 [OF l] lrandomkey_nonzero [of random] have "num64 (lrandomkey random) \<noteq> 0" by metis
  with l ldhexchange_Ok show ?thesis by blast
qed

end
