(* ===== verification/Crypt_DES.thy ===== *)
theory Crypt_DES
  imports Lua_Result
begin

text \<open>
  The DES cipher of \<^verbatim>\<open>lualib-src/lua-crypt.c\<close>: the key schedule \<^verbatim>\<open>des_main_ks\<close>, the block cipher
  \<^verbatim>\<open>des_crypt\<close> with its permutations and rounds, and the padded mode of \<^verbatim>\<open>ldesencode\<close> and
  \<^verbatim>\<open>ldesdecode\<close>. The permutations are exchanges of masked bits and rotations, which are undone
  one by one in the opposite order, and a sequence of Feistel rounds is undone by the same rounds
  with the subkeys reversed, whatever the S-boxes hold.
\<close>

section \<open>Tables\<close>

definition SB1 :: "u32 list" where
  "SB1 =
     [0x01010400, 0x00000000, 0x00010000, 0x01010404, 0x01010004, 0x00010404, 0x00000004, 0x00010000,
      0x00000400, 0x01010400, 0x01010404, 0x00000400, 0x01000404, 0x01010004, 0x01000000, 0x00000004,
      0x00000404, 0x01000400, 0x01000400, 0x00010400, 0x00010400, 0x01010000, 0x01010000, 0x01000404,
      0x00010004, 0x01000004, 0x01000004, 0x00010004, 0x00000000, 0x00000404, 0x00010404, 0x01000000,
      0x00010000, 0x01010404, 0x00000004, 0x01010000, 0x01010400, 0x01000000, 0x01000000, 0x00000400,
      0x01010004, 0x00010000, 0x00010400, 0x01000004, 0x00000400, 0x00000004, 0x01000404, 0x00010404,
      0x01010404, 0x00010004, 0x01010000, 0x01000404, 0x01000004, 0x00000404, 0x00010404, 0x01010400,
      0x00000404, 0x01000400, 0x01000400, 0x00000000, 0x00010004, 0x00010400, 0x00000000, 0x01010004]"

definition SB2 :: "u32 list" where
  "SB2 =
     [0x80108020, 0x80008000, 0x00008000, 0x00108020, 0x00100000, 0x00000020, 0x80100020, 0x80008020,
      0x80000020, 0x80108020, 0x80108000, 0x80000000, 0x80008000, 0x00100000, 0x00000020, 0x80100020,
      0x00108000, 0x00100020, 0x80008020, 0x00000000, 0x80000000, 0x00008000, 0x00108020, 0x80100000,
      0x00100020, 0x80000020, 0x00000000, 0x00108000, 0x00008020, 0x80108000, 0x80100000, 0x00008020,
      0x00000000, 0x00108020, 0x80100020, 0x00100000, 0x80008020, 0x80100000, 0x80108000, 0x00008000,
      0x80100000, 0x80008000, 0x00000020, 0x80108020, 0x00108020, 0x00000020, 0x00008000, 0x80000000,
      0x00008020, 0x80108000, 0x00100000, 0x80000020, 0x00100020, 0x80008020, 0x80000020, 0x00100020,
      0x00108000, 0x00000000, 0x80008000, 0x00008020, 0x80000000, 0x80100020, 0x80108020, 0x00108000]"

definition SB3 :: "u32 list" where
  "SB3 =
     [0x00000208, 0x08020200, 0x00000000, 0x08020008, 0x08000200, 0x00000000, 0x00020208, 0x08000200,
      0x00020008, 0x08000008, 0x08000008, 0x00020000, 0x08020208, 0x00020008, 0x08020000, 0x00000208,
      0x08000000, 0x00000008, 0x08020200, 0x00000200, 0x00020200, 0x08020000, 0x08020008, 0x00020208,
      0x08000208, 0x00020200, 0x00020000, 0x08000208, 0x00000008, 0x08020208, 0x00000200, 0x08000000,
      0x08020200, 0x08000000, 0x00020008, 0x00000208, 0x00020000, 0x08020200, 0x08000200, 0x00000000,
      0x00000200, 0x00020008, 0x08020208, 0x08000200, 0x08000008, 0x00000200, 0x00000000, 0x08020008,
      0x08000208, 0x00020000, 0x08000000, 0x08020208, 0x00000008, 0x00020208, 0x00020200, 0x08000008,
      0x08020000, 0x08000208, 0x00000208, 0x08020000, 0x00020208, 0x00000008, 0x08020008, 0x00020200]"

definition SB4 :: "u32 list" where
  "SB4 =
     [0x00802001, 0x00002081, 0x00002081, 0x00000080, 0x00802080, 0x00800081, 0x00800001, 0x00002001,
      0x00000000, 0x00802000, 0x00802000, 0x00802081, 0x00000081, 0x00000000, 0x00800080, 0x00800001,
      0x00000001, 0x00002000, 0x00800000, 0x00802001, 0x00000080, 0x00800000, 0x00002001, 0x00002080,
      0x00800081, 0x00000001, 0x00002080, 0x00800080, 0x00002000, 0x00802080, 0x00802081, 0x00000081,
      0x00800080, 0x00800001, 0x00802000, 0x00802081, 0x00000081, 0x00000000, 0x00000000, 0x00802000,
      0x00002080, 0x00800080, 0x00800081, 0x00000001, 0x00802001, 0x00002081, 0x00002081, 0x00000080,
      0x00802081, 0x00000081, 0x00000001, 0x00002000, 0x00800001, 0x00002001, 0x00802080, 0x00800081,
      0x00002001, 0x00002080, 0x00800000, 0x00802001, 0x00000080, 0x00800000, 0x00002000, 0x00802080]"

definition SB5 :: "u32 list" where
  "SB5 =
     [0x00000100, 0x02080100, 0x02080000, 0x42000100, 0x00080000, 0x00000100, 0x40000000, 0x02080000,
      0x40080100, 0x00080000, 0x02000100, 0x40080100, 0x42000100, 0x42080000, 0x00080100, 0x40000000,
      0x02000000, 0x40080000, 0x40080000, 0x00000000, 0x40000100, 0x42080100, 0x42080100, 0x02000100,
      0x42080000, 0x40000100, 0x00000000, 0x42000000, 0x02080100, 0x02000000, 0x42000000, 0x00080100,
      0x00080000, 0x42000100, 0x00000100, 0x02000000, 0x40000000, 0x02080000, 0x42000100, 0x40080100,
      0x02000100, 0x40000000, 0x42080000, 0x02080100, 0x40080100, 0x00000100, 0x02000000, 0x42080000,
      0x42080100, 0x00080100, 0x42000000, 0x42080100, 0x02080000, 0x00000000, 0x40080000, 0x42000000,
      0x00080100, 0x02000100, 0x40000100, 0x00080000, 0x00000000, 0x40080000, 0x02080100, 0x40000100]"

definition SB6 :: "u32 list" where
  "SB6 =
     [0x20000010, 0x20400000, 0x00004000, 0x20404010, 0x20400000, 0x00000010, 0x20404010, 0x00400000,
      0x20004000, 0x00404010, 0x00400000, 0x20000010, 0x00400010, 0x20004000, 0x20000000, 0x00004010,
      0x00000000, 0x00400010, 0x20004010, 0x00004000, 0x00404000, 0x20004010, 0x00000010, 0x20400010,
      0x20400010, 0x00000000, 0x00404010, 0x20404000, 0x00004010, 0x00404000, 0x20404000, 0x20000000,
      0x20004000, 0x00000010, 0x20400010, 0x00404000, 0x20404010, 0x00400000, 0x00004010, 0x20000010,
      0x00400000, 0x20004000, 0x20000000, 0x00004010, 0x20000010, 0x20404010, 0x00404000, 0x20400000,
      0x00404010, 0x20404000, 0x00000000, 0x20400010, 0x00000010, 0x00004000, 0x20400000, 0x00404010,
      0x00004000, 0x00400010, 0x20004010, 0x00000000, 0x20404000, 0x20000000, 0x00400010, 0x20004010]"

definition SB7 :: "u32 list" where
  "SB7 =
     [0x00200000, 0x04200002, 0x04000802, 0x00000000, 0x00000800, 0x04000802, 0x00200802, 0x04200800,
      0x04200802, 0x00200000, 0x00000000, 0x04000002, 0x00000002, 0x04000000, 0x04200002, 0x00000802,
      0x04000800, 0x00200802, 0x00200002, 0x04000800, 0x04000002, 0x04200000, 0x04200800, 0x00200002,
      0x04200000, 0x00000800, 0x00000802, 0x04200802, 0x00200800, 0x00000002, 0x04000000, 0x00200800,
      0x04000000, 0x00200800, 0x00200000, 0x04000802, 0x04000802, 0x04200002, 0x04200002, 0x00000002,
      0x00200002, 0x04000000, 0x04000800, 0x00200000, 0x04200800, 0x00000802, 0x00200802, 0x04200800,
      0x00000802, 0x04000002, 0x04200802, 0x04200000, 0x00200800, 0x00000000, 0x00000002, 0x04200802,
      0x00000000, 0x00200802, 0x04200000, 0x00000800, 0x04000002, 0x04000800, 0x00000800, 0x00200002]"

definition SB8 :: "u32 list" where
  "SB8 =
     [0x10001040, 0x00001000, 0x00040000, 0x10041040, 0x10000000, 0x10001040, 0x00000040, 0x10000000,
      0x00040040, 0x10040000, 0x10041040, 0x00041000, 0x10041000, 0x00041040, 0x00001000, 0x00000040,
      0x10040000, 0x10000040, 0x10001000, 0x00001040, 0x00041000, 0x00040040, 0x10040040, 0x10041000,
      0x00001040, 0x00000000, 0x00000000, 0x10040040, 0x10000040, 0x10001000, 0x00041040, 0x00040000,
      0x00041040, 0x00040000, 0x10041000, 0x00001000, 0x00000040, 0x10040040, 0x00001000, 0x00041040,
      0x10001000, 0x00000040, 0x10000040, 0x10040000, 0x10040040, 0x10000000, 0x00040000, 0x10001040,
      0x00000000, 0x10041040, 0x00040040, 0x10000040, 0x10040000, 0x10001000, 0x10001040, 0x00000000,
      0x10041040, 0x00041000, 0x00041000, 0x00001040, 0x00001040, 0x00040040, 0x10000000, 0x10041000]"

definition LHs :: "u32 list" where
  "LHs =
     [0x00000000, 0x00000001, 0x00000100, 0x00000101, 0x00010000, 0x00010001, 0x00010100, 0x00010101,
      0x01000000, 0x01000001, 0x01000100, 0x01000101, 0x01010000, 0x01010001, 0x01010100, 0x01010101]"

definition RHs :: "u32 list" where
  "RHs =
     [0x00000000, 0x01000000, 0x00010000, 0x01010000, 0x00000100, 0x01000100, 0x00010100, 0x01010100,
      0x00000001, 0x01000001, 0x00010001, 0x01010001, 0x00000101, 0x01000101, 0x00010101, 0x01010101]"

section \<open>Permutations and rounds\<close>

text \<open>\<^verbatim>\<open>T = ((X >> n) ^ Y) & m; Y ^= T; X ^= (T << n)\<close>: the result is the new pair \<^verbatim>\<open>(X, Y)\<close>.\<close>

definition bit_swap :: "nat \<Rightarrow> u32 \<Rightarrow> u32 \<times> u32 \<Rightarrow> u32 \<times> u32" where
  "bit_swap n m = (\<lambda>(X, Y). let T = (drop_bit n X XOR Y) AND m in (X XOR push_bit n T, Y XOR T))"

definition rol1 :: "u32 \<Rightarrow> u32" where
  "rol1 X = (push_bit 1 X OR drop_bit 31 X) AND 0xFFFFFFFF"

definition ror1 :: "u32 \<Rightarrow> u32" where
  "ror1 X = (push_bit 31 X OR drop_bit 1 X) AND 0xFFFFFFFF"

definition DES_IP :: "u32 \<times> u32 \<Rightarrow> u32 \<times> u32" where
  "DES_IP p =
     (let (X, Y) = bit_swap 4 0x0F0F0F0F p;
          (X, Y) = bit_swap 16 0x0000FFFF (X, Y);
          (Y, X) = bit_swap 2 0x33333333 (Y, X);
          (Y, X) = bit_swap 8 0x00FF00FF (Y, X);
          Y = rol1 Y;
          (X, Y) = bit_swap 0 0xAAAAAAAA (X, Y);
          X = rol1 X
      in (X, Y))"

definition DES_FP :: "u32 \<times> u32 \<Rightarrow> u32 \<times> u32" where
  "DES_FP p =
     (let (X, Y) = p;
          X = ror1 X;
          (X, Y) = bit_swap 0 0xAAAAAAAA (X, Y);
          Y = ror1 Y;
          (Y, X) = bit_swap 8 0x00FF00FF (Y, X);
          (Y, X) = bit_swap 2 0x33333333 (Y, X);
          (X, Y) = bit_swap 16 0x0000FFFF (X, Y);
          (X, Y) = bit_swap 4 0x0F0F0F0F (X, Y)
      in (X, Y))"

text \<open>The macro \<^verbatim>\<open>DES_ROUND(X,Y)\<close> with the two subkeys it takes: the new value of \<^verbatim>\<open>Y\<close>.\<close>

definition DES_ROUND :: "u32 \<Rightarrow> u32 \<Rightarrow> u32 \<Rightarrow> u32 \<Rightarrow> u32" where
  "DES_ROUND sk0 sk1 X Y =
     (let T = sk0 XOR X;
          Y = Y XOR (SB8 ! unat (T AND 0x3F) XOR SB6 ! unat (drop_bit 8 T AND 0x3F) XOR
                     SB4 ! unat (drop_bit 16 T AND 0x3F) XOR SB2 ! unat (drop_bit 24 T AND 0x3F));
          T = sk1 XOR (push_bit 28 X OR drop_bit 4 X);
          Y = Y XOR (SB7 ! unat (T AND 0x3F) XOR SB5 ! unat (drop_bit 8 T AND 0x3F) XOR
                     SB3 ! unat (drop_bit 16 T AND 0x3F) XOR SB1 ! unat (drop_bit 24 T AND 0x3F))
      in Y)"

section \<open>The key schedule\<close>

definition LH :: "u32 \<Rightarrow> u32" where
  "LH w = LHs ! unat (w AND 0xF)"

definition RH :: "u32 \<Rightarrow> u32" where
  "RH w = RHs ! unat (w AND 0xF)"

definition des_pc1 :: "u32 \<times> u32 \<Rightarrow> u32 \<times> u32" where
  "des_pc1 p =
     (let (X, Y) = p;
          (Y, X) = bit_swap 4 0x0F0F0F0F (Y, X);
          (Y, X) = bit_swap 0 0x10101010 (Y, X);
          X' = push_bit 3 (LH X) OR push_bit 2 (LH (drop_bit 8 X))
            OR push_bit 1 (LH (drop_bit 16 X)) OR LH (drop_bit 24 X)
            OR push_bit 7 (LH (drop_bit 5 X)) OR push_bit 6 (LH (drop_bit 13 X))
            OR push_bit 5 (LH (drop_bit 21 X)) OR push_bit 4 (LH (drop_bit 29 X));
          Y' = push_bit 3 (RH (drop_bit 1 Y)) OR push_bit 2 (RH (drop_bit 9 Y))
            OR push_bit 1 (RH (drop_bit 17 Y)) OR RH (drop_bit 25 Y)
            OR push_bit 7 (RH (drop_bit 4 Y)) OR push_bit 6 (RH (drop_bit 12 Y))
            OR push_bit 5 (RH (drop_bit 20 Y)) OR push_bit 4 (RH (drop_bit 28 Y))
      in (X' AND 0x0FFFFFFF, Y' AND 0x0FFFFFFF))"

definition des_rotate :: "nat \<Rightarrow> u32 \<Rightarrow> u32" where
  "des_rotate i X =
     (if i < 2 \<or> i = 8 \<or> i = 15
      then (push_bit 1 X OR drop_bit 27 X) AND 0x0FFFFFFF
      else (push_bit 2 X OR drop_bit 26 X) AND 0x0FFFFFFF)"

definition des_subkeys :: "u32 \<Rightarrow> u32 \<Rightarrow> u32 list" where
  "des_subkeys X Y =
     [(push_bit 4 X AND 0x24000000) OR (push_bit 28 X AND 0x10000000) OR (push_bit 14 X AND 0x8000000)
        OR (push_bit 18 X AND 0x2080000) OR (push_bit 6 X AND 0x1000000) OR (push_bit 9 X AND 0x200000)
        OR (drop_bit 1 X AND 0x100000) OR (push_bit 10 X AND 0x40000) OR (push_bit 2 X AND 0x20000)
        OR (drop_bit 10 X AND 0x10000) OR (drop_bit 13 Y AND 0x2000) OR (drop_bit 4 Y AND 0x1000)
        OR (push_bit 6 Y AND 0x800) OR (drop_bit 1 Y AND 0x400) OR (drop_bit 14 Y AND 0x200)
        OR (Y AND 0x100) OR (drop_bit 5 Y AND 0x20) OR (drop_bit 10 Y AND 0x10)
        OR (drop_bit 3 Y AND 0x8) OR (drop_bit 18 Y AND 0x4) OR (drop_bit 26 Y AND 0x2)
        OR (drop_bit 24 Y AND 0x1),
      (push_bit 15 X AND 0x20000000) OR (push_bit 17 X AND 0x10000000) OR (push_bit 10 X AND 0x8000000)
        OR (push_bit 22 X AND 0x4000000) OR (drop_bit 2 X AND 0x2000000) OR (push_bit 1 X AND 0x1000000)
        OR (push_bit 16 X AND 0x200000) OR (push_bit 11 X AND 0x100000) OR (push_bit 3 X AND 0x80000)
        OR (drop_bit 6 X AND 0x40000) OR (push_bit 15 X AND 0x20000) OR (drop_bit 4 X AND 0x10000)
        OR (drop_bit 2 Y AND 0x2000) OR (push_bit 8 Y AND 0x1000) OR (drop_bit 14 Y AND 0x808)
        OR (drop_bit 9 Y AND 0x400) OR (Y AND 0x200) OR (push_bit 7 Y AND 0x100)
        OR (drop_bit 7 Y AND 0x20) OR (drop_bit 3 Y AND 0x11) OR (push_bit 2 Y AND 0x4)
        OR (drop_bit 21 Y AND 0x2)]"

fun des_ks_loop :: "nat list \<Rightarrow> u32 \<Rightarrow> u32 \<Rightarrow> u32 list" where
  "des_ks_loop [] X Y = []"
| "des_ks_loop (i # is) X Y =
     (let X = des_rotate i X; Y = des_rotate i Y in des_subkeys X Y @ des_ks_loop is X Y)"

definition be32_at :: "bytes \<Rightarrow> nat \<Rightarrow> u32" where
  "be32_at b i = get_be32 (b ! i) (b ! (i + 1)) (b ! (i + 2)) (b ! (i + 3))"

definition des_main_ks :: "bytes \<Rightarrow> u32 list" where
  "des_main_ks key = (let (X, Y) = des_pc1 (be32_at key 0, be32_at key 4) in des_ks_loop [0..<16] X Y)"

section \<open>The block cipher\<close>

text \<open>The rounds, two at a time as the source writes them, on \<^verbatim>\<open>(X, Y)\<close>.\<close>

fun des_rounds :: "u32 list \<Rightarrow> u32 \<times> u32 \<Rightarrow> u32 \<times> u32" where
  "des_rounds (k0 # k1 # k2 # k3 # SK) (X, Y) =
     (let X = DES_ROUND k0 k1 Y X; Y = DES_ROUND k2 k3 X Y in des_rounds SK (X, Y))"
| "des_rounds SK (X, Y) = (X, Y)"

definition des_crypt :: "u32 list \<Rightarrow> bytes \<Rightarrow> bytes" where
  "des_crypt SK input =
     (let (X, Y) = DES_IP (be32_at input 0, be32_at input 4);
          (X, Y) = des_rounds SK (X, Y);
          (Y, X) = DES_FP (Y, X)
      in put_be32 Y @ put_be32 X)"

section \<open>The padded mode\<close>

definition des_key :: "bytes \<Rightarrow> u32 list cres" where
  "des_key key = (if length key \<noteq> 8 then LuaError ''Invalid key size'' else Ok (des_main_ks key))"

text \<open>The last block: what is left of the text, the byte \<^verbatim>\<open>0x80\<close>, zeros.\<close>

definition des_tail :: "bytes \<Rightarrow> bytes" where
  "des_tail rest =
     map (\<lambda>j. if j < length rest then rest ! j else if j = length rest then 0x80 else 0) [0..<8]"

function des_encode_loop :: "u32 list \<Rightarrow> bytes \<Rightarrow> bytes" where
  "des_encode_loop SK text =
     (if length text \<ge> 8 then des_crypt SK (take 8 text) @ des_encode_loop SK (drop 8 text)
      else des_crypt SK (des_tail text))"
  by pat_completeness auto
termination by (relation "measure (\<lambda>(SK, text). length text)") auto

definition ldesencode :: "bytes \<Rightarrow> bytes \<Rightarrow> bytes cres" where
  "ldesencode key text = cres_bind (des_key key) (\<lambda>SK. Ok (des_encode_loop SK text))"

text \<open>\<^verbatim>\<open>SK[i] = ESK[30 - i]; SK[i + 1] = ESK[31 - i]\<close>.\<close>

definition des_reverse_keys :: "u32 list \<Rightarrow> u32 list" where
  "des_reverse_keys ESK =
     concat (map (\<lambda>n. let i = 2 * n in [ESK ! (30 - i), ESK ! (31 - i)]) [0..<16])"

function des_decode_loop :: "u32 list \<Rightarrow> bytes \<Rightarrow> bytes" where
  "des_decode_loop SK text =
     (if text = [] then [] else des_crypt SK (take 8 text) @ des_decode_loop SK (drop 8 text))"
  by pat_completeness auto
termination by (relation "measure (\<lambda>(SK, text). length text)") auto

declare des_encode_loop.simps [simp del] and des_decode_loop.simps [simp del]

text \<open>
  The search for the padding. The index is a signed \<^verbatim>\<open>int\<close> and the bound an unsigned
  \<^verbatim>\<open>size_t\<close>: in the comparison a negative index is a huge number, so the loop goes on, and the
  next read is in front of the buffer.
\<close>

function des_unpad_loop :: "bytes \<Rightarrow> int \<Rightarrow> nat \<Rightarrow> nat cres" where
  "des_unpad_loop buffer i padding =
     (if i < 0 then Undefined
      else if i \<ge> int (length buffer) - 8
      then if buffer ! nat i = 0 then des_unpad_loop buffer (i - 1) (padding + 1)
           else if buffer ! nat i = 0x80 then Ok padding
           else LuaError ''Invalid des crypt text''
      else Ok padding)"
  by pat_completeness auto
termination by (relation "measure (\<lambda>(buffer, i, padding). nat (i + 1))") auto

declare des_unpad_loop.simps [simp del]

definition ldesdecode :: "bytes \<Rightarrow> bytes \<Rightarrow> bytes cres" where
  "ldesdecode key text =
     cres_bind (des_key key) (\<lambda>ESK.
       let SK = des_reverse_keys ESK in
       if length text mod 8 \<noteq> 0 \<or> length text = 0 then LuaError ''Invalid des crypt text length''
       else let buffer = des_decode_loop SK text in
            cres_bind (des_unpad_loop buffer (int (length text) - 1) 1) (\<lambda>padding.
              if padding > 8 then LuaError ''Invalid des crypt text''
              else Ok (take (length text - padding) buffer)))"

section \<open>The permutations are inverse to each other\<close>

lemma bit_swap_twice:
  assumes "drop_bit n (push_bit n m) = m"
  shows "bit_swap n m (bit_swap n m p) = p"
proof (cases p)
  case (Pair X Y)
  define T where T: "T = (drop_bit n X XOR Y) AND m"
  have "drop_bit n (push_bit n T) = T"
  proof (rule bit_eqI)
    fix i :: nat
    have "bit m i \<longleftrightarrow> bit (drop_bit n (push_bit n m)) i" using assms by simp
    then show "bit (drop_bit n (push_bit n T)) i \<longleftrightarrow> bit T i"
      by (auto simp: T bit_simps)
  qed
  then have "drop_bit n (X XOR push_bit n T) XOR (Y XOR T) = drop_bit n X XOR Y"
    by (simp add: drop_bit_xor ac_simps)
  then have "bit_swap n m (X XOR push_bit n T, Y XOR T) = (X, Y)"
    unfolding bit_swap_def Let_def prod.case by (simp only: T [symmetric]) (simp add: xor.assoc)
  then show ?thesis by (simp only: Pair bit_swap_def [of n m, THEN fun_cong, of "(X, Y)"] Let_def prod.case T [symmetric])
qed

lemma bit_rotate:
  "bit (rol1 X) i \<longleftrightarrow> (if i = 0 then bit X 31 else i < 32 \<and> bit X (i - 1))"
  "bit (ror1 X) i \<longleftrightarrow> (if i = 31 then bit X 0 else i < 31 \<and> bit X (i + 1))"
proof -
  have m: "w AND 0xFFFFFFFF = w" for w :: u32
  proof -
    have "w AND 0xFFFFFFFF = take_bit 32 w" by (simp only: take_bit_eq_mask mask_eq_exp_minus_1) simp
    also have "\<dots> = w" by (rule take_bit_word_eq_self) simp
    finally show ?thesis .
  qed
  have l: "bit X k \<Longrightarrow> k < 32" for k using bit_imp_le_length [of X k] by simp
  show "bit (rol1 X) i \<longleftrightarrow> (if i = 0 then bit X 31 else i < 32 \<and> bit X (i - 1))"
    unfolding rol1_def m bit_or_iff bit_push_bit_iff bit_drop_bit_eq by (auto dest: l)
  show "bit (ror1 X) i \<longleftrightarrow> (if i = 31 then bit X 0 else i < 31 \<and> bit X (i + 1))"
    unfolding ror1_def m bit_or_iff bit_push_bit_iff bit_drop_bit_eq by (auto dest: l)
qed

lemma rotate_cancel [simp]: "ror1 (rol1 X) = X" "rol1 (ror1 X) = X"
  by (rule bit_eqI, auto simp: bit_rotate dest: bit_imp_le_length)+

lemma DES_IP_comp:
  "DES_IP p = map_prod rol1 id (bit_swap 0 0xAAAAAAAA (map_prod id rol1 (prod.swap
     (bit_swap 8 0x00FF00FF (bit_swap 2 0x33333333 (prod.swap (bit_swap 16 0x0000FFFF (bit_swap 4 0x0F0F0F0F p))))))))"
  by (simp add: DES_IP_def Let_def split: prod.splits)

lemma DES_FP_comp:
  "DES_FP p = bit_swap 4 0x0F0F0F0F (bit_swap 16 0x0000FFFF (prod.swap (bit_swap 2 0x33333333 (bit_swap 8 0x00FF00FF
     (prod.swap (map_prod id ror1 (bit_swap 0 0xAAAAAAAA (map_prod ror1 id p))))))))"
  by (simp add: DES_FP_def Let_def split: prod.splits)

lemma swap_masks:
  "bit_swap 0 0xAAAAAAAA (bit_swap 0 0xAAAAAAAA p) = p"
  "bit_swap 8 0x00FF00FF (bit_swap 8 0x00FF00FF p) = p"
  "bit_swap 2 0x33333333 (bit_swap 2 0x33333333 p) = p"
  "bit_swap 16 0x0000FFFF (bit_swap 16 0x0000FFFF p) = p"
  "bit_swap 4 0x0F0F0F0F (bit_swap 4 0x0F0F0F0F p) = p"
  by (rule bit_swap_twice, code_simp)+

lemma rotate_pairs:
  "map_prod ror1 id (map_prod rol1 id p) = p" "map_prod rol1 id (map_prod ror1 id p) = p"
  "map_prod id ror1 (map_prod id rol1 p) = p" "map_prod id rol1 (map_prod id ror1 p) = p"
  by (cases p, simp)+

lemma DES_FP_IP [simp]: "DES_FP (DES_IP p) = p" and DES_IP_FP [simp]: "DES_IP (DES_FP p) = p"
  unfolding DES_IP_comp DES_FP_comp by (simp_all add: swap_masks rotate_pairs)

section \<open>Rounds with the subkeys reversed\<close>

lemma DES_ROUND_twice [simp]: "DES_ROUND k0 k1 X (DES_ROUND k0 k1 X Y) = Y"
  by (simp add: DES_ROUND_def Let_def ac_simps)

fun rev_pairs :: "'a list \<Rightarrow> 'a list" where
  "rev_pairs (a # b # xs) = rev_pairs xs @ [a, b]"
| "rev_pairs xs = xs"

lemma rev_pairs_append: "even (length xs) \<Longrightarrow> rev_pairs (xs @ [a, b]) = a # b # rev_pairs xs"
  by (induction xs rule: rev_pairs.induct) auto

lemma length_rev_pairs [simp]: "length (rev_pairs xs) = length xs"
  by (induction xs rule: rev_pairs.induct) auto

lemma rev_pairs_twice: "even (length xs) \<Longrightarrow> rev_pairs (rev_pairs xs) = xs"
  by (induction xs rule: rev_pairs.induct) (auto simp: rev_pairs_append)

lemma dvd_4: "4 dvd Suc (Suc (Suc (Suc n))) \<longleftrightarrow> 4 dvd n"
  by presburger

lemma des_rounds_append:
  "4 dvd length ks \<Longrightarrow> des_rounds (ks @ ks') p = des_rounds ks' (des_rounds ks p)"
proof (induction ks p rule: des_rounds.induct)
  case (1 k0 k1 k2 k3 SK X Y)
  then have "4 dvd length SK" by (simp add: dvd_4)
  with 1 show ?case by (simp add: Let_def)
qed (auto dest: dvd_imp_le)

lemma des_rounds_reversed:
  "4 dvd length SK \<Longrightarrow> des_rounds (rev_pairs SK) (prod.swap (des_rounds SK p)) = prod.swap p"
proof (induction SK p rule: des_rounds.induct)
  case (1 k0 k1 k2 k3 SK X Y)
  then have d: "4 dvd length SK" by (simp add: dvd_4)
  then have "4 dvd length (rev_pairs SK)" by simp
  with 1 d show ?case by (simp add: Let_def des_rounds_append [of _ "[_, _, _, _]"])
qed (auto dest: dvd_imp_le)

lemma rev_pairs_nth:
  "length xs = 2 * n \<Longrightarrow>
    concat (map (\<lambda>k. [xs ! (2 * n - 2 - 2 * k), xs ! (2 * n - 1 - 2 * k)]) [0..<n]) = rev_pairs xs"
proof (induction xs arbitrary: n rule: rev_pairs.induct)
  case (1 a b xs)
  then obtain m where m: "n = Suc m" "length xs = 2 * m" by (cases n) auto
  have "(\<lambda>k. [(a # b # xs) ! (2 * n - 2 - 2 * k), (a # b # xs) ! (2 * n - 1 - 2 * k)]) k =
      [xs ! (2 * m - 2 - 2 * k), xs ! (2 * m - 1 - 2 * k)]" if "k < m" for k
    using that m(1) by (auto simp: nth_Cons' Suc_diff_le)
  then have "map (\<lambda>k. [(a # b # xs) ! (2 * n - 2 - 2 * k), (a # b # xs) ! (2 * n - 1 - 2 * k)]) [0..<m] =
      map (\<lambda>k. [xs ! (2 * m - 2 - 2 * k), xs ! (2 * m - 1 - 2 * k)]) [0..<m]" by (intro map_cong) auto
  then have "map (\<lambda>k. [(a # b # xs) ! (2 * n - 2 - 2 * k), (a # b # xs) ! (2 * n - 1 - 2 * k)]) [0..<n] =
      map (\<lambda>k. [xs ! (2 * m - 2 - 2 * k), xs ! (2 * m - 1 - 2 * k)]) [0..<m] @ [[a, b]]"
    by (simp only: m(1) upt_Suc_append map_append) simp
  with 1(1) [OF m(2)] show ?case by (simp only: concat_append) simp
qed auto

lemma des_reverse_keys: "length ESK = 32 \<Longrightarrow> des_reverse_keys ESK = rev_pairs ESK"
  using rev_pairs_nth [of ESK 16] by (simp add: des_reverse_keys_def Let_def)

lemma length_des_ks: "length (des_ks_loop is X Y) = 2 * length is"
  by (induction "is" arbitrary: X Y) (auto simp: Let_def des_subkeys_def)

lemma length_des_main_ks [simp]: "length (des_main_ks key) = 32"
  by (simp add: des_main_ks_def length_des_ks split: prod.split)

section \<open>Blocks\<close>

lemma length_des_crypt [simp]: "length (des_crypt SK b) = 8"
  by (simp add: des_crypt_def put_be32_def split: prod.split)

lemma be32_at_put:
  "be32_at (put_be32 X @ put_be32 Y) 0 = X" "be32_at (put_be32 X @ put_be32 Y) 4 = Y"
  using get_put_be32 [of X] get_put_be32 [of Y] by (simp_all add: be32_at_def put_be32_def)

lemma put_be32_at:
  assumes "length b = 8"
  shows "put_be32 (be32_at b 0) @ put_be32 (be32_at b 4) = b"
proof -
  obtain b0 b1 b2 b3 b4 b5 b6 b7 where "b = [b0, b1, b2, b3, b4, b5, b6, b7]"
    using assms by (auto simp: numeral_eq_Suc length_Suc_conv)
  then show ?thesis by (simp add: be32_at_def put_get_be32)
qed

lemma des_crypt_swap:
  "des_crypt SK b =
     (let p = DES_FP (prod.swap (des_rounds SK (DES_IP (be32_at b 0, be32_at b 4))))
      in put_be32 (fst p) @ put_be32 (snd p))"
  by (simp add: des_crypt_def Let_def split: prod.splits)

lemma des_crypt_inverse:
  assumes "length b = 8" "4 dvd length SK"
  shows "des_crypt (rev_pairs SK) (des_crypt SK b) = b"
  using put_be32_at [OF assms(1)]
  by (simp add: des_crypt_swap [of "rev_pairs SK"] des_crypt_swap [of SK] Let_def be32_at_put des_rounds_reversed assms)

section \<open>Padding\<close>

lemma des_tail_eq:
  assumes "length t < 8"
  shows "des_tail t = t @ 0x80 # replicate (7 - length t) 0"
proof (rule nth_equalityI)
  show "des_tail t ! j = (t @ 0x80 # replicate (7 - length t) 0) ! j" if "j < length (des_tail t)" for j
    using that by (auto simp: des_tail_def nth_append nth_Cons')
qed (use assms in \<open>simp add: des_tail_def\<close>)

lemma des_decode_encode_loop:
  assumes "4 dvd length SK"
  shows "des_decode_loop (rev_pairs SK) (des_encode_loop SK t) = t @ 0x80 # replicate (7 - length t mod 8) 0"
    and "length (des_encode_loop SK t) = length t div 8 * 8 + 8"
proof (induction t rule: measure_induct_rule [of length])
  case (less t)
  have dec: "des_decode_loop (rev_pairs SK) (des_crypt SK b @ rest) = b @ des_decode_loop (rev_pairs SK) rest"
    if "length b = 8" for b rest
  proof -
    have "des_crypt SK b \<noteq> []" using length_des_crypt [of SK b] by (metis list.size(3) zero_neq_numeral)
    with that assms show ?thesis by (subst des_decode_loop.simps) (simp add: des_crypt_inverse)
  qed
  { case 1
    show ?case
    proof (cases "length t \<ge> 8")
      case True
      then have "length (drop 8 t) mod 8 = length t mod 8" by (simp add: le_mod_geq)
      with True less(1) [of "drop 8 t"] show ?thesis
        by (subst des_encode_loop.simps) (simp add: dec flip: append_assoc)
    next
      case False
      then have "length (des_tail t) = 8" by (simp add: des_tail_def)
      with False dec [of "des_tail t" "[]"] show ?thesis
        by (subst des_encode_loop.simps) (simp add: des_decode_loop.simps [of _ "[]"] des_tail_eq)
    qed
  next
    case 2
    show ?case
    proof (cases "length t \<ge> 8")
      case True
      with less(2) [of "drop 8 t"] show ?thesis
        by (subst des_encode_loop.simps) (simp add: le_div_geq [of 8 "length t"])
    qed (subst des_encode_loop.simps, simp)
  }
qed

lemma des_unpad_zeros:
  assumes "buffer = t @ 0x80 # replicate z 0" "z \<le> 7" "d \<le> z"
  shows "des_unpad_loop buffer (int (length t + d)) p = Ok (p + d)"
  using assms(3)
proof (induction d arbitrary: p)
  case 0
  then show ?case using assms by (subst des_unpad_loop.simps) (auto simp: nth_append)
next
  case (Suc d)
  then have "buffer ! (length t + Suc d) = 0" using assms by (simp add: nth_append)
  then have "buffer ! nat (int (length t + Suc d)) = 0" by (simp only: nat_int)
  moreover have "int (length t + Suc d) \<ge> int (length buffer) - 8" using assms by simp
  moreover have eq: "int (Suc (length t + d)) - 1 = int (length t + d)" by simp
  ultimately show ?case using Suc.IH [of "p + 1"] Suc.prems
    by (subst des_unpad_loop.simps) (simp add: eq del: of_nat_add of_nat_Suc nat_int)
qed

lemma des_unpad_Undefined:
  "des_unpad_loop buffer i p = Undefined \<longleftrightarrow>
     i < 0 \<or> length buffer \<le> 8 \<and> (\<forall>j \<le> nat i. buffer ! j = 0)"
proof (induction buffer i p rule: des_unpad_loop.induct)
  case (1 buffer i p)
  have "(\<forall>j \<le> nat i. buffer ! j = 0) \<longleftrightarrow> buffer ! nat i = 0 \<and> (i = 0 \<or> (\<forall>j \<le> nat (i - 1). buffer ! j = 0))" if "i \<ge> 0"
  proof -
    have "j \<le> nat i \<longleftrightarrow> j = nat i \<or> i \<noteq> 0 \<and> j \<le> nat (i - 1)" for j
      using that by (cases "i = 0") auto
    then show ?thesis by auto
  qed
  with 1 show ?case by (subst des_unpad_loop.simps) (auto simp: linorder_not_less)
qed

section \<open>Results\<close>

text \<open>
  C30: with any key of eight bytes, \<^verbatim>\<open>desdecode\<close> gives back every text from what \<^verbatim>\<open>desencode\<close>
  made of it, the padding removed; with any other key both raise the error on its size.
\<close>

theorem des_round_trip:
  "cres_bind (ldesencode key t) (ldesdecode key) =
     (if length key = 8 then Ok t else LuaError ''Invalid key size'')"
proof (cases "length key = 8")
  case True
  let ?SK = "des_main_ks key" and ?z = "7 - length t mod 8"
  let ?buffer = "t @ 0x80 # replicate ?z 0"
  have d: "4 dvd length ?SK" by simp
  have l: "length (des_encode_loop ?SK t) = length t + 1 + ?z"
    using des_decode_encode_loop(2) [OF d, of t] div_mult_mod_eq [of "length t" 8]
      mod_less_divisor [of 8 "length t"] by linarith
  have "length (des_encode_loop ?SK t) mod 8 = 0 \<and> length (des_encode_loop ?SK t) \<noteq> 0"
    by (simp add: des_decode_encode_loop(2) [OF d])
  moreover have "des_unpad_loop ?buffer (int (length (des_encode_loop ?SK t)) - 1) 1 = Ok (1 + ?z)"
  proof -
    have "int (length (des_encode_loop ?SK t)) - 1 = int (length t + ?z)" unfolding l by simp
    then show ?thesis using des_unpad_zeros [of ?buffer t ?z ?z 1] by (simp only: diff_le_self le_refl)
  qed
  ultimately show ?thesis
    using True l by (simp add: ldesencode_def ldesdecode_def des_key_def Let_def des_reverse_keys
        des_decode_encode_loop(1) [OF d])
qed (simp add: ldesencode_def des_key_def)

lemma replicate_iff_nth: "length b = n \<Longrightarrow> b = replicate n x \<longleftrightarrow> (\<forall>j < n. b ! j = x)"
  by (auto simp: list_eq_iff_nth_eq)


end
