(* ===== verification/Crypt_MD5.thy ===== *)
theory Crypt_MD5
  imports Crypt_DH Crypt_Text
begin

text \<open>
  The two MD5 digests of the program and what is built on them. \<^verbatim>\<open>lualib-src/lua-crypt.c\<close> has a
  compression function written as one loop of 64 steps (\<^verbatim>\<open>digest_md5\<close>), used without padding by
  \<^verbatim>\<open>lhmac64\<close>, \<^verbatim>\<open>lhmac64_md5\<close> and \<^verbatim>\<open>lhmac_hash\<close>; \<^verbatim>\<open>3rd/lua-md5/md5.c\<close> has the whole
  MD5, its compression written as four passes of four unrolled steps. The two compressions are
  shown equal, and with them the relation to \<^verbatim>\<open>md5.sum\<close> that the source documents.
\<close>

section \<open>The digest of lua-crypt.c\<close>

type_synonym md5_state = "u32 \<times> u32 \<times> u32 \<times> u32"

definition md5_k :: "u32 list" where
  "md5_k =
     [0xd76aa478, 0xe8c7b756, 0x242070db, 0xc1bdceee, 0xf57c0faf, 0x4787c62a, 0xa8304613, 0xfd469501,
      0x698098d8, 0x8b44f7af, 0xffff5bb1, 0x895cd7be, 0x6b901122, 0xfd987193, 0xa679438e, 0x49b40821,
      0xf61e2562, 0xc040b340, 0x265e5a51, 0xe9b6c7aa, 0xd62f105d, 0x02441453, 0xd8a1e681, 0xe7d3fbc8,
      0x21e1cde6, 0xc33707d6, 0xf4d50d87, 0x455a14ed, 0xa9e3e905, 0xfcefa3f8, 0x676f02d9, 0x8d2a4c8a,
      0xfffa3942, 0x8771f681, 0x6d9d6122, 0xfde5380c, 0xa4beea44, 0x4bdecfa9, 0xf6bb4b60, 0xbebfbc70,
      0x289b7ec6, 0xeaa127fa, 0xd4ef3085, 0x04881d05, 0xd9d4d039, 0xe6db99e5, 0x1fa27cf8, 0xc4ac5665,
      0xf4292244, 0x432aff97, 0xab9423a7, 0xfc93a039, 0x655b59c3, 0x8f0ccc92, 0xffeff47d, 0x85845dd1,
      0x6fa87e4f, 0xfe2ce6e0, 0xa3014314, 0x4e0811a1, 0xf7537e82, 0xbd3af235, 0x2ad7d2bb, 0xeb86d391]"

definition md5_r :: "nat list" where
  "md5_r =
     [7, 12, 17, 22, 7, 12, 17, 22, 7, 12, 17, 22, 7, 12, 17, 22,
      5, 9, 14, 20, 5, 9, 14, 20, 5, 9, 14, 20, 5, 9, 14, 20,
      4, 11, 16, 23, 4, 11, 16, 23, 4, 11, 16, 23, 4, 11, 16, 23,
      6, 10, 15, 21, 6, 10, 15, 21, 6, 10, 15, 21, 6, 10, 15, 21]"

definition LEFTROTATE :: "u32 \<Rightarrow> nat \<Rightarrow> u32" where
  "LEFTROTATE x c = (push_bit c x OR drop_bit (32 - c) x)"

definition digest_md5_step :: "u32 list \<Rightarrow> nat \<Rightarrow> md5_state \<Rightarrow> md5_state" where
  "digest_md5_step w i = (\<lambda>(a, b, c, d).
     (let (f, g) =
            (if i < 16 then ((b AND c) OR (NOT b AND d), i)
             else if i < 32 then ((d AND b) OR (NOT d AND c), (5 * i + 1) mod 16)
             else if i < 48 then (b XOR c XOR d, (3 * i + 5) mod 16)
             else (c XOR (b OR NOT d), (7 * i) mod 16))
      in (d, b + LEFTROTATE (a + f + md5_k ! i + w ! g) (md5_r ! i), b, c)))"

definition digest_md5 :: "u32 list \<Rightarrow> md5_state" where
  "digest_md5 w =
     fold (digest_md5_step w) [0..<64] (0x67452301, 0xefcdab89, 0x98badcfe, 0x10325476)"

definition hmac :: "u32 \<times> u32 \<Rightarrow> u32 \<times> u32 \<Rightarrow> u32 \<times> u32" where
  "hmac x y =
     (let w = concat (replicate 4 [snd x, fst x, snd y, fst y]);
          (r0, r1, r2, r3) = digest_md5 w
      in (r2 XOR r3, r0 XOR r1))"

definition hmac_md5 :: "u32 \<times> u32 \<Rightarrow> u32 \<times> u32 \<Rightarrow> u32 \<times> u32" where
  "hmac_md5 x y =
     (let w = concat (replicate 3 [fst x, snd x, fst y, snd y]) @ [0x80, 0, 384, 0];
          (r0, r1, r2, r3) = digest_md5 w
      in ((r0 + 0x67452301) XOR (r2 + 0x98badcfe), (r1 + 0xefcdab89) XOR (r3 + 0x10325476)))"

definition lhmac64 :: "bytes \<Rightarrow> bytes \<Rightarrow> bytes cres" where
  "lhmac64 s1 s2 = cres_bind (read64 s1 s2) (\<lambda>(x, y). Ok (pushqword (hmac x y)))"

definition lhmac64_md5 :: "bytes \<Rightarrow> bytes \<Rightarrow> bytes cres" where
  "lhmac64_md5 s1 s2 = cres_bind (read64 s1 s2) (\<lambda>(x, y). Ok (pushqword (hmac_md5 x y)))"

definition lhmac_hash :: "bytes \<Rightarrow> bytes \<Rightarrow> bytes cres" where
  "lhmac_hash x t =
     (if length x \<noteq> 8 then LuaError ''Invalid uint64 key''
      else let key = (le32_at x 0, le32_at x 4);
               h = Hash t;
               htext = (le32_at h 0, le32_at h 4)
           in Ok (pushqword (hmac htext key)))"

section \<open>The digest of md5.c\<close>

definition md5_T :: "u32 list" where
  "md5_T =
     [0xd76aa478, 0xe8c7b756, 0x242070db, 0xc1bdceee, 0xf57c0faf, 0x4787c62a, 0xa8304613, 0xfd469501,
      0x698098d8, 0x8b44f7af, 0xffff5bb1, 0x895cd7be, 0x6b901122, 0xfd987193, 0xa679438e, 0x49b40821,
      0xf61e2562, 0xc040b340, 0x265e5a51, 0xe9b6c7aa, 0xd62f105d, 0x02441453, 0xd8a1e681, 0xe7d3fbc8,
      0x21e1cde6, 0xc33707d6, 0xf4d50d87, 0x455a14ed, 0xa9e3e905, 0xfcefa3f8, 0x676f02d9, 0x8d2a4c8a,
      0xfffa3942, 0x8771f681, 0x6d9d6122, 0xfde5380c, 0xa4beea44, 0x4bdecfa9, 0xf6bb4b60, 0xbebfbc70,
      0x289b7ec6, 0xeaa127fa, 0xd4ef3085, 0x04881d05, 0xd9d4d039, 0xe6db99e5, 0x1fa27cf8, 0xc4ac5665,
      0xf4292244, 0x432aff97, 0xab9423a7, 0xfc93a039, 0x655b59c3, 0x8f0ccc92, 0xffeff47d, 0x85845dd1,
      0x6fa87e4f, 0xfe2ce6e0, 0xa3014314, 0x4e0811a1, 0xf7537e82, 0xbd3af235, 0x2ad7d2bb, 0xeb86d391]"

definition md5_rotate :: "u32 \<Rightarrow> nat \<Rightarrow> u32" where
  "md5_rotate D num = (push_bit num D OR drop_bit (32 - num) D)"

definition md5_F :: "u32 \<Rightarrow> u32 \<Rightarrow> u32 \<Rightarrow> u32" where
  "md5_F x y z = ((x AND y) OR (NOT x AND z))"

definition md5_G :: "u32 \<Rightarrow> u32 \<Rightarrow> u32 \<Rightarrow> u32" where
  "md5_G x y z = ((x AND z) OR (y AND NOT z))"

definition md5_H :: "u32 \<Rightarrow> u32 \<Rightarrow> u32 \<Rightarrow> u32" where
  "md5_H x y z = (x XOR y XOR z)"

definition md5_I :: "u32 \<Rightarrow> u32 \<Rightarrow> u32 \<Rightarrow> u32" where
  "md5_I x y z = (y XOR (x OR NOT z))"

text \<open>\<^verbatim>\<open>d = d + f(x,y,z) + m + t; d = rotate(d, s); d += x\<close>.\<close>

definition md5_op :: "(u32 \<Rightarrow> u32 \<Rightarrow> u32 \<Rightarrow> u32) \<Rightarrow> u32 \<Rightarrow> u32 \<Rightarrow> u32 \<Rightarrow> u32 \<Rightarrow> u32 \<Rightarrow> u32 \<Rightarrow> nat \<Rightarrow> u32" where
  "md5_op f d x y z m t s = md5_rotate (d + f x y z + m + t) s + x"

definition md5_passo1 :: "u32 list \<Rightarrow> nat \<Rightarrow> md5_state \<Rightarrow> md5_state" where
  "md5_passo1 m j = (\<lambda>(d0, d1, d2, d3).
     (let d0 = md5_op md5_F d0 d1 d2 d3 (m ! (j)) (md5_T ! (j)) 7;
          d3 = md5_op md5_F d3 d0 d1 d2 (m ! (j + 1)) (md5_T ! (j + 1)) 12;
          d2 = md5_op md5_F d2 d3 d0 d1 (m ! (j + 2)) (md5_T ! (j + 2)) 17;
          d1 = md5_op md5_F d1 d2 d3 d0 (m ! (j + 3)) (md5_T ! (j + 3)) 22
      in (d0, d1, d2, d3)))"

definition md5_passo2 :: "u32 list \<Rightarrow> nat \<Rightarrow> md5_state \<Rightarrow> md5_state" where
  "md5_passo2 m j = (\<lambda>(d0, d1, d2, d3).
     (let d0 = md5_op md5_G d0 d1 d2 d3 (m ! ((5 * j + 1) mod 16)) (md5_T ! (j + 16)) 5;
          d3 = md5_op md5_G d3 d0 d1 d2 (m ! ((5 * (j + 1) + 1) mod 16)) (md5_T ! (j + 17)) 9;
          d2 = md5_op md5_G d2 d3 d0 d1 (m ! ((5 * (j + 2) + 1) mod 16)) (md5_T ! (j + 18)) 14;
          d1 = md5_op md5_G d1 d2 d3 d0 (m ! ((5 * (j + 3) + 1) mod 16)) (md5_T ! (j + 19)) 20
      in (d0, d1, d2, d3)))"

definition md5_passo3 :: "u32 list \<Rightarrow> nat \<Rightarrow> md5_state \<Rightarrow> md5_state" where
  "md5_passo3 m j = (\<lambda>(d0, d1, d2, d3).
     (let d0 = md5_op md5_H d0 d1 d2 d3 (m ! ((3 * j + 5) mod 16)) (md5_T ! (j + 32)) 4;
          d3 = md5_op md5_H d3 d0 d1 d2 (m ! ((3 * (j + 1) + 5) mod 16)) (md5_T ! (j + 33)) 11;
          d2 = md5_op md5_H d2 d3 d0 d1 (m ! ((3 * (j + 2) + 5) mod 16)) (md5_T ! (j + 34)) 16;
          d1 = md5_op md5_H d1 d2 d3 d0 (m ! ((3 * (j + 3) + 5) mod 16)) (md5_T ! (j + 35)) 23
      in (d0, d1, d2, d3)))"

definition md5_passo4 :: "u32 list \<Rightarrow> nat \<Rightarrow> md5_state \<Rightarrow> md5_state" where
  "md5_passo4 m j = (\<lambda>(d0, d1, d2, d3).
     (let d0 = md5_op md5_I d0 d1 d2 d3 (m ! ((7 * j) mod 16)) (md5_T ! (j + 48)) 6;
          d3 = md5_op md5_I d3 d0 d1 d2 (m ! ((7 * (j + 1)) mod 16)) (md5_T ! (j + 49)) 10;
          d2 = md5_op md5_I d2 d3 d0 d1 (m ! ((7 * (j + 2)) mod 16)) (md5_T ! (j + 50)) 15;
          d1 = md5_op md5_I d1 d2 d3 d0 (m ! ((7 * (j + 3)) mod 16)) (md5_T ! (j + 51)) 21
      in (d0, d1, d2, d3)))"

definition md5_digest :: "u32 list \<Rightarrow> md5_state \<Rightarrow> md5_state" where
  "md5_digest m d =
     (let js = [0, 4, 8, 12];
          d = fold (md5_passo1 m) js d;
          d = fold (md5_passo2 m) js d;
          d = fold (md5_passo3 m) js d
      in fold (md5_passo4 m) js d)"

definition inic_digest :: md5_state where
  "inic_digest = (0x67452301, 0xEFCDAB89, 0x98BADCFE, 0x10325476)"

definition word32tobytes :: "md5_state \<Rightarrow> bytes" where
  "word32tobytes d = (let (d0, d1, d2, d3) = d in put_le32 d0 @ put_le32 d1 @ put_le32 d2 @ put_le32 d3)"

definition bytestoword32 :: "bytes \<Rightarrow> u32 list" where
  "bytestoword32 pt =
     map (\<lambda>i. let j = i * 4 in
       push_bit 8 (push_bit 8 (push_bit 8 (ucast (pt ! (j + 3))) OR ucast (pt ! (j + 2))) OR ucast (pt ! (j + 1)))
         OR ucast (pt ! j)) [0..<16]"

definition put_length :: "u32 list \<Rightarrow> nat \<Rightarrow> u32 list" where
  "put_length x len =
     (let x = x[14 := of_nat (len * 8) AND 0xFFFFFFFF] in x[15 := of_nat (len div 2 ^ 29) AND 7])"

definition converte :: "bytes \<Rightarrow> nat \<Rightarrow> nat \<Rightarrow> u32 list \<times> nat" where
  "converte pt num old_status =
     (let pt' =
            (if num < 64
             then let buff = take num pt @ replicate (64 - num) 0
                  in (if old_status = 0 then buff[num := 0x80] else buff)
             else take 64 pt);
          new_status = (if num < 64 then 1 else 0);
          new_status = (if num \<le> 64 - 9 then 2 else new_status)
      in (bytestoword32 pt', new_status))"

definition md5_add :: "md5_state \<Rightarrow> md5_state \<Rightarrow> md5_state" where
  "md5_add = (\<lambda>(d0, d1, d2, d3) (o0, o1, o2, o3). (d0 + o0, d1 + o1, d2 + o2, d3 + o3))"

function md5_loop :: "bytes \<Rightarrow> nat \<Rightarrow> nat \<Rightarrow> md5_state \<Rightarrow> md5_state" where
  "md5_loop message i status d =
     (let len = length message;
          numbytes = (if len - i \<ge> 64 then 64 else len - i);
          (wbuff, status) = converte (drop i message) numbytes status;
          wbuff = (if status = 2 then put_length wbuff len else wbuff);
          d = md5_add (md5_digest wbuff d) d
      in if status \<noteq> 2 then md5_loop message (i + numbytes) status d else d)"
  by pat_completeness auto
termination
  by (relation "measure (\<lambda>(message, i, status, d). length message - i)")
    (auto simp: converte_def Let_def split: if_splits)

declare md5_loop.simps [simp del]

definition md5 :: "bytes \<Rightarrow> bytes" where
  "md5 message = word32tobytes (md5_loop message 0 0 inic_digest)"

section \<open>The two compressions agree\<close>

lemma md5_k_T: "md5_k = md5_T"
  by (simp add: md5_k_def md5_T_def)

lemma md5_op_LEFTROTATE: "md5_op f d x y z m t s = x + LEFTROTATE (d + f x y z + t + m) s"
  by (simp add: md5_op_def md5_rotate_def LEFTROTATE_def ac_simps)

lemma digest_md5_step_F:
  "i < 16 \<Longrightarrow> digest_md5_step w i (a, b, c, d) = (d, md5_op md5_F a b c d (w ! i) (md5_T ! i) (md5_r ! i), b, c)"
  by (simp add: digest_md5_step_def md5_op_LEFTROTATE md5_F_def md5_k_T)

lemma digest_md5_step_G:
  "16 \<le> i \<Longrightarrow> i < 32 \<Longrightarrow>
    digest_md5_step w i (a, b, c, d) = (d, md5_op md5_G a b c d (w ! ((5 * i + 1) mod 16)) (md5_T ! i) (md5_r ! i), b, c)"
  by (simp add: digest_md5_step_def md5_op_LEFTROTATE md5_G_def md5_k_T and.commute)

lemma digest_md5_step_H:
  "32 \<le> i \<Longrightarrow> i < 48 \<Longrightarrow>
    digest_md5_step w i (a, b, c, d) = (d, md5_op md5_H a b c d (w ! ((3 * i + 5) mod 16)) (md5_T ! i) (md5_r ! i), b, c)"
  by (simp add: digest_md5_step_def md5_op_LEFTROTATE md5_H_def md5_k_T)

lemma digest_md5_step_I:
  "48 \<le> i \<Longrightarrow>
    digest_md5_step w i (a, b, c, d) = (d, md5_op md5_I a b c d (w ! ((7 * i) mod 16)) (md5_T ! i) (md5_r ! i), b, c)"
  by (simp add: digest_md5_step_def md5_op_LEFTROTATE md5_I_def md5_k_T)

lemma digest_quads_F:
  "fold (digest_md5_step w) [0, 1, 2, 3] = md5_passo1 w 0"
  "fold (digest_md5_step w) [4, 5, 6, 7] = md5_passo1 w 4"
  "fold (digest_md5_step w) [8, 9, 10, 11] = md5_passo1 w 8"
  "fold (digest_md5_step w) [12, 13, 14, 15] = md5_passo1 w 12"
  by (rule ext, simp add: digest_md5_step_F md5_passo1_def md5_r_def numeral_2_eq_2 Let_def split: prod.split)+

lemma digest_quads_G:
  "fold (digest_md5_step w) [16, 17, 18, 19] = md5_passo2 w 0"
  "fold (digest_md5_step w) [20, 21, 22, 23] = md5_passo2 w 4"
  "fold (digest_md5_step w) [24, 25, 26, 27] = md5_passo2 w 8"
  "fold (digest_md5_step w) [28, 29, 30, 31] = md5_passo2 w 12"
  by (rule ext, simp add: digest_md5_step_G md5_passo2_def md5_r_def numeral_2_eq_2 Let_def split: prod.split)+

lemma digest_quads_H:
  "fold (digest_md5_step w) [32, 33, 34, 35] = md5_passo3 w 0"
  "fold (digest_md5_step w) [36, 37, 38, 39] = md5_passo3 w 4"
  "fold (digest_md5_step w) [40, 41, 42, 43] = md5_passo3 w 8"
  "fold (digest_md5_step w) [44, 45, 46, 47] = md5_passo3 w 12"
  by (rule ext, simp add: digest_md5_step_H md5_passo3_def md5_r_def numeral_2_eq_2 Let_def split: prod.split)+

lemma digest_quads_I:
  "fold (digest_md5_step w) [48, 49, 50, 51] = md5_passo4 w 0"
  "fold (digest_md5_step w) [52, 53, 54, 55] = md5_passo4 w 4"
  "fold (digest_md5_step w) [56, 57, 58, 59] = md5_passo4 w 8"
  "fold (digest_md5_step w) [60, 61, 62, 63] = md5_passo4 w 12"
  by (rule ext, simp add: digest_md5_step_I md5_passo4_def md5_r_def numeral_2_eq_2 Let_def split: prod.split)+

lemma digest_md5_eq: "digest_md5 w = md5_digest w inic_digest"
proof -
  have "[0..<64] = [0, 1, 2, 3] @ [4, 5, 6, 7] @ [8, 9, 10, 11] @ [12, 13, 14, 15] @ [16, 17, 18, 19] @
      [20, 21, 22, 23] @ [24, 25, 26, 27] @ [28, 29, 30, 31] @ [32, 33, 34, 35] @ [36, 37, 38, 39] @
      [40, 41, 42, 43] @ [44, 45, 46, 47] @ [48, 49, 50, 51] @ [52, 53, 54, 55] @ [56, 57, 58, 59] @ [60, 61, 62, 63]"
    by code_simp
  then show ?thesis
    by (simp only: digest_md5_def md5_digest_def Let_def inic_digest_def fold_append comp_apply
        digest_quads_F digest_quads_G digest_quads_H digest_quads_I fold_simps)
qed

section \<open>The documented relation of the two\<close>

lemma bytestoword32_word:
  "push_bit 8 (push_bit 8 (push_bit 8 (ucast d) OR ucast c) OR ucast b) OR ucast (a :: u8) = get_le32 a b c d"
  by (simp add: get_le32_def push_bit_or push_bit_push_bit ac_simps)

lemma pushqword_put: "pushqword (x, y) = put_le32 x @ put_le32 y"
  by (simp add: pushqword_def put_le32_def ucast_and_ff)

lemma length_put_le32 [simp]: "length (put_le32 w) = 4"
  by (simp add: put_le32_def)

lemma length_word32tobytes: "length (word32tobytes d) = 16"
  by (simp add: word32tobytes_def split: prod.split)

lemma lxor_str_map2:
  assumes "length s = length t" "t \<noteq> []"
  shows "lxor_str s t = Ok (map2 (XOR) s t)"
  using assms by (auto simp: lxor_str_def intro: nth_equalityI)

lemma md5_48:
  assumes "length s = 48"
  shows "md5 s = word32tobytes (md5_add (md5_digest (put_length (bytestoword32 (s @ 0x80 # replicate 15 0)) 48) inic_digest) inic_digest)"
proof -
  have "(s @ replicate 16 0)[48 := 0x80] = s @ 0x80 # replicate 15 (0 :: u8)"
    using assms by (simp add: list_update_append replicate_Suc [of 15, simplified] numeral_eq_Suc)
  then show ?thesis using assms
    by (subst md5_def, subst md5_loop.simps) (simp add: converte_def Let_def)
qed

lemma eight_bytes: "length b = 8 \<Longrightarrow> \<exists>b0 b1 b2 b3 b4 b5 b6 b7. b = [b0, b1, b2, b3, b4, b5, b6, b7]"
  by (auto simp: numeral_eq_Suc length_Suc_conv)

lemma md5_48_block:
  assumes "length a = 8" "length b = 8"
  shows "put_length (bytestoword32 (concat (replicate 3 (a @ b)) @ 0x80 # replicate 15 0)) 48 =
    concat (replicate 3 [le32_at a 0, le32_at a 4, le32_at b 0, le32_at b 4]) @ [0x80, 0, 384, 0]"
proof -
  obtain a0 a1 a2 a3 a4 a5 a6 a7 where a: "a = [a0, a1, a2, a3, a4, a5, a6, a7]"
    using eight_bytes [OF assms(1)] by blast
  obtain b0 b1 b2 b3 b4 b5 b6 b7 where b: "b = [b0, b1, b2, b3, b4, b5, b6, b7]"
    using eight_bytes [OF assms(2)] by blast
  have r: "replicate 15 (0 :: u8) = [0,0,0,0,0,0,0,0,0,0,0,0,0,0,0]" by (simp add: numeral_eq_Suc)
  have u: "[0..<16] = [0,1,2,3,4,5,6,7,8,9,10,11,12,13,14,15]" by (simp add: upt_conv_Cons)
  have t: "replicate 3 x = [x, x, x]" for x :: "'x list" by (simp add: numeral_3_eq_3)
  show ?thesis
    unfolding a b bytestoword32_def put_length_def Let_def bytestoword32_word r u t
    by (simp add: le32_at_def) (simp add: get_le32_def)
qed

text \<open>
  C32: the comment on \<^verbatim>\<open>lhmac64_md5\<close> holds: for two strings of eight bytes the result is the
  exclusive-or of the two halves of the MD5, as \<^verbatim>\<open>md5.c\<close> computes it with its padding, of their
  concatenation repeated three times; the two compression functions of the program agree.
\<close>

theorem hmac64_md5_documented:
  assumes "length a = 8" "length b = 8"
  shows "lhmac64_md5 a b = (let m = md5 (concat (replicate 3 (a @ b))) in lxor_str (take 8 m) (drop 8 m))"
proof -
  let ?w = "concat (replicate 3 [le32_at a 0, le32_at a 4, le32_at b 0, le32_at b 4]) @ [0x80, 0, 384, 0]"
  obtain r0 r1 r2 r3 where r: "digest_md5 ?w = (r0, r1, r2, r3)" by (cases "digest_md5 ?w") auto
  let ?d0 = "r0 + 0x67452301" and ?d1 = "r1 + 0xefcdab89" and ?d2 = "r2 + 0x98badcfe" and ?d3 = "r3 + 0x10325476"
  have "length (concat (replicate 3 (a @ b))) = 48" using assms by (simp add: numeral_3_eq_3)
  then have m: "md5 (concat (replicate 3 (a @ b))) = put_le32 ?d0 @ put_le32 ?d1 @ put_le32 ?d2 @ put_le32 ?d3"
    using r by (simp add: md5_48 md5_48_block assms digest_md5_eq [symmetric])
      (simp add: md5_add_def inic_digest_def word32tobytes_def)
  have "lhmac64_md5 a b = Ok (pushqword (?d0 XOR ?d2, ?d1 XOR ?d3))"
    using assms r by (simp add: lhmac64_md5_def read64_def hmac_md5_def)
  also have "\<dots> = lxor_str (put_le32 ?d0 @ put_le32 ?d1) (put_le32 ?d2 @ put_le32 ?d3)"
    by (subst lxor_str_map2) (auto simp: pushqword_put put_le32_xor simp flip: length_0_conv)
  finally show ?thesis unfolding m by (simp add: Let_def)
qed

theorem hmac64_md5_documented_witness:
  "lhmac64_md5 [1,2,3,4,5,6,7,8] [9,8,7,6,5,4,3,2] =
    (let m = md5 (concat (replicate 3 ([1,2,3,4,5,6,7,8] @ [9,8,7,6,5,4,3,2]))) in lxor_str (take 8 m) (drop 8 m))"
  using hmac64_md5_documented [of "[1,2,3,4,5,6,7,8]" "[9,8,7,6,5,4,3,2]"] by simp

end
