(* ===== verification/Crypt_SHA1.thy ===== *)
theory Crypt_SHA1
  imports Lua_Result
begin

text \<open>
  SHA-1 of \<^verbatim>\<open>lualib-src/lsha1.c\<close>: the unrolled compression with its circular message schedule
  (\<^verbatim>\<open>SHA1_Transform\<close>), the streaming context (\<^verbatim>\<open>sat_SHA1_Init\<close>, \<^verbatim>\<open>sat_SHA1_Update\<close>,
  \<^verbatim>\<open>sat_SHA1_Final\<close>), \<^verbatim>\<open>lsha1\<close> and \<^verbatim>\<open>lhmac_sha1\<close>; on a little-endian machine. The reference
  is the standard: a padded message cut in blocks, an 80-word schedule, 80 equal rounds.
\<close>

section \<open>The compression\<close>

type_synonym sha1_state = "u32 \<times> u32 \<times> u32 \<times> u32 \<times> u32"

definition rol :: "u32 \<Rightarrow> nat \<Rightarrow> u32" where
  "rol v bits = (push_bit bits v OR drop_bit (32 - bits) v)"

text \<open>The macros \<^verbatim>\<open>blk0\<close> and \<^verbatim>\<open>blk\<close> have a value and store it in the block.\<close>

definition blk0 :: "u32 list \<Rightarrow> nat \<Rightarrow> u32 \<times> u32 list" where
  "blk0 l i =
     (let v = (rol (l ! i) 24 AND 0xFF00FF00) OR (rol (l ! i) 8 AND 0x00FF00FF) in (v, l[i := v]))"

definition blk :: "u32 list \<Rightarrow> nat \<Rightarrow> u32 \<times> u32 list" where
  "blk l i =
     (let v = rol (l ! ((i + 13) mod 16) XOR l ! ((i + 8) mod 16) XOR l ! ((i + 2) mod 16) XOR l ! (i mod 16)) 1
      in (v, l[i mod 16 := v]))"

text \<open>
  One of the macros \<^verbatim>\<open>R0\<close> to \<^verbatim>\<open>R4\<close> on \<^verbatim>\<open>(v, w, x, y, z)\<close>; the call that follows names the
  variables one place further, so the result is \<^verbatim>\<open>(z, v, w, x, y)\<close> with \<^verbatim>\<open>z\<close> and \<^verbatim>\<open>w\<close> updated.
\<close>

definition SHA1_R :: "nat \<Rightarrow> sha1_state \<times> u32 list \<Rightarrow> sha1_state \<times> u32 list" where
  "SHA1_R i = (\<lambda>((v, w, x, y, z), l).
     (let (b, l) = (if i < 16 then blk0 l i else blk l i);
          z = z + (if i < 20 then ((w AND (x XOR y)) XOR y) + b + 0x5A827999 + rol v 5
                   else if i < 40 then (w XOR x XOR y) + b + 0x6ED9EBA1 + rol v 5
                   else if i < 60 then (((w OR x) AND y) OR (w AND x)) + b + 0x8F1BBCDC + rol v 5
                   else (w XOR x XOR y) + b + 0xCA62C1D6 + rol v 5);
          w = rol w 30
      in ((z, v, w, x, y), l)))"

definition sha1_block :: "bytes \<Rightarrow> u32 list" where
  "sha1_block c = map (\<lambda>i. get_le32 (c ! (4 * i)) (c ! (4 * i + 1)) (c ! (4 * i + 2)) (c ! (4 * i + 3))) [0..<16]"

definition sha1_add :: "sha1_state \<Rightarrow> sha1_state \<Rightarrow> sha1_state" where
  "sha1_add = (\<lambda>(s0, s1, s2, s3, s4) (a, b, c, d, e). (s0 + a, s1 + b, s2 + c, s3 + d, s4 + e))"

definition SHA1_Transform :: "sha1_state \<Rightarrow> bytes \<Rightarrow> sha1_state" where
  "SHA1_Transform state buffer =
     sha1_add state (fst (fold SHA1_R [0..<80] (state, sha1_block buffer)))"

section \<open>The context\<close>

record SHA1_CTX =
  ctx_state :: sha1_state
  ctx_count :: "u32 \<times> u32"
  ctx_buffer :: bytes

definition SHA1_DIGEST_SIZE :: nat where
  "SHA1_DIGEST_SIZE = 20"

text \<open>The buffer is not initialised: it keeps what the memory held.\<close>

definition sat_SHA1_Init :: "SHA1_CTX \<Rightarrow> SHA1_CTX" where
  "sat_SHA1_Init context = context\<lparr>
     ctx_state := (0x67452301, 0xEFCDAB89, 0x98BADCFE, 0x10325476, 0xC3D2E1F0),
     ctx_count := (0, 0)\<rparr>"

text \<open>\<^verbatim>\<open>memcpy(&buffer[j], data, n)\<close> into the buffer.\<close>

definition buffer_copy :: "bytes \<Rightarrow> nat \<Rightarrow> bytes \<Rightarrow> bytes" where
  "buffer_copy buffer j data = take j buffer @ data @ drop (j + length data) buffer"

function sha1_blocks_loop :: "sha1_state \<Rightarrow> bytes \<Rightarrow> nat \<Rightarrow> sha1_state \<times> nat" where
  "sha1_blocks_loop state data i =
     (if i + 63 < length data
      then sha1_blocks_loop (SHA1_Transform state (take 64 (drop i data))) data (i + 64)
      else (state, i))"
  by pat_completeness auto
termination by (relation "measure (\<lambda>(state, data, i). length data - i)") auto

declare sha1_blocks_loop.simps [simp del]

text \<open>
  The count of bits: \<^verbatim>\<open>len << 3\<close> is a 64-bit \<^verbatim>\<open>size_t\<close>, the sum is stored in 32 bits, and the
  stored sum is compared with the 64-bit value.
\<close>

definition sha1_count :: "u32 \<times> u32 \<Rightarrow> nat \<Rightarrow> u32 \<times> u32" where
  "sha1_count count len =
     (let bits = push_bit 3 (of_nat len :: u64);
          c0 = ucast (ucast (fst count) + bits) :: u32;
          c1 = (if ucast c0 < bits then snd count + 1 else snd count)
      in (c0, c1 + ucast (drop_bit 29 (of_nat len :: u64))))"

definition sat_SHA1_Update :: "SHA1_CTX \<Rightarrow> bytes \<Rightarrow> SHA1_CTX" where
  "sat_SHA1_Update context data =
     (let len = length data;
          j = unat (drop_bit 3 (fst (ctx_count context)) AND 63);
          count = sha1_count (ctx_count context) len;
          (state, buffer, i, j) =
            (if j + len > 63
             then let i = 64 - j;
                      buffer = buffer_copy (ctx_buffer context) j (take i data);
                      state = SHA1_Transform (ctx_state context) buffer;
                      (state, i) = sha1_blocks_loop state data i
                  in (state, buffer, i, 0)
             else (ctx_state context, ctx_buffer context, 0, j));
          buffer = buffer_copy buffer j (drop i data)
      in context\<lparr>ctx_state := state, ctx_count := count, ctx_buffer := buffer\<rparr>)"

definition sha1_finalcount :: "u32 \<times> u32 \<Rightarrow> bytes" where
  "sha1_finalcount count =
     map (\<lambda>i. ucast (drop_bit ((3 - i mod 4) * 8) (if i \<ge> 4 then fst count else snd count) AND 255)) [0..<8]"

text \<open>The number of bits as the two words of the context, the low one first.\<close>

definition count_of :: "nat \<Rightarrow> u32 \<times> u32" where
  "count_of n = (of_nat (8 * n), of_nat (8 * n div 2 ^ 32))"

lemma carry_nat:
  fixes a b M :: nat
  assumes "a < M" "b < M"
  shows "(a + b) mod M < b \<longleftrightarrow> M \<le> a + b" "(a + b) div M = (if M \<le> a + b then 1 else 0)"
proof -
  have "(a + b) mod M = (if M \<le> a + b then a + b - M else a + b)"
    using assms by (auto simp: le_mod_geq)
  then show "(a + b) mod M < b \<longleftrightarrow> M \<le> a + b" using assms by auto
  show "(a + b) div M = (if M \<le> a + b then 1 else 0)"
    using assms by (auto simp: le_div_geq)
qed

lemma unat_ucast_32_64: "unat (ucast (w :: u32) :: u64) = unat w"
proof -
  have "unat w < 2 ^ LENGTH(32)" by (rule unsigned_less)
  then have "unat w mod 2 ^ 64 = unat w" by simp
  then show ?thesis by (simp only: unsigned_ucast_eq take_bit_eq_mod) simp
qed

lemma ucast_of_nat_64: "(ucast (of_nat n :: u64) :: u32) = of_nat n"
proof -
  have "(2 :: nat) ^ 32 dvd 2 ^ 64" by (rule le_imp_power_dvd) simp
  then have "n mod 2 ^ 64 mod 2 ^ 32 = n mod 2 ^ 32" by (rule mod_mod_cancel)
  then have "unat (ucast (of_nat n :: u64) :: u32) = unat (of_nat n :: u32)"
    by (simp only: unsigned_ucast_eq take_bit_eq_mod unat_of_nat) simp
  then show ?thesis by (simp add: word_unat_eq_iff)
qed

lemma fst_sha1_count: "fst (sha1_count count len) = fst count + of_nat (8 * len)"
proof -
  have "ucast (fst count) + push_bit 3 (of_nat len) = (of_nat (unat (fst count) + 8 * len) :: u64)"
    by (simp add: push_bit_eq_mult mult.commute)
  then show ?thesis
    by (simp only: sha1_count_def Let_def fst_conv ucast_of_nat_64) simp
qed

lemma sha1_count_of:
  assumes "len < 2 ^ 29"
  shows "sha1_count (count_of n) len = count_of (n + len)"
proof -
  let ?c = "of_nat (8 * n) :: u32" and ?s = "of_nat (8 * (n + len)) :: u32"
  have c0: "fst (sha1_count (count_of n) len) = ?s"
    by (simp only: fst_sha1_count) (simp add: count_of_def distrib_left)
  have b: "unat (push_bit 3 (of_nat len :: u64)) = 8 * len"
  proof -
    have "push_bit 3 (of_nat len :: u64) = of_nat (8 * len)" by (simp add: push_bit_eq_mult mult.commute)
    then show ?thesis using assms by (simp only: unat_of_nat) simp
  qed
  have s: "unat ?s = (8 * n + 8 * len) mod 2 ^ 32" by (simp only: unat_of_nat distrib_left) simp
  have carry: "(ucast ?s :: u64) < push_bit 3 (of_nat len) \<longleftrightarrow> (8 * n) mod 2 ^ 32 + 8 * len \<ge> 2 ^ 32"
  proof -
    have "(ucast ?s :: u64) < push_bit 3 (of_nat len) \<longleftrightarrow> ((8 * n) mod 2 ^ 32 + 8 * len) mod 2 ^ 32 < 8 * len"
      by (simp only: word_less_nat_alt b unat_ucast_32_64 s mod_add_left_eq)
    moreover have "8 * len < 2 ^ 32" using assms by simp
    moreover have "(8 * n) mod 2 ^ 32 < 2 ^ 32" by (rule mod_less_divisor) simp
    ultimately show ?thesis by (simp only: carry_nat)
  qed
  have h: "(ucast (drop_bit 29 (of_nat len :: u64)) :: u32) = 0"
  proof -
    have "unat (of_nat len :: u64) = len" using assms by (simp only: unat_of_nat) simp
    then have "unat (drop_bit 29 (of_nat len :: u64)) = 0" using assms unfolding unat_drop_bit by simp
    then show ?thesis by (simp add: unat_eq_0)
  qed
  have "8 * (n + len) div 2 ^ 32 = 8 * n div 2 ^ 32 + (if (8 * n) mod 2 ^ 32 + 8 * len \<ge> 2 ^ 32 then 1 else 0)"
  proof -
    have "8 * (n + len) = 8 * n div 2 ^ 32 * 2 ^ 32 + ((8 * n) mod 2 ^ 32 + 8 * len)"
      using div_mult_mod_eq [of "8 * n" "2 ^ 32"] by simp
    then have "8 * (n + len) div 2 ^ 32 = 8 * n div 2 ^ 32 + ((8 * n) mod 2 ^ 32 + 8 * len) div 2 ^ 32"
      by (simp only: div_mult_self3) simp
    moreover have "8 * len < 2 ^ 32" "(8 * n) mod 2 ^ 32 < 2 ^ 32" using assms by (simp_all add: mod_less_divisor)
    then have "((8 * n) mod 2 ^ 32 + 8 * len) div 2 ^ 32 = (if (8 * n) mod 2 ^ 32 + 8 * len \<ge> 2 ^ 32 then 1 else 0)"
      by (simp only: carry_nat)
    ultimately show ?thesis by simp
  qed
  then have "snd (sha1_count (count_of n) len) = of_nat (8 * (n + len) div 2 ^ 32)"
    using c0 carry h by (simp add: sha1_count_def Let_def count_of_def)
  with c0 show ?thesis by (simp add: count_of_def prod_eq_iff)
qed

section \<open>Padding\<close>

text \<open>The byte position in the block that a count of bits stands for.\<close>

lemma count_position: "unat (drop_bit 3 c AND 63) = unat c div 8 mod 64" for c :: u32
proof -
  have "drop_bit 3 c AND 63 = take_bit 6 (drop_bit 3 c)" by (simp add: take_bit_eq_mask mask_eq_exp_minus_1)
  then show ?thesis by (simp only: unat_take_bit unat_drop_bit) simp
qed

lemma push_bit_3_inj: "push_bit 3 v = push_bit 3 w \<longleftrightarrow> v = w"
  if "take_bit 6 v = v" "take_bit 6 w = w" for v w :: u32
proof
  assume "push_bit 3 v = push_bit 3 w"
  moreover have "drop_bit 3 (push_bit 3 (take_bit 6 u)) = take_bit 6 u" for u :: u32
    by (rule bit_eqI) (auto simp: bit_simps)
  ultimately show "v = w" using that by metis
qed simp

lemma count_mask: "(c AND 504 = 448) \<longleftrightarrow> unat c div 8 mod 64 = 56" for c :: u32
proof -
  let ?t = "take_bit 6 (drop_bit 3 c)"
  have "(504 :: u32) = push_bit 3 (mask 6)" "(448 :: u32) = push_bit 3 56" "take_bit 6 (56 :: u32) = 56" by code_simp+
  moreover have "c AND push_bit 3 (mask 6) = push_bit 3 ?t" by (rule bit_eqI) (auto simp: bit_simps)
  moreover have "take_bit 6 ?t = ?t" by (simp only: take_bit_take_bit min.idem)
  ultimately have "c AND 504 = 448 \<longleftrightarrow> ?t = 56" by (simp only: push_bit_3_inj)
  also have "\<dots> \<longleftrightarrow> unat ?t = 56" by (simp add: word_unat_eq_iff)
  finally show ?thesis by (simp only: unat_take_bit unat_drop_bit) simp
qed

lemma div_mod_512: "n mod 2 ^ 32 div 8 mod 64 = n div 8 mod 64" for n :: nat
proof -
  have "x div 8 mod 64 = x mod 512 div 8" for x :: nat
    using mod_mult2_eq [of x 8 64] by simp
  moreover have "(2 :: nat) ^ 9 dvd 2 ^ 32" by (rule le_imp_power_dvd) simp
  then have "n mod 2 ^ 32 mod 2 ^ 9 = n mod 2 ^ 9" by (rule mod_mod_cancel)
  ultimately show ?thesis by simp
qed

lemma count_position_add: "unat (c + 8) div 8 mod 64 = (unat c div 8 mod 64 + 1) mod 64" for c :: u32
proof -
  have "unat (c + 8) = (unat c + 8) mod 2 ^ 32" by (simp add: unat_word_ariths)
  then have "unat (c + 8) div 8 mod 64 = (unat c + 8) div 8 mod 64" by (simp only: div_mod_512)
  moreover have "(unat c + 8) div 8 = unat c div 8 + 1" by simp
  ultimately show ?thesis by (simp only: mod_add_left_eq)
qed

lemma ctx_count_Update: "ctx_count (sat_SHA1_Update c d) = sha1_count (ctx_count c) (length d)"
  by (simp add: sat_SHA1_Update_def Let_def split: prod.split)

function sha1_pad_loop :: "SHA1_CTX \<Rightarrow> SHA1_CTX" where
  "sha1_pad_loop context =
     (if fst (ctx_count context) AND 504 \<noteq> 448 then sha1_pad_loop (sat_SHA1_Update context [0])
      else context)"
  by pat_completeness auto
termination
proof (relation "measure (\<lambda>c. (120 - unat (fst (ctx_count c)) div 8 mod 64) mod 64)")
  fix c :: SHA1_CTX
  let ?p = "unat (fst (ctx_count c)) div 8 mod 64"
  assume "fst (ctx_count c) AND 504 \<noteq> 448"
  then have "?p \<noteq> 56" by (simp only: count_mask) simp
  moreover have "?p < 64" by simp
  moreover have "(120 - (p + 1) mod 64) mod 64 < (120 - p) mod 64" if ne: "p \<noteq> 56" and lt: "p < 64" for p :: nat
  proof -
    consider "p < 56" | "56 < p" "p < 63" | "p = 63" using ne lt by linarith
    then show ?thesis by cases (simp_all add: le_mod_geq)
  qed
  moreover have "unat (fst (ctx_count (sat_SHA1_Update c [0]))) div 8 mod 64 = (?p + 1) mod 64"
    using count_position_add [of "fst (ctx_count c)"] by (simp add: ctx_count_Update fst_sha1_count)
  ultimately show "(sat_SHA1_Update c [0], c) \<in> measure (\<lambda>c. (120 - unat (fst (ctx_count c)) div 8 mod 64) mod 64)"
    by simp
qed simp

declare sha1_pad_loop.simps [simp del]

definition sha1_digest :: "sha1_state \<Rightarrow> bytes" where
  "sha1_digest = (\<lambda>(s0, s1, s2, s3, s4).
     map (\<lambda>i. ucast (drop_bit ((3 - i mod 4) * 8) ([s0, s1, s2, s3, s4] ! (i div 4)) AND 255)) [0..<SHA1_DIGEST_SIZE])"

definition sat_SHA1_Final :: "SHA1_CTX \<Rightarrow> bytes" where
  "sat_SHA1_Final context =
     (let finalcount = sha1_finalcount (ctx_count context);
          context = sat_SHA1_Update context [0x80];
          context = sha1_pad_loop context;
          context = sat_SHA1_Update context finalcount
      in sha1_digest (ctx_state context))"

text \<open>\<^verbatim>\<open>ctx\<close> is what the memory of the local context held.\<close>

definition lsha1 :: "SHA1_CTX \<Rightarrow> bytes \<Rightarrow> bytes" where
  "lsha1 ctx buffer = sat_SHA1_Final (sat_SHA1_Update (sat_SHA1_Init ctx) buffer)"

definition BLOCKSIZE :: nat where
  "BLOCKSIZE = 64"

definition xor_key :: "bytes \<Rightarrow> u32 \<Rightarrow> bytes" where
  "xor_key key v =
     concat (map (\<lambda>n. let i = 4 * n in
       put_le32 (get_le32 (key ! i) (key ! (i + 1)) (key ! (i + 2)) (key ! (i + 3)) XOR v)) [0..<BLOCKSIZE div 4])"

definition lhmac_sha1 :: "SHA1_CTX \<Rightarrow> SHA1_CTX \<Rightarrow> SHA1_CTX \<Rightarrow> bytes \<Rightarrow> bytes \<Rightarrow> bytes" where
  "lhmac_sha1 ctx ctx1 ctx2 key text =
     (let rkey = replicate BLOCKSIZE 0;
          rkey = (if length key > BLOCKSIZE
                  then buffer_copy rkey 0 (sat_SHA1_Final (sat_SHA1_Update (sat_SHA1_Init ctx) key))
                  else buffer_copy rkey 0 key);
          rkey = xor_key rkey 0x5c5c5c5c;
          ctx1 = sat_SHA1_Update (sat_SHA1_Init ctx1) rkey;
          rkey = xor_key rkey (0x5c5c5c5c XOR 0x36363636);
          ctx2 = sat_SHA1_Update (sat_SHA1_Init ctx2) rkey;
          ctx2 = sat_SHA1_Update ctx2 text;
          digest2 = sat_SHA1_Final ctx2;
          ctx1 = sat_SHA1_Update ctx1 digest2
      in sat_SHA1_Final ctx1)"

section \<open>The standard\<close>

text \<open>The message schedule, the round function and the constants of the standard.\<close>

fun sha1_W :: "bytes \<Rightarrow> nat \<Rightarrow> u32" where
  "sha1_W b t =
     (if t < 16 then get_be32 (b ! (4 * t)) (b ! (4 * t + 1)) (b ! (4 * t + 2)) (b ! (4 * t + 3))
      else rol (sha1_W b (t - 3) XOR sha1_W b (t - 8) XOR sha1_W b (t - 14) XOR sha1_W b (t - 16)) 1)"

declare sha1_W.simps [simp del]

definition sha1_f :: "nat \<Rightarrow> u32 \<Rightarrow> u32 \<Rightarrow> u32 \<Rightarrow> u32" where
  "sha1_f t x y z =
     (if t < 20 then (x AND y) XOR (NOT x AND z)
      else if 40 \<le> t \<and> t < 60 then (x AND y) XOR (x AND z) XOR (y AND z)
      else x XOR y XOR z)"

definition sha1_K :: "nat \<Rightarrow> u32" where
  "sha1_K t = (if t < 20 then 0x5A827999 else if t < 40 then 0x6ED9EBA1 else if t < 60 then 0x8F1BBCDC else 0xCA62C1D6)"

definition sha1_round :: "bytes \<Rightarrow> nat \<Rightarrow> sha1_state \<Rightarrow> sha1_state" where
  "sha1_round m t = (\<lambda>(a, b, c, d, e). (rol a 5 + sha1_f t b c d + e + sha1_K t + sha1_W m t, a, rol b 30, c, d))"

definition sha1_compress :: "sha1_state \<Rightarrow> bytes \<Rightarrow> sha1_state" where
  "sha1_compress s m = sha1_add s (fold (sha1_round m) [0..<80] s)"

function sha1_run :: "sha1_state \<Rightarrow> bytes \<Rightarrow> sha1_state" where
  "sha1_run s m = (if length m < 64 then s else sha1_run (sha1_compress s (take 64 m)) (drop 64 m))"
  by pat_completeness auto
termination by (relation "measure (\<lambda>(s, m). length m)") auto

declare sha1_run.simps [simp del]

definition sha1_pad :: "bytes \<Rightarrow> bytes" where
  "sha1_pad m = m @ 0x80 # replicate ((119 - length m mod 64) mod 64) 0 @
     put_be32 (of_nat (8 * length m div 2 ^ 32)) @ put_be32 (of_nat (8 * length m))"

definition sha1_IV :: sha1_state where
  "sha1_IV = (0x67452301, 0xEFCDAB89, 0x98BADCFE, 0x10325476, 0xC3D2E1F0)"

definition sha1 :: "bytes \<Rightarrow> bytes" where
  "sha1 m = (case sha1_run sha1_IV (sha1_pad m) of (a, b, c, d, e) \<Rightarrow>
     put_be32 a @ put_be32 b @ put_be32 c @ put_be32 d @ put_be32 e)"

section \<open>The compression follows the standard\<close>

lemma byte_swap: "(rol (get_le32 a b c d) 24 AND 0xFF00FF00) OR (rol (get_le32 a b c d) 8 AND 0x00FF00FF) = get_be32 a b c d"
proof -
  have m: "(0xFF00FF00 :: u32) = push_bit 8 (mask 8) OR push_bit 24 (mask 8)"
    "(0x00FF00FF :: u32) = mask 8 OR push_bit 16 (mask 8)" by code_simp+
  show ?thesis unfolding m
  proof (rule bit_eqI)
    fix n :: nat
    consider "n < 8" | "8 \<le> n" "n < 16" | "16 \<le> n" "n < 24" | "24 \<le> n" "n < 32" | "32 \<le> n" by linarith
    then show "bit (rol (get_le32 a b c d) 24 AND (push_bit 8 (mask 8) OR push_bit 24 (mask 8)) OR
        rol (get_le32 a b c d) 8 AND (mask 8 OR push_bit 16 (mask 8))) n = bit (get_be32 a b c d) n"
      by cases (auto simp: rol_def get_le32_def get_be32_def bit_simps bit_byte_out dest: bit_imp_le_length)
  qed
qed

lemma sha1_choose: "(x AND (y XOR z)) XOR z = (x AND y) XOR (NOT x AND z)" for x y z :: u32
  by (rule bit_eqI) (auto simp: bit_simps)

lemma sha1_majority: "((x OR y) AND z) OR (x AND y) = (x AND y) XOR (x AND z) XOR (y AND z)" for x y z :: u32
  by (rule bit_eqI) (auto simp: bit_simps)

text \<open>After \<^term>\<open>t\<close> rounds the circular block holds the last words of the schedule, and the raw ones to come.\<close>

definition sha1_sched :: "bytes \<Rightarrow> nat \<Rightarrow> u32 list \<Rightarrow> bool" where
  "sha1_sched m t l \<longleftrightarrow> length l = 16 \<and>
     (\<forall>u. u < t \<and> t \<le> u + 16 \<longrightarrow> l ! (u mod 16) = sha1_W m u) \<and>
     (\<forall>u. t \<le> u \<and> u < 16 \<longrightarrow> l ! u = sha1_block m ! u)"

lemma sha1_sched_next:
  assumes "sha1_sched m t l" "v = sha1_W m t"
  shows "sha1_sched m (Suc t) (l[t mod 16 := v])"
proof -
  have "l[t mod 16 := v] ! (u mod 16) = sha1_W m u" if "u < Suc t" "Suc t \<le> u + 16" for u
  proof (cases "u = t")
    case False
    have "u mod 16 \<noteq> t mod 16"
    proof
      assume "u mod 16 = t mod 16"
      then have "16 dvd t - u" using that by (metis less_Suc_eq_le mod_eq_dvd_iff_nat)
      with False that show False by (auto dest: dvd_imp_le)
    qed
    with False that assms show ?thesis by (auto simp: sha1_sched_def)
  qed (use assms in \<open>auto simp: sha1_sched_def\<close>)
  with assms show ?thesis by (auto simp: sha1_sched_def nth_list_update)
qed

lemma sha1_sched_blk0:
  assumes "sha1_sched m t l" "t < 16"
  shows "blk0 l t = (sha1_W m t, l[t mod 16 := sha1_W m t])"
  using assms by (auto simp: blk0_def Let_def sha1_sched_def sha1_block_def byte_swap sha1_W.simps [of m t])

lemma sha1_sched_blk:
  assumes "sha1_sched m t l" "16 \<le> t"
  shows "blk l t = (sha1_W m t, l[t mod 16 := sha1_W m t])"
proof -
  have "(t + 13) mod 16 = (t - 3) mod 16" "(t + 8) mod 16 = (t - 8) mod 16" "(t + 2) mod 16 = (t - 14) mod 16"
    "t mod 16 = (t - 16) mod 16"
  proof -
    have "t + 13 = t - 3 + 16" "t + 8 = t - 8 + 16" "t + 2 = t - 14 + 16" "t = t - 16 + 16" using assms(2) by auto
    then show "(t + 13) mod 16 = (t - 3) mod 16" "(t + 8) mod 16 = (t - 8) mod 16"
      "(t + 2) mod 16 = (t - 14) mod 16" "t mod 16 = (t - 16) mod 16" by (metis mod_add_self2)+
  qed
  then show ?thesis
    using assms by (simp add: blk_def Let_def sha1_sched_def sha1_W.simps [of m t])
qed

lemma SHA1_R_round:
  assumes "sha1_sched m t l"
  shows "SHA1_R t (s, l) = (sha1_round m t s, l[t mod 16 := sha1_W m t])"
proof -
  have "(if t < 16 then blk0 l t else blk l t) = (sha1_W m t, l[t mod 16 := sha1_W m t])"
    using assms sha1_sched_blk0 sha1_sched_blk by auto
  then show ?thesis
    by (cases s) (auto simp: SHA1_R_def sha1_round_def sha1_f_def sha1_K_def sha1_choose sha1_majority add_ac)
qed

lemma SHA1_rounds:
  "\<exists>l. fold SHA1_R [0..<t] (s, sha1_block m) = (fold (sha1_round m) [0..<t] s, l) \<and> sha1_sched m t l"
proof (induction t)
  case 0
  show ?case by (auto simp: sha1_sched_def sha1_block_def)
next
  case (Suc t)
  then obtain l where l: "fold SHA1_R [0..<t] (s, sha1_block m) = (fold (sha1_round m) [0..<t] s, l)" "sha1_sched m t l"
    by blast
  then show ?case by (auto simp: SHA1_R_round sha1_sched_next)
qed

lemma SHA1_Transform_eq: "SHA1_Transform s m = sha1_compress s m"
  using SHA1_rounds [of 80 s m] by (auto simp: SHA1_Transform_def sha1_compress_def)

section \<open>The context stands for the bytes it was given\<close>

definition sha1_tail :: "bytes \<Rightarrow> bytes" where
  "sha1_tail m = drop (length m div 64 * 64) m"

definition sha1_rep :: "SHA1_CTX \<Rightarrow> bytes \<Rightarrow> bool" where
  "sha1_rep c m \<longleftrightarrow> ctx_count c = count_of (length m) \<and> length (ctx_buffer c) = 64 \<and>
     ctx_state c = sha1_run sha1_IV m \<and> take (length m mod 64) (ctx_buffer c) = sha1_tail m"

lemma length_sha1_tail [simp]: "length (sha1_tail m) = length m mod 64"
  by (simp add: sha1_tail_def minus_div_mult_eq_mod)

lemma sha1_split: "length m \<ge> 64 \<Longrightarrow> sha1_run s m = sha1_run (sha1_compress s (take 64 m)) (drop 64 m) \<and>
    sha1_tail m = sha1_tail (drop 64 m)"
  by (auto simp: sha1_run.simps [of s m] sha1_tail_def le_div_geq add.commute)

lemma sha1_short: "length m < 64 \<Longrightarrow> sha1_run s m = s \<and> sha1_tail m = m"
  by (simp add: sha1_run.simps sha1_tail_def)

lemma sha1_append:
  "sha1_run s (m @ d) = sha1_run (sha1_run s m) (sha1_tail m @ d) \<and> sha1_tail (m @ d) = sha1_tail (sha1_tail m @ d)"
proof (induction m arbitrary: s rule: measure_induct_rule [of length])
  case (less m)
  show ?case
  proof (cases "length m < 64")
    case False
    with less [of "drop 64 m" "sha1_compress s (take 64 m)"] sha1_split [of m s] sha1_split [of "m @ d" s]
    show ?thesis by simp
  qed (simp add: sha1_short)
qed

lemma sha1_blocks_loop_run:
  "sha1_blocks_loop s d i = (sha1_run s (drop i d), length d - length (sha1_tail (drop i d)))" if "i \<le> length d"
  using that
proof (induction s d i rule: sha1_blocks_loop.induct)
  case (1 s d i)
  show ?case
  proof (cases "i + 63 < length d")
    case True
    then have "length (drop i d) \<ge> 64" by simp
    with 1 True sha1_split [of "drop i d" s] show ?thesis
      by (subst sha1_blocks_loop.simps) (simp add: SHA1_Transform_eq add.commute)
  next
    case False
    with 1 show ?thesis
      by (subst sha1_blocks_loop.simps) (simp add: sha1_short del: length_sha1_tail)
  qed
qed

lemma sha1_position:
  "unat (drop_bit 3 (fst (count_of n)) AND 63) = n mod 64"
proof -
  have "unat (of_nat (8 * n) :: u32) = 8 * n mod 2 ^ 32" by (simp only: unat_of_nat) simp
  then show ?thesis by (simp only: count_position count_of_def fst_conv div_mod_512) simp
qed

lemma buffer_copy_take:
  "j \<le> length b \<Longrightarrow> take (j + length d) (buffer_copy b j d) = take j b @ d"
  "length b \<ge> j + length d \<Longrightarrow> length (buffer_copy b j d) = length b"
  by (simp_all add: buffer_copy_def)

lemma sha1_rep_Update:
  assumes "sha1_rep c m" "length d < 2 ^ 29"
  shows "sha1_rep (sat_SHA1_Update c d) (m @ d)"
proof -
  define j where "j = length m mod 64"
  have j: "j < 64" "unat (drop_bit 3 (fst (ctx_count c)) AND 63) = j"
    using assms sha1_position by (simp_all add: j_def sha1_rep_def)
  have b: "length (ctx_buffer c) = 64" "take j (ctx_buffer c) = sha1_tail m" "ctx_state c = sha1_run sha1_IV m"
    using assms by (simp_all add: j_def sha1_rep_def)
  have cnt: "sha1_count (ctx_count c) (length d) = count_of (length (m @ d))"
    using assms by (simp add: sha1_rep_def sha1_count_of)
  have lm: "length (m @ d) mod 64 = (j + length d) mod 64" by (simp add: j_def mod_simps)
  show ?thesis
  proof (cases "j + length d > 63")
    case True
    define i where "i = 64 - j"
    define buf where "buf = buffer_copy (ctx_buffer c) j (take i d)"
    define t where "t = sha1_tail (drop i d)"
    have buf: "buf = sha1_tail m @ take i d" "length buf = 64"
      using True j(1) b by (auto simp: buf_def i_def buffer_copy_def j_def [symmetric])
    have split: "sha1_tail m @ d = buf @ drop i d" by (simp add: buf)
    have run: "sha1_run sha1_IV (m @ d) = sha1_run (sha1_compress (ctx_state c) buf) (drop i d)"
      and tail: "sha1_tail (m @ d) = t"
      using sha1_append [of sha1_IV m d] sha1_split [of "buf @ drop i d" "ctx_state c"]
      unfolding split t_def by (simp_all add: buf(2) b)
    have t: "length t < 64" "length t = (j + length d) mod 64" "length t \<le> length d"
    proof -
      show "length t < 64" by (simp add: t_def)
      show "length t = (j + length d) mod 64" using tail lm length_sha1_tail [of "m @ d"] by simp
      show "length t \<le> length d" by (simp add: t_def)
    qed
    have "i \<le> length d" using True i_def by simp
    then have "drop (length d - length t) d = t"
      by (simp add: t_def sha1_tail_def minus_div_mult_eq_mod [symmetric])
    then have "sat_SHA1_Update c d = c\<lparr>ctx_state := sha1_run (sha1_compress (ctx_state c) buf) (drop i d),
        ctx_count := count_of (length (m @ d)), ctx_buffer := buffer_copy buf 0 t\<rparr>"
      using True \<open>i \<le> length d\<close> by (simp add: sat_SHA1_Update_def Let_def j cnt sha1_blocks_loop_run SHA1_Transform_eq
          i_def [symmetric] buf_def [symmetric] t_def [symmetric] del: length_sha1_tail)
    with run tail t buf(2) lm show ?thesis
      using buffer_copy_take(1) [of 0 buf t] buffer_copy_take(2) [where j = 0 and b = buf and d = t]
      by (simp add: sha1_rep_def)
  next
    case False
    then have "sat_SHA1_Update c d = c\<lparr>ctx_count := count_of (length (m @ d)),
        ctx_buffer := buffer_copy (ctx_buffer c) j d\<rparr>"
      by (simp add: sat_SHA1_Update_def Let_def j cnt)
    moreover have "sha1_run sha1_IV (m @ d) = ctx_state c \<and> sha1_tail (m @ d) = sha1_tail m @ d"
      using sha1_append [of sha1_IV m d] sha1_short [of "sha1_tail m @ d"] False b(3) by (simp add: j_def)
    ultimately show ?thesis
      using False b lm buffer_copy_take(1) [of j "ctx_buffer c" d]
        buffer_copy_take(2) [where j = j and b = "ctx_buffer c" and d = d] by (simp add: sha1_rep_def)
  qed
qed

lemma sha1_rep_Init: "length (ctx_buffer c) = 64 \<Longrightarrow> sha1_rep (sat_SHA1_Init c) []"
  by (simp add: sha1_rep_def sat_SHA1_Init_def count_of_def sha1_short sha1_IV_def)

lemma sha1_zeros_step:
  assumes "n mod 64 \<noteq> 56"
  shows "(120 - n mod 64) mod 64 = Suc ((120 - Suc n mod 64) mod (64 :: nat))"
proof -
  have "(120 - p) mod 64 = Suc ((120 - (if p = 63 then 0 else Suc p)) mod 64)" if p: "p < 64" "p \<noteq> 56" for p :: nat
  proof -
    consider "p < 56" | "56 < p" "p < 63" | "p = 63" using p by linarith
    then show ?thesis by cases (simp_all add: le_mod_geq)
  qed
  from this [of "n mod 64"] assms show ?thesis by (simp add: mod_Suc)
qed

lemma sha1_rep_pad:
  "sha1_rep c m \<Longrightarrow> sha1_rep (sha1_pad_loop c) (m @ replicate ((120 - length m mod 64) mod 64) 0)"
proof (induction c arbitrary: m rule: sha1_pad_loop.induct)
  case (1 c)
  have p: "fst (ctx_count c) AND 504 = 448 \<longleftrightarrow> length m mod 64 = 56"
    using 1(2) sha1_position [of "length m"] by (simp add: count_mask count_position sha1_rep_def)
  show ?case
  proof (cases "length m mod 64 = 56")
    case True
    with p 1(2) show ?thesis by (subst sha1_pad_loop.simps) simp
  next
    case False
    have "sha1_rep (sat_SHA1_Update c [0]) (m @ [0])" using sha1_rep_Update [OF 1(2), of "[0]"] by simp
    with 1(1) False p have "sha1_rep (sha1_pad_loop (sat_SHA1_Update c [0]))
        ((m @ [0]) @ replicate ((120 - length (m @ [0]) mod 64) mod 64) 0)" by blast
    with False p show ?thesis
      by (subst sha1_pad_loop.simps) (simp add: sha1_zeros_step)
  qed
qed

lemma ucast_and_255: "ucast (w AND 255) = (ucast (w :: 'a::len word) :: u8)"
  using ucast_and_ff [of w] by simp

lemma sha1_finalcount_eq: "sha1_finalcount (lo, hi) = put_be32 hi @ put_be32 lo"
  by (simp add: sha1_finalcount_def put_be32_def ucast_and_255 upt_conv_Cons)

lemma sha1_digest_eq:
  "sha1_digest (a, b, c, d, e) = put_be32 a @ put_be32 b @ put_be32 c @ put_be32 d @ put_be32 e"
  by (simp add: sha1_digest_def SHA1_DIGEST_SIZE_def put_be32_def ucast_and_255 upt_conv_Cons)

lemma sha1_zeros_first: "(120 - Suc n mod 64) mod 64 = (119 - n mod 64) mod (64 :: nat)"
  by (cases "n mod 64 = 63") (auto simp: mod_Suc)

lemma sha1_rep_Final:
  assumes "sha1_rep c m"
  shows "sat_SHA1_Final c = sha1 m"
proof -
  let ?fc = "sha1_finalcount (ctx_count c)"
  have fc: "?fc = put_be32 (of_nat (8 * length m div 2 ^ 32)) @ put_be32 (of_nat (8 * length m))"
    using assms by (simp only: sha1_rep_def count_of_def sha1_finalcount_eq)
  have "length ?fc < 2 ^ 29" unfolding fc by (simp add: put_be32_def)
  moreover have "sha1_rep (sat_SHA1_Update c [0x80]) (m @ [0x80])"
    using sha1_rep_Update [OF assms, of "[0x80]"] by simp
  ultimately have "sha1_rep (sat_SHA1_Update (sha1_pad_loop (sat_SHA1_Update c [0x80])) ?fc)
      (((m @ [0x80]) @ replicate ((120 - length (m @ [0x80]) mod 64) mod 64) 0) @ ?fc)"
    by (intro sha1_rep_Update [OF sha1_rep_pad])
  also have "((m @ [0x80]) @ replicate ((120 - length (m @ [0x80]) mod 64) mod 64) 0) @ ?fc = sha1_pad m"
    unfolding fc sha1_pad_def by (simp only: length_append_singleton sha1_zeros_first append_assoc append.simps)
  finally show ?thesis
    by (simp add: sat_SHA1_Final_def sha1_def sha1_rep_def Let_def sha1_digest_eq split: prod.split)
qed

section \<open>Results\<close>

text \<open>
  C31: \<^verbatim>\<open>crypt.sha1\<close> computes SHA-1 as the standard defines it, on every string below 512 megabytes
  and whatever the memory of its context held before.
\<close>

theorem lsha1_standard:
  assumes "length (ctx_buffer ctx) = 64" "length m < 2 ^ 29"
  shows "lsha1 ctx m = sha1 m"
  using sha1_rep_Final [OF sha1_rep_Update [OF sha1_rep_Init [OF assms(1)] assms(2)]]
  by (simp add: lsha1_def)

definition fresh_ctx :: SHA1_CTX where
  "fresh_ctx = \<lparr>ctx_state = (0, 0, 0, 0, 0), ctx_count = (0, 0), ctx_buffer = replicate 64 0\<rparr>"

theorem lsha1_standard_witness: "lsha1 fresh_ctx [97, 98, 99] = sha1 [97, 98, 99]"
  by (rule lsha1_standard) (simp_all add: fresh_ctx_def)

definition hmac_sha1 :: "bytes \<Rightarrow> bytes \<Rightarrow> bytes" where
  "hmac_sha1 key t =
     (let k = (if length key > 64 then sha1 key else key);
          k = k @ replicate (64 - length k) 0
      in sha1 (map (\<lambda>b. b XOR 0x5c) k @ sha1 (map (\<lambda>b. b XOR 0x36) k @ t)))"

lemma length_sha1 [simp]: "length (sha1 m) = 20"
  by (simp add: sha1_def put_be32_def split: prod.split)

lemma xor_key_word: "put_le32 (get_le32 a b c d XOR get_le32 w w w w) = [a XOR w, b XOR w, c XOR w, d XOR w]"
  by (simp add: put_le32_xor put_get_le32)

lemma xor_key_map:
  assumes "length key = 64" "v = get_le32 w w w w"
  shows "xor_key key v = map (\<lambda>b. b XOR w) key"
proof -
  have "concat (map (\<lambda>n. let i = 4 * n in
      put_le32 (get_le32 (key ! i) (key ! (i + 1)) (key ! (i + 2)) (key ! (i + 3)) XOR v)) [0..<k]) =
    map (\<lambda>b. b XOR w) (take (4 * k) key)" if "k \<le> 16" for k
    using that
  proof (induction k)
    case (Suc k)
    then have "4 * k + 3 < length key" using assms by simp
    then have "take (4 * Suc k) key = take (4 * k) key @ [key ! (4 * k), key ! (4 * k + 1), key ! (4 * k + 2), key ! (4 * k + 3)]"
      using take_add [of "4 * k" 4 key] take_drop [of 4 "4 * k" key]
      by (simp add: numeral_eq_Suc take_Suc_conv_app_nth)
    with Suc show ?case by (simp add: Let_def assms(2) xor_key_word)
  qed simp
  from this [of 16] assms(1) show ?thesis by (simp add: xor_key_def BLOCKSIZE_def)
qed

lemma hmac_pads:
  "(0x5c5c5c5c :: u32) = get_le32 0x5c 0x5c 0x5c 0x5c"
  "(0x5c5c5c5c XOR 0x36363636 :: u32) = get_le32 0x6a 0x6a 0x6a 0x6a"
  by code_simp+

lemma xor_pads: "(b XOR 0x5c) XOR 0x6a = (b XOR 0x36 :: u8)"
proof -
  have "(0x5c XOR 0x6a :: u8) = 0x36" by code_simp
  then show ?thesis by (simp only: xor.assoc)
qed

text \<open>
  \<^verbatim>\<open>crypt.hmac_sha1\<close> is HMAC over SHA-1: the key, hashed when longer than a block, is padded
  with zeros and combined with the two pads.
\<close>

theorem lhmac_sha1_standard:
  assumes "length (ctx_buffer ctx) = 64" "length (ctx_buffer ctx1) = 64" "length (ctx_buffer ctx2) = 64"
    and "length key < 2 ^ 29" "length t < 2 ^ 29"
  shows "lhmac_sha1 ctx ctx1 ctx2 key t = hmac_sha1 key t"
proof -
  define k where "k = (if length key > 64 then sha1 key else key)"
  define rkey where "rkey = k @ replicate (64 - length k) 0"
  have "length k \<le> 64" by (simp add: k_def)
  then have l: "length rkey = 64" by (simp add: rkey_def)
  have init: "sha1_rep (sat_SHA1_Update (sat_SHA1_Init c) d) d"
    if "length (ctx_buffer c) = 64" "length d < 2 ^ 29" for c d
    using sha1_rep_Update [OF sha1_rep_Init [OF that(1)] that(2)] by simp
  have "sat_SHA1_Final (sat_SHA1_Update (sat_SHA1_Init ctx) key) = sha1 key"
    using sha1_rep_Final [OF init] assms by blast
  then have r: "(if length key > BLOCKSIZE
      then buffer_copy (replicate BLOCKSIZE 0) 0 (sat_SHA1_Final (sat_SHA1_Update (sat_SHA1_Init ctx) key))
      else buffer_copy (replicate BLOCKSIZE 0) 0 key) = rkey"
    by (simp add: buffer_copy_def rkey_def k_def BLOCKSIZE_def)
  let ?o = "map (\<lambda>b. b XOR 0x5c) rkey" and ?i = "map (\<lambda>b. b XOR 0x36) rkey"
  have x: "xor_key rkey 0x5c5c5c5c = ?o" "xor_key ?o (0x5c5c5c5c XOR 0x36363636) = ?i"
    using xor_key_map [OF l hmac_pads(1)] xor_key_map [of ?o, OF _ hmac_pads(2)] l by (simp_all only: length_map map_map comp_def xor_pads)
  have "sha1_rep (sat_SHA1_Update (sat_SHA1_Update (sat_SHA1_Init ctx2) ?i) t) (?i @ t)"
    using assms l by (intro sha1_rep_Update init) simp_all
  then have d2: "sat_SHA1_Final (sat_SHA1_Update (sat_SHA1_Update (sat_SHA1_Init ctx2) ?i) t) = sha1 (?i @ t)"
    by (rule sha1_rep_Final)
  have "sha1_rep (sat_SHA1_Update (sat_SHA1_Update (sat_SHA1_Init ctx1) ?o) (sha1 (?i @ t))) (?o @ sha1 (?i @ t))"
    using assms l by (intro sha1_rep_Update init) simp_all
  then have "sat_SHA1_Final (sat_SHA1_Update (sat_SHA1_Update (sat_SHA1_Init ctx1) ?o) (sha1 (?i @ t))) =
      sha1 (?o @ sha1 (?i @ t))" by (rule sha1_rep_Final)
  then show ?thesis
    unfolding lhmac_sha1_def Let_def r x d2 by (simp only: hmac_sha1_def Let_def k_def rkey_def)
qed

theorem lhmac_sha1_standard_witness:
  "lhmac_sha1 fresh_ctx fresh_ctx fresh_ctx [107, 101, 121] [97, 98, 99] = hmac_sha1 [107, 101, 121] [97, 98, 99]"
  by (rule lhmac_sha1_standard) (simp_all add: fresh_ctx_def)

text \<open>
  C38: from 512 megabytes on one call of \<^verbatim>\<open>sat_SHA1_Update\<close> counts the bits wrongly: the stored 32-bit
  sum is compared with a 64-bit number, so that the carry is taken although the high part of the
  length is added as well, and the high word of the count is one too many.
\<close>

theorem sha1_count_wrong:
  assumes "2 ^ 29 \<le> length d" "length d < 2 ^ 61"
  shows "ctx_count (sat_SHA1_Update (sat_SHA1_Init c) d) =
    (fst (count_of (length d)), snd (count_of (length d)) + 1)"
proof -
  let ?len = "length d"
  have u: "unat (of_nat ?len :: u64) = ?len" using assms by (simp only: unat_of_nat) simp
  have "push_bit 3 (of_nat ?len :: u64) = of_nat (8 * ?len)" by (simp add: push_bit_eq_mult mult.commute)
  then have b: "unat (push_bit 3 (of_nat ?len :: u64)) = 8 * ?len" using assms by (simp only: unat_of_nat) simp
  have "unat (s :: u32) < 2 ^ LENGTH(32)" for s by (rule unsigned_less)
  then have "(ucast (s :: u32) :: u64) < push_bit 3 (of_nat ?len)" for s
  proof -
    have "(2 :: nat) ^ LENGTH(32) \<le> 8 * ?len" using assms(1) by simp
    with \<open>unat s < 2 ^ LENGTH(32)\<close> show ?thesis unfolding word_less_nat_alt b unat_ucast_32_64 by (rule less_le_trans)
  qed
  moreover have "(ucast (drop_bit 29 (of_nat ?len :: u64)) :: u32) = of_nat (8 * ?len div 2 ^ 32)"
  proof -
    have "drop_bit 29 (of_nat ?len :: u64) = of_nat (unat (drop_bit 29 (of_nat ?len :: u64)))" by simp
    also have "unat (drop_bit 29 (of_nat ?len :: u64)) = ?len div 2 ^ 29" by (simp only: unat_drop_bit u)
    also have "\<dots> = 8 * ?len div 2 ^ 32" by simp
    finally show ?thesis by (simp only: ucast_of_nat_64)
  qed
  ultimately have "snd (sha1_count (0, 0) ?len) = snd (count_of ?len) + 1"
    by (simp only: sha1_count_def Let_def snd_conv if_True count_of_def) simp
  moreover have "fst (sha1_count (0, 0) ?len) = fst (count_of ?len)"
    by (simp only: fst_sha1_count count_of_def) simp
  ultimately show ?thesis
    by (simp add: ctx_count_Update sat_SHA1_Init_def prod_eq_iff)
qed

theorem sha1_count_wrong_witness:
  "ctx_count (sat_SHA1_Update (sat_SHA1_Init fresh_ctx) (replicate (2 ^ 29) 0)) = (0, 2) \<and>
   count_of (2 ^ 29) = (0, 1)"
proof -
  have "count_of (2 ^ 29) = (0, 1)" by (simp add: count_of_def)
  with sha1_count_wrong [of "replicate (2 ^ 29) 0" fresh_ctx] show ?thesis by (simp only: length_replicate) simp
qed

end
